(* ===== verification/Prelude.thy ===== *)
theory Prelude
  imports "HOL-Library.AList" "HOL-Library.Word"
begin

text \<open>
  The shared vocabulary of the development: the Go types the sources use (fixed-width integers,
  32-byte identifiers, byte slices, maps, error values) and the generic lemmas on words, lists and
  association lists that the component theories rely on.

  \<^item> \<open>uint64\<close> arithmetic wraps around, as in Go: it is \<^typ>\<open>64 word\<close>.
  \<^item> A \<open>flow.Identifier\<close> is a 32-byte array, read here as a big-endian 256-bit word, so that
    \<open><\<close> is the byte-wise lexicographic order of the sources (\<open>bytes.Compare\<close>).
  \<^item> A Go \<open>map\<close> is an association list with distinct keys; reading it is \<^const>\<open>map_of\<close>,
    writing it \<^const>\<open>AList.update\<close>, \<open>delete\<close> is \<^const>\<open>AList.delete\<close> and \<open>len\<close> is
    \<^const>\<open>length\<close>.
  \<^item> A nil-able pointer is an \<open>option\<close>; dereferencing nil is the error value \<open>Panic\<close>.
\<close>

type_synonym uint64 = "64 word"
type_synonym byte = "8 word"
type_synonym bytes = "byte list"
type_synonym Identifier = "256 word"
type_synonym ('k, 'v) gomap = "('k \<times> 'v) list"

named_theorems alist_simps \<open>lookup in updated and pruned association lists\<close>
named_theorems view_arith \<open>unsigned comparison of 64-bit views\<close>

section \<open>Association lists as Go maps\<close>

declare update_conv' [alist_simps] delete_conv' [alist_simps]

lemma alist_update_keys [simp]: "fst ` set (AList.update k v m) = insert k (fst ` set m)"
  by (simp add: dom_update)

lemma alist_delete_keys [simp]: "fst ` set (AList.delete k m) = fst ` set m - {k}"
  by (auto simp: AList.delete_eq)

lemma alist_distinct_update [intro]:
  "distinct (map fst m) \<Longrightarrow> distinct (map fst (AList.update k v m))"
  by (rule distinct_update)

lemma alist_distinct_delete [intro]:
  "distinct (map fst m) \<Longrightarrow> distinct (map fst (AList.delete k m))"
  by (rule distinct_delete)

section \<open>Views: unsigned 64-bit numbers\<close>

lemma word_add_one_cases:
  fixes v :: uint64
  shows "v + 1 = 0 \<or> v < v + 1"
  by uint_arith

lemma word_add_one_lessD [view_arith]:
  fixes v w :: uint64
  assumes "v + 1 = w" and "0 < w"
  shows "v < w"
  using assms word_add_one_cases [of v] by auto

lemma word_add_one_unat [view_arith]:
  fixes v w :: uint64
  assumes "v < w"
  shows "unat (v + 1) = unat v + 1"
proof -
  have "v + 1 \<noteq> 0" using assms by uint_arith
  then have "1 + v \<noteq> 0" by (simp add: add.commute)
  then show ?thesis by (simp add: unatSuc add.commute)
qed

lemma word_add_one_le [view_arith]:
  fixes v w :: uint64
  assumes "v < w"
  shows "v + 1 \<le> w"
  using assms by (rule inc_le)

lemma word_le_add_oneD [view_arith]:
  fixes v w :: uint64
  assumes "w \<le> v"
  shows "w < v + 1 \<or> v + 1 = 0"
  using assms word_add_one_cases [of v] by auto

section \<open>Big-endian byte strings\<close>

text \<open>
  \<open>be_bytes n w\<close>: the \<open>n\<close> low bytes of a word, most significant first, which is what
  \<open>binary.BigEndian.PutUint64\<close> writes for \<open>n = 8\<close> and what an identifier is for \<open>n = 32\<close>.
\<close>

definition be_bytes :: "nat \<Rightarrow> 'a::len word \<Rightarrow> bytes" where
  "be_bytes n w = map (\<lambda>i. ucast (drop_bit (8 * i) w)) (rev [0..<n])"

lemma length_be_bytes [simp]: "length (be_bytes n w) = n"
  by (simp add: be_bytes_def)

lemma be_bytes_inj:
  fixes v w :: "'a::len word"
  assumes eq: "be_bytes n v = be_bytes n w" and len: "LENGTH('a) \<le> 8 * n"
  shows "v = w"
proof (rule bit_word_eqI)
  fix k assume k: "k < LENGTH('a)"
  have byte: "ucast (drop_bit (8 * i) v) = (ucast (drop_bit (8 * i) w) :: byte)" if "i < n" for i
    using eq that by (auto simp: be_bytes_def)
  have i: "k div 8 < n" using k len by linarith
  have "k mod 8 < LENGTH(8)" by simp
  then have "bit v k = bit (ucast (drop_bit (8 * (k div 8)) v) :: byte) (k mod 8)"
    "bit w k = bit (ucast (drop_bit (8 * (k div 8)) w) :: byte) (k mod 8)"
    by (simp_all add: bit_ucast_iff bit_drop_bit_eq)
  with byte [OF i] show "bit v k = bit w k" by simp
qed

section \<open>Lists\<close>

lemma nth_list_update':
  "xs[i := x] ! j = (if i = j \<and> i < length xs then x else xs ! j)"
  by (cases "i < length xs") (simp_all add: nth_list_update list_update_beyond)

end
