(* ===== verification/HotStuff_Model.thy ===== *)
theory HotStuff_Model
  imports Prelude
begin

text \<open>
  The data model of the consensus core: \<open>model/flow\<close> (quorum and timeout certificates, headers)
  and \<open>consensus/hotstuff/model\<close> (blocks, proposals, votes, timeout objects and the error
  types of \<open>errors.go\<close>).

  An error value is a term of \<open>error\<close>. \<open>Errorf\<close> is an error of \<open>fmt.Errorf\<close> or
  \<open>errors.New\<close> that wraps nothing, \<open>Wrapf e\<close> one made with the verb \<open>%w\<close>; messages are not
  kept, only the chain that \<open>errors.Is\<close> and \<open>errors.As\<close> walk. \<open>Panic\<close> is a nil
  dereference or an index out of range, which no caller of this code recovers from.
\<close>

section \<open>Certificates, blocks, votes\<close>

record QuorumCertificate =
  QC_View :: uint64
  QC_BlockID :: Identifier
  QC_SignerIndices :: bytes
  QC_SigData :: bytes

record TimeoutCertificate =
  TC_View :: uint64
  TC_NewestQCViews :: "uint64 list"
  TC_NewestQC :: "QuorumCertificate option"
  TC_SignerIndices :: bytes
  TC_SigData :: bytes

record Block =
  B_View :: uint64
  B_BlockID :: Identifier
  B_ProposerID :: Identifier
  B_QC :: "QuorumCertificate option"
  B_PayloadHash :: Identifier
  B_Timestamp :: int

record Proposal =
  P_Block :: Block
  P_SigData :: bytes
  P_LastViewTC :: "TimeoutCertificate option"

record Vote =
  V_View :: uint64
  V_BlockID :: Identifier
  V_SignerID :: Identifier
  V_SigData :: bytes

record TimeoutObject =
  TO_View :: uint64
  TO_NewestQC :: "QuorumCertificate option"
  TO_LastViewTC :: "TimeoutCertificate option"
  TO_SignerID :: Identifier
  TO_SigData :: bytes
  TO_TimeoutTick :: uint64

record Header =
  H_ChainID :: string
  H_ParentID :: Identifier
  H_Height :: uint64
  H_PayloadHash :: Identifier
  H_Timestamp :: int
  H_View :: uint64
  H_ParentView :: uint64
  H_ParentVoterIndices :: bytes
  H_ParentVoterSigData :: bytes
  H_ProposerID :: Identifier
  H_ProposerSigData :: bytes
  H_LastViewTC :: "TimeoutCertificate option"

section \<open>Error values\<close>

datatype error =
    Panic
  | Errorf
  | Wrapf error
  | ErrInvalidSignature
  | ErrViewForUnknownEpoch
  | ErrPrunedAncestry
  | ErrIncompatibleBitVectorLength
  | ErrIllegallyPaddedBitVector
  | ErrInvalidChecksum
  | NoVoteError error
  | NoTimeoutError error
  | InvalidFormatError error
  | ConfigurationError error
  | MissingBlockError uint64 Identifier
  | InvalidQCError Identifier uint64 error
  | InvalidTCError uint64 error
  | InvalidBlockError Identifier uint64 error
  | InvalidVoteError Vote error
  | ByzantineThresholdExceededError
  | DoubleVoteError Vote Vote error
  | DoubleTimeoutError TimeoutObject TimeoutObject error
  | InvalidTimeoutError TimeoutObject error
  | DuplicatedSignerError error
  | InvalidSignatureIncludedError error
  | InvalidAggregatedKeyError error
  | InsufficientSignaturesError error
  | InvalidSignerError error
  | InvalidSignerIndicesError error
  | InvalidSigTypesError error
  | InvalidVertexError
  | BelowPrunedThresholdError error
  | ErrUnverifiableBlock
  | ErrNoBeaconKeyForEpoch
  | ErrInvalidSignatureFormat
  | ErrInsufficientShares
  | ErrIdentityPublicKey
  | ErrDifferentCollectorState
  | RepeatedVoteErr
  | VoteForIncompatibleViewError
  | VoteForIncompatibleBlockError
  | ErrRepeatedTimeout
  | ErrTimeoutForIncompatibleView
  | InvalidSignerIdxError error
  | DuplicatedSignerIdxError error
  | Msig_InvalidSignatureIncludedError error
  | Msig_InsufficientSignaturesError error
  | InvalidViewError uint64 uint64 uint64
  | IdentityNotFoundError Identifier
  | BLSAggregateEmptyListError
  | Badger_ErrKeyNotFound
  | Badger_ErrConflict
  | Storage_ErrNotFound
  | Storage_ErrAlreadyExists

type_synonym 'a result = "error + 'a"

text \<open>The \<open>Unwrap\<close> methods; \<open>None\<close> for a type without one.\<close>

fun Unwrap :: "error \<Rightarrow> error option" where
  "Unwrap (Wrapf e) = Some e"
| "Unwrap (NoVoteError e) = Some e"
| "Unwrap (NoTimeoutError e) = Some e"
| "Unwrap (InvalidFormatError e) = Some e"
| "Unwrap (ConfigurationError e) = Some e"
| "Unwrap (InvalidQCError i v e) = Some e"
| "Unwrap (InvalidTCError v e) = Some e"
| "Unwrap (InvalidBlockError i v e) = Some e"
| "Unwrap (InvalidVoteError v e) = Some e"
| "Unwrap (DoubleVoteError v w e) = Some e"
| "Unwrap (DoubleTimeoutError v w e) = Some e"
| "Unwrap (InvalidTimeoutError v e) = Some e"
| "Unwrap (DuplicatedSignerError e) = Some e"
| "Unwrap (InvalidSignatureIncludedError e) = Some e"
| "Unwrap (InvalidAggregatedKeyError e) = Some e"
| "Unwrap (InsufficientSignaturesError e) = Some e"
| "Unwrap (InvalidSignerError e) = Some e"
| "Unwrap (InvalidSignerIndicesError e) = Some e"
| "Unwrap (InvalidSigTypesError e) = Some e"
| "Unwrap (BelowPrunedThresholdError e) = Some e"
| "Unwrap (InvalidSignerIdxError e) = Some e"
| "Unwrap (DuplicatedSignerIdxError e) = Some e"
| "Unwrap (Msig_InvalidSignatureIncludedError e) = Some e"
| "Unwrap (Msig_InsufficientSignaturesError e) = Some e"
| "Unwrap _ = None"

lemma Unwrap_size: "Unwrap e = Some e' \<Longrightarrow> size e' < size e"
  by (cases e) auto

text \<open>
  The types \<open>InvalidSignatureIncludedError\<close> and \<open>InsufficientSignaturesError\<close> exist twice, in the
  packages \<open>model\<close> and \<open>module/signature\<close>; the latter's carry the prefix \<open>Msig\<close> here.
\<close>

text \<open>\<open>errors.Is\<close> and \<open>errors.As\<close>: does some error of the chain satisfy \<open>p\<close>?\<close>

function errors_As :: "(error \<Rightarrow> bool) \<Rightarrow> error \<Rightarrow> bool" where
  "errors_As p e = (p e \<or> (case Unwrap e of None \<Rightarrow> False | Some e' \<Rightarrow> errors_As p e'))"
  by pat_completeness auto
termination
  by (relation "measure (\<lambda>(p, e). size e)") (auto dest: Unwrap_size)

declare errors_As.simps [simp del]

definition IsNoVoteError :: "error \<Rightarrow> bool" where
  "IsNoVoteError = errors_As (\<lambda>e. case e of NoVoteError _ \<Rightarrow> True | _ \<Rightarrow> False)"

definition IsNoTimeoutError :: "error \<Rightarrow> bool" where
  "IsNoTimeoutError = errors_As (\<lambda>e. case e of NoTimeoutError _ \<Rightarrow> True | _ \<Rightarrow> False)"

definition IsInvalidFormatError :: "error \<Rightarrow> bool" where
  "IsInvalidFormatError = errors_As (\<lambda>e. case e of InvalidFormatError _ \<Rightarrow> True | _ \<Rightarrow> False)"

definition IsConfigurationError :: "error \<Rightarrow> bool" where
  "IsConfigurationError = errors_As (\<lambda>e. case e of ConfigurationError _ \<Rightarrow> True | _ \<Rightarrow> False)"

definition IsMissingBlockError :: "error \<Rightarrow> bool" where
  "IsMissingBlockError = errors_As (\<lambda>e. case e of MissingBlockError _ _ \<Rightarrow> True | _ \<Rightarrow> False)"

definition IsInvalidQCError :: "error \<Rightarrow> bool" where
  "IsInvalidQCError = errors_As (\<lambda>e. case e of InvalidQCError _ _ _ \<Rightarrow> True | _ \<Rightarrow> False)"

definition IsInvalidTCError :: "error \<Rightarrow> bool" where
  "IsInvalidTCError = errors_As (\<lambda>e. case e of InvalidTCError _ _ \<Rightarrow> True | _ \<Rightarrow> False)"

definition IsInvalidBlockError :: "error \<Rightarrow> bool" where
  "IsInvalidBlockError = errors_As (\<lambda>e. case e of InvalidBlockError _ _ _ \<Rightarrow> True | _ \<Rightarrow> False)"

definition IsInvalidVoteError :: "error \<Rightarrow> bool" where
  "IsInvalidVoteError = errors_As (\<lambda>e. case e of InvalidVoteError _ _ \<Rightarrow> True | _ \<Rightarrow> False)"

definition IsByzantineThresholdExceededError :: "error \<Rightarrow> bool" where
  "IsByzantineThresholdExceededError = errors_As (\<lambda>e. e = ByzantineThresholdExceededError)"

definition IsDoubleVoteError :: "error \<Rightarrow> bool" where
  "IsDoubleVoteError = errors_As (\<lambda>e. case e of DoubleVoteError _ _ _ \<Rightarrow> True | _ \<Rightarrow> False)"

definition IsDuplicatedSignerError :: "error \<Rightarrow> bool" where
  "IsDuplicatedSignerError = errors_As (\<lambda>e. case e of DuplicatedSignerError _ \<Rightarrow> True | _ \<Rightarrow> False)"

definition IsInvalidSignatureIncludedError :: "error \<Rightarrow> bool" where
  "IsInvalidSignatureIncludedError =
     errors_As (\<lambda>e. case e of InvalidSignatureIncludedError _ \<Rightarrow> True | _ \<Rightarrow> False)"

definition IsInsufficientSignaturesError :: "error \<Rightarrow> bool" where
  "IsInsufficientSignaturesError =
     errors_As (\<lambda>e. case e of InsufficientSignaturesError _ \<Rightarrow> True | _ \<Rightarrow> False)"

definition IsInvalidSignerError :: "error \<Rightarrow> bool" where
  "IsInvalidSignerError = errors_As (\<lambda>e. case e of InvalidSignerError _ \<Rightarrow> True | _ \<Rightarrow> False)"

definition IsInvalidSignerIndicesError :: "error \<Rightarrow> bool" where
  "IsInvalidSignerIndicesError =
     errors_As (\<lambda>e. case e of InvalidSignerIndicesError _ \<Rightarrow> True | _ \<Rightarrow> False)"

definition IsInvalidVertexError :: "error \<Rightarrow> bool" where
  "IsInvalidVertexError = errors_As (\<lambda>e. case e of InvalidVertexError \<Rightarrow> True | _ \<Rightarrow> False)"

definition IsBelowPrunedThresholdError :: "error \<Rightarrow> bool" where
  "IsBelowPrunedThresholdError =
     errors_As (\<lambda>e. case e of BelowPrunedThresholdError _ \<Rightarrow> True | _ \<Rightarrow> False)"

definition IsDoubleTimeoutError :: "error \<Rightarrow> bool" where
  "IsDoubleTimeoutError =
     errors_As (\<lambda>e. case e of DoubleTimeoutError _ _ _ \<Rightarrow> True | _ \<Rightarrow> False)"

definition IsInvalidTimeoutError :: "error \<Rightarrow> bool" where
  "IsInvalidTimeoutError =
     errors_As (\<lambda>e. case e of InvalidTimeoutError _ _ \<Rightarrow> True | _ \<Rightarrow> False)"

definition IsInvalidAggregatedKeyError :: "error \<Rightarrow> bool" where
  "IsInvalidAggregatedKeyError =
     errors_As (\<lambda>e. case e of InvalidAggregatedKeyError _ \<Rightarrow> True | _ \<Rightarrow> False)"

definition IsInvalidSigTypesError :: "error \<Rightarrow> bool" where
  "IsInvalidSigTypesError =
     errors_As (\<lambda>e. case e of InvalidSigTypesError _ \<Rightarrow> True | _ \<Rightarrow> False)"

definition IsInvalidSignerIdxError :: "error \<Rightarrow> bool" where
  "IsInvalidSignerIdxError =
     errors_As (\<lambda>e. case e of InvalidSignerIdxError _ \<Rightarrow> True | _ \<Rightarrow> False)"

definition IsDuplicatedSignerIdxError :: "error \<Rightarrow> bool" where
  "IsDuplicatedSignerIdxError =
     errors_As (\<lambda>e. case e of DuplicatedSignerIdxError _ \<Rightarrow> True | _ \<Rightarrow> False)"

definition IsMsig_InvalidSignatureIncludedError :: "error \<Rightarrow> bool" where
  "IsMsig_InvalidSignatureIncludedError =
     errors_As (\<lambda>e. case e of Msig_InvalidSignatureIncludedError _ \<Rightarrow> True | _ \<Rightarrow> False)"

definition IsMsig_InsufficientSignaturesError :: "error \<Rightarrow> bool" where
  "IsMsig_InsufficientSignaturesError =
     errors_As (\<lambda>e. case e of Msig_InsufficientSignaturesError _ \<Rightarrow> True | _ \<Rightarrow> False)"

definition IsInvalidViewError :: "error \<Rightarrow> bool" where
  "IsInvalidViewError =
     errors_As (\<lambda>e. case e of InvalidViewError _ _ _ \<Rightarrow> True | _ \<Rightarrow> False)"

lemmas error_kind_defs =
  IsInvalidViewError_def
  IsNoVoteError_def IsNoTimeoutError_def IsInvalidFormatError_def IsConfigurationError_def
  IsMissingBlockError_def IsInvalidQCError_def IsInvalidTCError_def IsInvalidBlockError_def
  IsInvalidVoteError_def IsByzantineThresholdExceededError_def IsDoubleVoteError_def
  IsDuplicatedSignerError_def IsInvalidSignatureIncludedError_def
  IsInsufficientSignaturesError_def IsInvalidSignerError_def IsInvalidSignerIndicesError_def
  IsInvalidVertexError_def IsBelowPrunedThresholdError_def
  IsDoubleTimeoutError_def IsInvalidTimeoutError_def IsInvalidAggregatedKeyError_def
  IsInvalidSigTypesError_def IsInvalidSignerIdxError_def IsDuplicatedSignerIdxError_def
  IsMsig_InvalidSignatureIncludedError_def IsMsig_InsufficientSignaturesError_def

text \<open>The chain of an error, unfolded constructor by constructor.\<close>

lemma errors_As_unfold [simp]:
  "errors_As p Panic = p Panic"
  "errors_As p Errorf = p Errorf"
  "errors_As p (Wrapf e) = (p (Wrapf e) \<or> errors_As p e)"
  "errors_As p ErrInvalidSignature = p ErrInvalidSignature"
  "errors_As p ErrViewForUnknownEpoch = p ErrViewForUnknownEpoch"
  "errors_As p ErrPrunedAncestry = p ErrPrunedAncestry"
  "errors_As p ErrIncompatibleBitVectorLength = p ErrIncompatibleBitVectorLength"
  "errors_As p ErrIllegallyPaddedBitVector = p ErrIllegallyPaddedBitVector"
  "errors_As p ErrInvalidChecksum = p ErrInvalidChecksum"
  "errors_As p (NoVoteError e) = (p (NoVoteError e) \<or> errors_As p e)"
  "errors_As p (NoTimeoutError e) = (p (NoTimeoutError e) \<or> errors_As p e)"
  "errors_As p (InvalidFormatError e) = (p (InvalidFormatError e) \<or> errors_As p e)"
  "errors_As p (ConfigurationError e) = (p (ConfigurationError e) \<or> errors_As p e)"
  "errors_As p (MissingBlockError v i) = p (MissingBlockError v i)"
  "errors_As p (InvalidQCError i v e) = (p (InvalidQCError i v e) \<or> errors_As p e)"
  "errors_As p (InvalidTCError v e) = (p (InvalidTCError v e) \<or> errors_As p e)"
  "errors_As p (InvalidBlockError i v e) = (p (InvalidBlockError i v e) \<or> errors_As p e)"
  "errors_As p (InvalidVoteError w e) = (p (InvalidVoteError w e) \<or> errors_As p e)"
  "errors_As p ByzantineThresholdExceededError = p ByzantineThresholdExceededError"
  "errors_As p (DoubleVoteError w x e) = (p (DoubleVoteError w x e) \<or> errors_As p e)"
  "errors_As p (DuplicatedSignerError e) = (p (DuplicatedSignerError e) \<or> errors_As p e)"
  "errors_As p (InvalidSignerError e) = (p (InvalidSignerError e) \<or> errors_As p e)"
  "errors_As p (InvalidSignerIndicesError e) = (p (InvalidSignerIndicesError e) \<or> errors_As p e)"
  "errors_As p InvalidVertexError = p InvalidVertexError"
  "errors_As p (BelowPrunedThresholdError e) = (p (BelowPrunedThresholdError e) \<or> errors_As p e)"
  "errors_As p (InvalidViewError v first final) = p (InvalidViewError v first final)"
  "errors_As p (IdentityNotFoundError i) = p (IdentityNotFoundError i)"
  "errors_As p BLSAggregateEmptyListError = p BLSAggregateEmptyListError"
  "errors_As p Badger_ErrKeyNotFound = p Badger_ErrKeyNotFound"
  "errors_As p Badger_ErrConflict = p Badger_ErrConflict"
  "errors_As p Storage_ErrNotFound = p Storage_ErrNotFound"
  "errors_As p Storage_ErrAlreadyExists = p Storage_ErrAlreadyExists"
  "errors_As p ErrUnverifiableBlock = p ErrUnverifiableBlock"
  "errors_As p ErrNoBeaconKeyForEpoch = p ErrNoBeaconKeyForEpoch"
  "errors_As p ErrInvalidSignatureFormat = p ErrInvalidSignatureFormat"
  "errors_As p ErrInsufficientShares = p ErrInsufficientShares"
  "errors_As p ErrIdentityPublicKey = p ErrIdentityPublicKey"
  "errors_As p ErrDifferentCollectorState = p ErrDifferentCollectorState"
  "errors_As p RepeatedVoteErr = p RepeatedVoteErr"
  "errors_As p VoteForIncompatibleViewError = p VoteForIncompatibleViewError"
  "errors_As p VoteForIncompatibleBlockError = p VoteForIncompatibleBlockError"
  "errors_As p ErrRepeatedTimeout = p ErrRepeatedTimeout"
  "errors_As p ErrTimeoutForIncompatibleView = p ErrTimeoutForIncompatibleView"
  "errors_As p (InvalidSignerIdxError e) = (p (InvalidSignerIdxError e) \<or> errors_As p e)"
  "errors_As p (DuplicatedSignerIdxError e) = (p (DuplicatedSignerIdxError e) \<or> errors_As p e)"
  "errors_As p (Msig_InvalidSignatureIncludedError e) = (p (Msig_InvalidSignatureIncludedError e) \<or> errors_As p e)"
  "errors_As p (Msig_InsufficientSignaturesError e) = (p (Msig_InsufficientSignaturesError e) \<or> errors_As p e)"
  "errors_As p (DoubleTimeoutError t u e) = (p (DoubleTimeoutError t u e) \<or> errors_As p e)"
  "errors_As p (InvalidTimeoutError t e) = (p (InvalidTimeoutError t e) \<or> errors_As p e)"
  "errors_As p (InvalidSignatureIncludedError e) = (p (InvalidSignatureIncludedError e) \<or> errors_As p e)"
  "errors_As p (InvalidAggregatedKeyError e) = (p (InvalidAggregatedKeyError e) \<or> errors_As p e)"
  "errors_As p (InsufficientSignaturesError e) = (p (InsufficientSignaturesError e) \<or> errors_As p e)"
  "errors_As p (InvalidSigTypesError e) = (p (InvalidSigTypesError e) \<or> errors_As p e)"
  by (simp_all add: errors_As.simps [of p "_ :: error"] errors_As.simps)

text \<open>
  What a caller makes of the error of a call: \<open>fmt.Errorf("...: %w", err)\<close> keeps the chain,
  \<open>fmt.Errorf("... %s", err.Error())\<close> drops it. A panic is not an error value the caller sees: it
  unwinds past the caller unchanged.
\<close>

definition wrapf :: "error \<Rightarrow> error" where
  "wrapf e = (if e = Panic then Panic else Wrapf e)"

definition plainf :: "error \<Rightarrow> error" where
  "plainf e = (if e = Panic then Panic else Errorf)"

section \<open>Conversions between headers, blocks and proposals\<close>

text \<open>
  \<open>headerID\<close> stands for \<open>Header.ID\<close>, the SHA3 hash of the canonical encoding of the
  header; everything below is parametric in it.
\<close>

definition Header_QuorumCertificate :: "Header \<Rightarrow> QuorumCertificate" where
  "Header_QuorumCertificate h =
     \<lparr>QC_View = H_ParentView h, QC_BlockID = H_ParentID h,
      QC_SignerIndices = H_ParentVoterIndices h, QC_SigData = H_ParentVoterSigData h\<rparr>"

definition BlockFromFlow :: "(Header \<Rightarrow> Identifier) \<Rightarrow> Header \<Rightarrow> Block" where
  "BlockFromFlow headerID h =
     \<lparr>B_View = H_View h, B_BlockID = headerID h, B_ProposerID = H_ProposerID h,
      B_QC = Some (Header_QuorumCertificate h), B_PayloadHash = H_PayloadHash h,
      B_Timestamp = H_Timestamp h\<rparr>"

definition GenesisBlockFromFlow :: "(Header \<Rightarrow> Identifier) \<Rightarrow> Header \<Rightarrow> Block" where
  "GenesisBlockFromFlow headerID h =
     \<lparr>B_View = H_View h, B_BlockID = headerID h, B_ProposerID = H_ProposerID h,
      B_QC = None, B_PayloadHash = H_PayloadHash h, B_Timestamp = H_Timestamp h\<rparr>"

definition ProposalFromFlow :: "(Header \<Rightarrow> Identifier) \<Rightarrow> Header \<Rightarrow> Proposal" where
  "ProposalFromFlow headerID h =
     \<lparr>P_Block = BlockFromFlow headerID h, P_SigData = H_ProposerSigData h,
      P_LastViewTC = H_LastViewTC h\<rparr>"

text \<open>The fields \<open>ProposalToFlow\<close> does not set are Go's zero values.\<close>

definition ProposalToFlow :: "Proposal \<Rightarrow> Header result" where
  "ProposalToFlow p =
     (let b = P_Block p in
      case B_QC b of
        None \<Rightarrow> Inl Panic
      | Some qc \<Rightarrow> Inr \<lparr>H_ChainID = '''', H_ParentID = QC_BlockID qc, H_Height = 0,
          H_PayloadHash = B_PayloadHash b, H_Timestamp = B_Timestamp b, H_View = B_View b,
          H_ParentView = QC_View qc, H_ParentVoterIndices = QC_SignerIndices qc,
          H_ParentVoterSigData = QC_SigData qc, H_ProposerID = B_ProposerID b,
          H_ProposerSigData = P_SigData p, H_LastViewTC = P_LastViewTC p\<rparr>)"

definition ProposerVote :: "Proposal \<Rightarrow> Vote" where
  "ProposerVote p =
     \<lparr>V_View = B_View (P_Block p), V_BlockID = B_BlockID (P_Block p),
      V_SignerID = B_ProposerID (P_Block p), V_SigData = P_SigData p\<rparr>"

definition VoteFromFlow :: "Identifier \<Rightarrow> Identifier \<Rightarrow> uint64 \<Rightarrow> bytes \<Rightarrow> Vote" where
  "VoteFromFlow signerID blockID view sig =
     \<lparr>V_View = view, V_BlockID = blockID, V_SignerID = signerID, V_SigData = sig\<rparr>"

text \<open>The view of a certificate that may be missing, for stating properties.\<close>

definition qcView :: "QuorumCertificate option \<Rightarrow> uint64" where
  "qcView qc = (case qc of None \<Rightarrow> 0 | Some q \<Rightarrow> QC_View q)"

section \<open>Example data\<close>

text \<open>Values at which the properties of the other theories are evaluated.\<close>

definition exampleQC :: "uint64 \<Rightarrow> Identifier \<Rightarrow> QuorumCertificate" where
  "exampleQC v i = \<lparr>QC_View = v, QC_BlockID = i, QC_SignerIndices = [], QC_SigData = []\<rparr>"

definition exampleQC' :: "uint64 \<Rightarrow> Identifier \<Rightarrow> QuorumCertificate" where
  "exampleQC' v i = \<lparr>QC_View = v, QC_BlockID = i, QC_SignerIndices = [7], QC_SigData = [9]\<rparr>"

definition exampleBlock :: "uint64 \<Rightarrow> Identifier \<Rightarrow> QuorumCertificate option \<Rightarrow> Block" where
  "exampleBlock v i qc = \<lparr>B_View = v, B_BlockID = i, B_ProposerID = 2, B_QC = qc, B_PayloadHash = 0,
     B_Timestamp = 0\<rparr>"

definition exampleProposal :: "uint64 \<Rightarrow> Identifier \<Rightarrow> QuorumCertificate option \<Rightarrow> Proposal" where
  "exampleProposal v i qc =
     \<lparr>P_Block = exampleBlock v i qc, P_SigData = [], P_LastViewTC = None\<rparr>"

definition exampleTC :: "uint64 \<Rightarrow> QuorumCertificate \<Rightarrow> TimeoutCertificate" where
  "exampleTC v qc =
     \<lparr>TC_View = v, TC_NewestQCViews = [QC_View qc], TC_NewestQC = Some qc, TC_SignerIndices = [],
      TC_SigData = []\<rparr>"

end
