(* ===== verification/Levelled_Forest.thy ===== *)
theory Levelled_Forest
  imports HotStuff_Model
begin

text \<open>
  \<open>module/forest\<close>: the levelled forest, a pruned-from-below graph of vertices in which every
  vertex names one parent of smaller level.

  The Go code keeps one \<open>vertexContainer\<close> per vertex and shares pointers to it between the map
  \<open>vertices\<close>, the per-level lists and the \<open>children\<close> lists of other containers; filling an
  empty container is seen through all of them. The model keeps that sharing: \<open>lf_heap\<close> is the
  list of all containers ever allocated and a pointer is an index into it.

  A \<open>Vertex\<close> is an interface value. The model stores the answers of its three methods and the
  object behind it (\<open>Payload\<close>); \<open>Parent = None\<close> says that calling \<open>Parent()\<close> panics, which it
  does for the container of a genesis block, whose QC is nil.
\<close>

section \<open>Vertices, containers, the forest\<close>

record 'p vertex =
  VertexID :: Identifier
  Level :: uint64
  Parent :: "(Identifier \<times> uint64) option"
  Payload :: 'p

record 'p vertexContainer =
  c_id :: Identifier
  c_level :: uint64
  c_children :: "nat list"
  c_vertex :: "'p vertex option"

record 'p LevelledForest =
  lf_heap :: "'p vertexContainer list"
  lf_vertices :: "(Identifier, nat) gomap"
  lf_verticesAtLevel :: "(uint64, nat list) gomap"
  lf_size :: uint64
  LowestLevel :: uint64

definition NewLevelledForest :: "uint64 \<Rightarrow> 'p LevelledForest" where
  "NewLevelledForest lowestLevel =
     \<lparr>lf_heap = [], lf_vertices = [], lf_verticesAtLevel = [], lf_size = 0,
      LowestLevel = lowestLevel\<rparr>"

definition isEmptyContainer :: "'p vertexContainer \<Rightarrow> bool" where
  "isEmptyContainer c \<longleftrightarrow> c_vertex c = None"

text \<open>The value of \<open>f.verticesAtLevel[level]\<close>, nil for a level that is not stored.\<close>

definition levelList :: "(uint64, nat list) gomap \<Rightarrow> uint64 \<Rightarrow> nat list" where
  "levelList m l = (case map_of m l of None \<Rightarrow> [] | Some ps \<Rightarrow> ps)"

subsection \<open>Iterators\<close>

record 'p VertexIterator =
  it_data :: "nat list"
  it_idx :: nat
  it_next :: "'p vertex option"

function preLoad :: "'p vertexContainer list \<Rightarrow> 'p VertexIterator \<Rightarrow> 'p VertexIterator" where
  "preLoad hp it =
     (if it_idx it < length (it_data it)
      then (case c_vertex (hp ! (it_data it ! it_idx it)) of
              Some v \<Rightarrow> it\<lparr>it_idx := Suc (it_idx it), it_next := Some v\<rparr>
            | None \<Rightarrow> preLoad hp (it\<lparr>it_idx := Suc (it_idx it)\<rparr>))
      else it\<lparr>it_next := None\<rparr>)"
  by pat_completeness auto
termination
  by (relation "measure (\<lambda>(hp, it). length (it_data it) - it_idx it)") auto

declare preLoad.simps [simp del]

definition NextVertex ::
  "'p vertexContainer list \<Rightarrow> 'p VertexIterator \<Rightarrow> 'p vertex option \<times> 'p VertexIterator" where
  "NextVertex hp it = (it_next it, preLoad hp it)"

definition HasNext :: "'p VertexIterator \<Rightarrow> bool" where
  "HasNext it \<longleftrightarrow> it_next it \<noteq> None"

definition newVertexIterator :: "'p vertexContainer list \<Rightarrow> nat list \<Rightarrow> 'p VertexIterator" where
  "newVertexIterator hp vertexList =
     preLoad hp \<lparr>it_data = vertexList, it_idx = 0, it_next = None\<rparr>"

text \<open>
  The loop \<open>for it.HasNext() { v := it.NextVertex(); ... }\<close> visits the vertices of this list; the
  fuel is the number of containers that are left, plus one.
\<close>

fun drain :: "nat \<Rightarrow> 'p vertexContainer list \<Rightarrow> 'p VertexIterator \<Rightarrow> 'p vertex list" where
  "drain 0 hp it = []"
| "drain (Suc n) hp it =
     (if HasNext it
      then (case NextVertex hp it of (v, it') \<Rightarrow> the v # drain n hp it')
      else [])"

definition allVertices :: "'p vertexContainer list \<Rightarrow> 'p VertexIterator \<Rightarrow> 'p vertex list" where
  "allVertices hp it = drain (Suc (length (it_data it))) hp it"

subsection \<open>Reading the forest\<close>

definition HasVertex :: "'p LevelledForest \<Rightarrow> Identifier \<Rightarrow> bool" where
  "HasVertex f i =
     (case map_of (lf_vertices f) i of
        None \<Rightarrow> False
      | Some p \<Rightarrow> \<not> isEmptyContainer (lf_heap f ! p))"

definition GetVertex :: "'p LevelledForest \<Rightarrow> Identifier \<Rightarrow> 'p vertex option" where
  "GetVertex f i =
     (case map_of (lf_vertices f) i of
        None \<Rightarrow> None
      | Some p \<Rightarrow>
          if isEmptyContainer (lf_heap f ! p) then None else c_vertex (lf_heap f ! p))"

definition GetSize :: "'p LevelledForest \<Rightarrow> uint64" where
  "GetSize f = lf_size f"

definition GetChildren :: "'p LevelledForest \<Rightarrow> Identifier \<Rightarrow> 'p VertexIterator" where
  "GetChildren f i =
     (case map_of (lf_vertices f) i of
        Some p \<Rightarrow> newVertexIterator (lf_heap f) (c_children (lf_heap f ! p))
      | None \<Rightarrow> newVertexIterator (lf_heap f) [])"

text \<open>
  The map holds pointers, so the zero value read for an unknown vertex is nil and
  \<open>container.children\<close> dereferences it.
\<close>

definition GetNumberOfChildren :: "'p LevelledForest \<Rightarrow> Identifier \<Rightarrow> nat result" where
  "GetNumberOfChildren f i =
     (case map_of (lf_vertices f) i of
        None \<Rightarrow> Inl Panic
      | Some p \<Rightarrow>
          Inr (length (filter (\<lambda>q. c_vertex (lf_heap f ! q) \<noteq> None) (c_children (lf_heap f ! p)))))"

definition GetVerticesAtLevel :: "'p LevelledForest \<Rightarrow> uint64 \<Rightarrow> 'p VertexIterator" where
  "GetVerticesAtLevel f l = newVertexIterator (lf_heap f) (levelList (lf_verticesAtLevel f) l)"

definition GetNumberOfVerticesAtLevel :: "'p LevelledForest \<Rightarrow> uint64 \<Rightarrow> nat" where
  "GetNumberOfVerticesAtLevel f l =
     length (filter (\<lambda>p. \<not> isEmptyContainer (lf_heap f ! p)) (levelList (lf_verticesAtLevel f) l))"

subsection \<open>Adding a vertex\<close>

definition getOrCreateVertexContainer ::
  "Identifier \<Rightarrow> uint64 \<Rightarrow> 'p LevelledForest \<Rightarrow> nat \<times> 'p LevelledForest" where
  "getOrCreateVertexContainer i level f =
     (case map_of (lf_vertices f) i of
        Some p \<Rightarrow> (p, f)
      | None \<Rightarrow>
          let p = length (lf_heap f) in
          (p, f\<lparr>lf_heap := lf_heap f @ [\<lparr>c_id = i, c_level = level, c_children = [], c_vertex = None\<rparr>],
               lf_vertices := AList.update i p (lf_vertices f),
               lf_verticesAtLevel :=
                 AList.update level (levelList (lf_verticesAtLevel f) level @ [p])
                   (lf_verticesAtLevel f)\<rparr>))"

definition registerWithParent :: "nat \<Rightarrow> 'p LevelledForest \<Rightarrow> 'p LevelledForest result" where
  "registerWithParent p f =
     (let c = lf_heap f ! p in
      if c_level c \<le> LowestLevel f then Inr f
      else case Option.bind (c_vertex c) Parent of
        None \<Rightarrow> Inl Panic
      | Some (parentID, parentView) \<Rightarrow>
          if parentView < LowestLevel f then Inr f
          else (case getOrCreateVertexContainer parentID parentView f of
                  (q, f') \<Rightarrow>
                    let pc = lf_heap f' ! q in
                    Inr (f'\<lparr>lf_heap := (lf_heap f')[q := pc\<lparr>c_children := c_children pc @ [p]\<rparr>]\<rparr>)))"

definition AddVertex :: "'p vertex \<Rightarrow> 'p LevelledForest \<Rightarrow> 'p LevelledForest result" where
  "AddVertex v f =
     (if Level v < LowestLevel f then Inr f
      else (case getOrCreateVertexContainer (VertexID v) (Level v) f of
              (p, f1) \<Rightarrow>
                if \<not> isEmptyContainer (lf_heap f1 ! p) then Inr f1
                else
                  (case registerWithParent p
                          (f1\<lparr>lf_heap := (lf_heap f1)[p := (lf_heap f1 ! p)\<lparr>c_vertex := Some v\<rparr>]\<rparr>) of
                     Inl e \<Rightarrow> Inl e
                   | Inr f2 \<Rightarrow> Inr (f2\<lparr>lf_size := lf_size f2 + 1\<rparr>))))"

subsection \<open>Checking a vertex before adding it\<close>

definition ensureConsistentParent :: "'p LevelledForest \<Rightarrow> 'p vertex \<Rightarrow> unit result" where
  "ensureConsistentParent f v =
     (if Level v \<le> LowestLevel f then Inr ()
      else case Parent v of
        None \<Rightarrow> Inl Panic
      | Some (parentID, parentLevel) \<Rightarrow>
          if \<not> (Level v > parentLevel) then Inl InvalidVertexError
          else (case GetVertex f parentID of
                  None \<Rightarrow> Inr ()
                | Some storedParent \<Rightarrow>
                    if Level storedParent \<noteq> parentLevel then Inl InvalidVertexError else Inr ()))"

definition VerifyVertex :: "'p LevelledForest \<Rightarrow> 'p vertex \<Rightarrow> unit result" where
  "VerifyVertex f v =
     (if Level v < LowestLevel f then Inr ()
      else case map_of (lf_vertices f) (VertexID v) of
        None \<Rightarrow> ensureConsistentParent f v
      | Some p \<Rightarrow>
          let stored = lf_heap f ! p in
          if Level v \<noteq> c_level stored then Inl InvalidVertexError
          else (case c_vertex stored of
                  None \<Rightarrow> ensureConsistentParent f v
                | Some w \<Rightarrow>
                    if Level v = LowestLevel f then Inr ()
                    else (case (Parent v, Parent w) of
                            (Some (newParentId, newParentLevel), Some (storedParentId, storedParentLevel)) \<Rightarrow>
                              if newParentId \<noteq> storedParentId then Inl InvalidVertexError
                              else if newParentLevel \<noteq> storedParentLevel then Inl InvalidVertexError
                              else Inr ()
                          | _ \<Rightarrow> Inl Panic)))"

subsection \<open>Pruning\<close>

text \<open>
  The state of the pruning loops is \<open>(f.vertices, f.verticesAtLevel, elementsPruned)\<close>.
  \<open>pruneVertices\<close> is the loop over the containers of one level.
\<close>

fun pruneVertices ::
  "'p vertexContainer list \<Rightarrow> nat list \<Rightarrow> (Identifier, nat) gomap \<Rightarrow> nat \<Rightarrow> (Identifier, nat) gomap \<times> nat"
where
  "pruneVertices hp [] vs n = (vs, n)"
| "pruneVertices hp (p # ps) vs n =
     pruneVertices hp ps (AList.delete (c_id (hp ! p)) vs)
       (if isEmptyContainer (hp ! p) then n else Suc n)"

type_synonym pruneState = "(Identifier, nat) gomap \<times> (uint64, nat list) gomap \<times> nat"

text \<open>The loop \<open>for l, vertices := range f.verticesAtLevel\<close>.\<close>

fun pruneByMap ::
  "'p vertexContainer list \<Rightarrow> uint64 \<Rightarrow> (uint64, nat list) gomap \<Rightarrow> pruneState \<Rightarrow> pruneState"
where
  "pruneByMap hp level [] st = st"
| "pruneByMap hp level ((l, ps) # rest) (vs, vl, n) =
     (if l < level
      then (case pruneVertices hp ps vs n of
              (vs', n') \<Rightarrow> pruneByMap hp level rest (vs', AList.delete l vl, n'))
      else pruneByMap hp level rest (vs, vl, n))"

text \<open>The loop \<open>for l := f.LowestLevel; l < level; l++\<close>.\<close>

function pruneByLevel ::
  "'p vertexContainer list \<Rightarrow> uint64 \<Rightarrow> uint64 \<Rightarrow> pruneState \<Rightarrow> pruneState" where
  "pruneByLevel hp l level (vs, vl, n) =
     (if l < level
      then (case pruneVertices hp (levelList vl l) vs n of
              (vs', n') \<Rightarrow> pruneByLevel hp (l + 1) level (vs', AList.delete l vl, n'))
      else (vs, vl, n))"
  by pat_completeness auto
termination
proof (relation "measure (\<lambda>(hp, l, level, st). unat level - unat l)", goal_cases)
  case (2 hp l level vs vl n x y)
  then have "unat (l + 1) = unat l + 1" by (simp add: word_add_one_unat)
  with 2 show ?case by (simp add: word_less_nat_alt)
qed simp

declare pruneByLevel.simps [simp del]

definition PruneUpToLevel :: "uint64 \<Rightarrow> 'p LevelledForest \<Rightarrow> 'p LevelledForest result" where
  "PruneUpToLevel level f =
     (if level < LowestLevel f then Inl (BelowPrunedThresholdError Errorf)
      else if length (lf_vertices f) = 0 then Inr (f\<lparr>LowestLevel := level\<rparr>)
      else
        (case (if of_nat (length (lf_verticesAtLevel f)) < level - LowestLevel f
               then pruneByMap (lf_heap f) level (lf_verticesAtLevel f)
                      (lf_vertices f, lf_verticesAtLevel f, 0)
               else pruneByLevel (lf_heap f) (LowestLevel f) level
                      (lf_vertices f, lf_verticesAtLevel f, 0)) of
           (vs, vl, n) \<Rightarrow>
             Inr (f\<lparr>lf_vertices := vs, lf_verticesAtLevel := vl, LowestLevel := level,
                   lf_size := lf_size f - of_nat n\<rparr>)))"

section \<open>Iterators visit exactly the full containers\<close>

lemma preLoad_data [simp]: "it_data (preLoad hp it) = it_data it"
  by (induction hp it rule: preLoad.induct) (subst preLoad.simps, simp split: option.splits)

lemma preLoad_Nil:
  "List.map_filter (\<lambda>p. c_vertex (hp ! p)) (drop (it_idx it) (it_data it)) = [] \<Longrightarrow>
   it_next (preLoad hp it) = None"
proof (induction hp it rule: preLoad.induct)
  case (1 hp it)
  then show ?case
    by (subst preLoad.simps)
       (auto simp: Cons_nth_drop_Suc [symmetric] map_filter_simps split: option.splits)
qed

lemma preLoad_Cons:
  "List.map_filter (\<lambda>p. c_vertex (hp ! p)) (drop (it_idx it) (it_data it)) = v # vs \<Longrightarrow>
   it_next (preLoad hp it) = Some v \<and> it_idx it < it_idx (preLoad hp it)
   \<and> it_idx (preLoad hp it) \<le> length (it_data it)
   \<and> List.map_filter (\<lambda>p. c_vertex (hp ! p)) (drop (it_idx (preLoad hp it)) (it_data it)) = vs"
proof (induction hp it rule: preLoad.induct)
  case (1 hp it)
  from "1.prems" have lt: "it_idx it < length (it_data it)"
    by (rule_tac ccontr) (simp add: map_filter_simps)
  then have d: "drop (it_idx it) (it_data it)
      = it_data it ! it_idx it # drop (Suc (it_idx it)) (it_data it)"
    by (simp add: Cons_nth_drop_Suc)
  show ?case
  proof (cases "c_vertex (hp ! (it_data it ! it_idx it))")
    case None
    then have eq: "preLoad hp it = preLoad hp (it\<lparr>it_idx := Suc (it_idx it)\<rparr>)"
      using lt by (subst preLoad.simps) simp
    show ?thesis
      using "1.IH" [OF lt None] "1.prems" None d by (simp add: eq map_filter_simps Suc_lessD)
  next
    case (Some w)
    then have eq: "preLoad hp it = it\<lparr>it_idx := Suc (it_idx it), it_next := Some w\<rparr>"
      using lt by (subst preLoad.simps) simp
    show ?thesis using "1.prems" Some d lt by (simp add: eq map_filter_simps)
  qed
qed

lemma drain_eq:
  assumes "it_idx it \<le> length (it_data it)" and "length (it_data it) - it_idx it < n"
  shows "drain n hp (preLoad hp it)
       = List.map_filter (\<lambda>p. c_vertex (hp ! p)) (drop (it_idx it) (it_data it))"
  using assms
proof (induction n arbitrary: it)
  case 0
  then show ?case by simp
next
  case (Suc n)
  let ?it = "preLoad hp it"
  show ?case
  proof (cases "List.map_filter (\<lambda>p. c_vertex (hp ! p)) (drop (it_idx it) (it_data it))")
    case Nil
    then show ?thesis by (simp add: HasNext_def preLoad_Nil)
  next
    case (Cons v vs)
    from preLoad_Cons [OF this] have n: "it_next ?it = Some v" "it_idx it < it_idx ?it"
      "it_idx ?it \<le> length (it_data it)"
      and vs: "List.map_filter (\<lambda>p. c_vertex (hp ! p)) (drop (it_idx ?it) (it_data it)) = vs"
      by auto
    have "drain n hp (preLoad hp ?it) = vs"
      using Suc.IH [of ?it] n vs Suc.prems by simp
    with n Cons show ?thesis by (simp add: HasNext_def NextVertex_def)
  qed
qed

text \<open>A loop over a fresh iterator sees the full containers of the list, in its order.\<close>

lemma allVertices_newVertexIterator [simp]:
  "allVertices hp (newVertexIterator hp ps) = List.map_filter (\<lambda>p. c_vertex (hp ! p)) ps"
proof -
  let ?it = "\<lparr>it_data = ps, it_idx = 0, it_next = None\<rparr>"
  show ?thesis
    using drain_eq [of ?it "Suc (length ps)" hp]
    by (simp add: allVertices_def newVertexIterator_def)
qed

lemma set_map_filter: "set (List.map_filter g xs) = {y. \<exists>x\<in>set xs. g x = Some y}"
  by (induction xs) (auto simp: map_filter_simps split: option.splits)

section \<open>The forest invariant\<close>

text \<open>
  \<open>inv_core X\<close> relates the map, the level lists and the children lists; the containers in \<open>X\<close>
  hold a vertex that is not registered with its parent yet (the state between the two halves of
  \<open>AddVertex\<close>). \<open>childrenOf\<close> is what a children list has to hold.
\<close>

definition childrenOf :: "nat set \<Rightarrow> 'p LevelledForest \<Rightarrow> Identifier \<Rightarrow> uint64 \<Rightarrow> nat set" where
  "childrenOf X f i l =
     {q. q \<notin> X \<and> (\<exists>j w. map_of (lf_vertices f) j = Some q \<and> c_vertex (lf_heap f ! q) = Some w
            \<and> Parent w = Some (i, l) \<and> LowestLevel f < Level w)}"

definition containers_inv :: "'p LevelledForest \<Rightarrow> bool" where
  "containers_inv f \<longleftrightarrow>
     (\<forall>i p. map_of (lf_vertices f) i = Some p \<longrightarrow>
        p < length (lf_heap f) \<and> c_id (lf_heap f ! p) = i
        \<and> LowestLevel f \<le> c_level (lf_heap f ! p)
        \<and> p \<in> set (levelList (lf_verticesAtLevel f) (c_level (lf_heap f ! p)))
        \<and> (\<forall>v. c_vertex (lf_heap f ! p) = Some v \<longrightarrow>
              VertexID v = i \<and> Level v = c_level (lf_heap f ! p)))"

definition levels_inv :: "'p LevelledForest \<Rightarrow> bool" where
  "levels_inv f \<longleftrightarrow>
     (\<forall>l. distinct (levelList (lf_verticesAtLevel f) l)
        \<and> (\<forall>p\<in>set (levelList (lf_verticesAtLevel f) l).
              p < length (lf_heap f) \<and> c_level (lf_heap f ! p) = l
              \<and> map_of (lf_vertices f) (c_id (lf_heap f ! p)) = Some p))"

definition children_inv :: "nat set \<Rightarrow> 'p LevelledForest \<Rightarrow> bool" where
  "children_inv X f \<longleftrightarrow>
     (\<forall>i p. map_of (lf_vertices f) i = Some p \<longrightarrow>
        distinct (c_children (lf_heap f ! p))
        \<and> set (c_children (lf_heap f ! p)) = childrenOf X f i (c_level (lf_heap f ! p)))"

definition parents_inv :: "nat set \<Rightarrow> 'p LevelledForest \<Rightarrow> bool" where
  "parents_inv X f \<longleftrightarrow>
     (\<forall>i p v. map_of (lf_vertices f) i = Some p \<and> p \<notin> X \<and> c_vertex (lf_heap f ! p) = Some v
          \<and> LowestLevel f < Level v \<longrightarrow>
        (\<exists>pid pl. Parent v = Some (pid, pl) \<and> pl < Level v
           \<and> (LowestLevel f \<le> pl \<longrightarrow>
                (\<exists>q. map_of (lf_vertices f) pid = Some q \<and> c_level (lf_heap f ! q) = pl))))"

definition keys_inv :: "'p LevelledForest \<Rightarrow> bool" where
  "keys_inv f \<longleftrightarrow>
     distinct (map fst (lf_vertices f)) \<and> distinct (map fst (lf_verticesAtLevel f))"

definition inv_core :: "nat set \<Rightarrow> 'p LevelledForest \<Rightarrow> bool" where
  "inv_core X f \<longleftrightarrow>
     keys_inv f \<and> containers_inv f \<and> levels_inv f \<and> children_inv X f \<and> parents_inv X f"

definition fullIDs :: "'p vertexContainer list \<Rightarrow> (Identifier, nat) gomap \<Rightarrow> Identifier set" where
  "fullIDs hp vs = {i. \<exists>p. map_of vs i = Some p \<and> c_vertex (hp ! p) \<noteq> None}"

definition forest_inv :: "'p LevelledForest \<Rightarrow> bool" where
  "forest_inv f \<longleftrightarrow>
     inv_core {} f \<and> lf_size f = of_nat (card (fullIDs (lf_heap f) (lf_vertices f)))"

text \<open>
  Conditions 2 and 3 of the comment on \<open>VerifyVertex\<close>, as they are stated there, for a parent
  that is not pruned: the vertex does not name itself as its parent, and a container for the
  parent, full or merely referenced, has the level that the vertex reports for its parent.
  \<open>VerifyVertex\<close> checks the level of full containers only.
\<close>

definition parentLevelConsistent :: "'p LevelledForest \<Rightarrow> 'p vertex \<Rightarrow> bool" where
  "parentLevelConsistent f v \<longleftrightarrow>
     (LowestLevel f < Level v \<longrightarrow>
       (case Parent v of
          None \<Rightarrow> True
        | Some (pid, pl) \<Rightarrow>
            LowestLevel f \<le> pl \<longrightarrow>
              pid \<noteq> VertexID v
              \<and> (case map_of (lf_vertices f) pid of
                   None \<Rightarrow> True
                 | Some q \<Rightarrow> c_level (lf_heap f ! q) = pl)))"

lemma levelList_update:
  "levelList (AList.update l ps m) l' = (if l' = l then ps else levelList m l')"
  by (simp add: levelList_def update_conv')

lemma levelList_delete:
  "levelList (AList.delete l m) l' = (if l' = l then [] else levelList m l')"
  by (simp add: levelList_def delete_conv')

lemma forest_inv_new: "forest_inv (NewLevelledForest l)"
  by (simp add: forest_inv_def inv_core_def keys_inv_def containers_inv_def levels_inv_def
      children_inv_def parents_inv_def NewLevelledForest_def fullIDs_def levelList_def)

lemma finite_fullIDs [simp]: "finite (fullIDs hp vs)"
proof (rule finite_subset)
  show "fullIDs hp vs \<subseteq> dom (map_of vs)" by (auto simp: fullIDs_def)
qed (rule finite_dom_map_of)

lemma GetVertex_Some_iff:
  "GetVertex f i = Some v \<longleftrightarrow>
     (\<exists>p. map_of (lf_vertices f) i = Some p \<and> c_vertex (lf_heap f ! p) = Some v)"
  by (auto simp: GetVertex_def isEmptyContainer_def split: option.splits)

lemma GetVertex_None_iff:
  "GetVertex f i = None \<longleftrightarrow>
     (\<forall>p. map_of (lf_vertices f) i = Some p \<longrightarrow> c_vertex (lf_heap f ! p) = None)"
  by (auto simp: GetVertex_def isEmptyContainer_def split: option.splits)

lemma fullIDs_GetVertex: "fullIDs (lf_heap f) (lf_vertices f) = {i. GetVertex f i \<noteq> None}"
  by (auto simp: fullIDs_def GetVertex_def isEmptyContainer_def split: option.splits)

lemma containers_invD:
  assumes "containers_inv f" and "map_of (lf_vertices f) i = Some p"
  shows "p < length (lf_heap f)" and "c_id (lf_heap f ! p) = i"
    and "LowestLevel f \<le> c_level (lf_heap f ! p)"
    and "p \<in> set (levelList (lf_verticesAtLevel f) (c_level (lf_heap f ! p)))"
    and "c_vertex (lf_heap f ! p) = Some v \<Longrightarrow> VertexID v = i \<and> Level v = c_level (lf_heap f ! p)"
  using assms by (auto simp: containers_inv_def)

lemma containers_inj:
  assumes "containers_inv f"
    and "map_of (lf_vertices f) i = Some p" and "map_of (lf_vertices f) j = Some p"
  shows "i = j"
  using containers_invD(2) [OF assms(1)] assms(2,3) by metis

section \<open>Adding a vertex keeps the invariant\<close>

definition newContainer :: "Identifier \<Rightarrow> uint64 \<Rightarrow> 'p LevelledForest \<Rightarrow> 'p LevelledForest" where
  "newContainer i level f =
     f\<lparr>lf_heap := lf_heap f @ [\<lparr>c_id = i, c_level = level, c_children = [], c_vertex = None\<rparr>],
       lf_vertices := AList.update i (length (lf_heap f)) (lf_vertices f),
       lf_verticesAtLevel :=
         AList.update level (levelList (lf_verticesAtLevel f) level @ [length (lf_heap f)])
           (lf_verticesAtLevel f)\<rparr>"

lemma getOrCreate_cases:
  "getOrCreateVertexContainer i level f =
     (case map_of (lf_vertices f) i of
        Some p \<Rightarrow> (p, f)
      | None \<Rightarrow> (length (lf_heap f), newContainer i level f))"
  by (simp add: getOrCreateVertexContainer_def newContainer_def Let_def split: option.splits)

lemma newContainer_simps [simp]:
  "LowestLevel (newContainer i level f) = LowestLevel f"
  "lf_size (newContainer i level f) = lf_size f"
  "map_of (lf_vertices (newContainer i level f)) = (map_of (lf_vertices f))(i \<mapsto> length (lf_heap f))"
  "lf_heap (newContainer i level f) =
     lf_heap f @ [\<lparr>c_id = i, c_level = level, c_children = [], c_vertex = None\<rparr>]"
  "levelList (lf_verticesAtLevel (newContainer i level f)) l =
     (if l = level then levelList (lf_verticesAtLevel f) l @ [length (lf_heap f)]
      else levelList (lf_verticesAtLevel f) l)"
  by (simp_all add: newContainer_def update_conv' levelList_update)

lemma newContainer_containers:
  assumes "containers_inv f" and "map_of (lf_vertices f) i = None" and "LowestLevel f \<le> level"
  shows "containers_inv (newContainer i level f)"
  using assms unfolding containers_inv_def by (auto simp: nth_append intro: less_SucI)

lemma newContainer_levels:
  assumes "levels_inv f" and "containers_inv f" and "map_of (lf_vertices f) i = None"
  shows "levels_inv (newContainer i level f)"
  using assms by (auto simp: levels_inv_def nth_append intro: less_SucI)

lemma newContainer_childrenOf:
  assumes "containers_inv f" and "map_of (lf_vertices f) i = None"
  shows "childrenOf X (newContainer i level f) j l = childrenOf X f j l"
proof -
  have "map_of (lf_vertices f) k = Some q \<Longrightarrow> q < length (lf_heap f)" for k q
    using assms(1) by (rule containers_invD)
  then show ?thesis
    using assms(2) by (force simp: childrenOf_def nth_append)
qed

lemma newContainer_inv:
  assumes inv: "inv_core X f" and new: "map_of (lf_vertices f) i = None"
    and low: "LowestLevel f \<le> level"
  shows "inv_core X (newContainer i level f)"
proof -
  from inv have k: "keys_inv f" and c: "containers_inv f" and l: "levels_inv f"
    and ch: "children_inv X f" and pa: "parents_inv X f" by (auto simp: inv_core_def)
  have lt: "map_of (lf_vertices f) j = Some q \<Longrightarrow> q < length (lf_heap f)" for j q
    using c by (rule containers_invD)
  have "keys_inv (newContainer i level f)"
    using k by (auto simp: keys_inv_def newContainer_def)
  moreover have "children_inv X (newContainer i level f)"
  proof -
    have "childrenOf X f i level = {}"
      using pa new low by (fastforce simp: childrenOf_def parents_inv_def)
    then show ?thesis
      using ch lt unfolding children_inv_def newContainer_childrenOf [OF c new]
      by (auto simp: nth_append)
  qed
  moreover have "parents_inv X (newContainer i level f)"
    unfolding parents_inv_def
  proof (intro allI impI, elim conjE)
    fix j p v
    assume p: "map_of (lf_vertices (newContainer i level f)) j = Some p" "p \<notin> X"
      "c_vertex (lf_heap (newContainer i level f) ! p) = Some v"
      "LowestLevel (newContainer i level f) < Level v"
    then have "j \<noteq> i" by (auto simp: nth_append)
    with p lt have "map_of (lf_vertices f) j = Some p" "c_vertex (lf_heap f ! p) = Some v"
      "LowestLevel f < Level v" by (auto simp: nth_append split: if_splits)
    with pa p(2) obtain pid pl where P: "Parent v = Some (pid, pl)" "pl < Level v"
      "LowestLevel f \<le> pl \<longrightarrow> (\<exists>q. map_of (lf_vertices f) pid = Some q \<and> c_level (lf_heap f ! q) = pl)"
      unfolding parents_inv_def by blast
    then show "\<exists>pid pl. Parent v = Some (pid, pl) \<and> pl < Level v \<and>
        (LowestLevel (newContainer i level f) \<le> pl \<longrightarrow>
         (\<exists>q. map_of (lf_vertices (newContainer i level f)) pid = Some q \<and>
              c_level (lf_heap (newContainer i level f) ! q) = pl))"
      using new lt by (force simp: nth_append)
  qed
  ultimately show ?thesis
    using newContainer_containers [OF c new low] newContainer_levels [OF l c new]
    by (simp add: inv_core_def)
qed

lemma newContainer_GetVertex:
  assumes "containers_inv f" and "map_of (lf_vertices f) i = None"
  shows "GetVertex (newContainer i level f) = GetVertex f"
proof
  fix j
  have lt: "map_of (lf_vertices f) j = Some q \<Longrightarrow> q < length (lf_heap f)" for j q
    using assms(1) by (rule containers_invD)
  show "GetVertex (newContainer i level f) j = GetVertex f j"
    using assms(2) lt
    by (auto simp: GetVertex_def isEmptyContainer_def nth_append split: option.splits)
qed

text \<open>The second step of \<open>AddVertex\<close>: \<open>container.vertex = vertex\<close>.\<close>

definition setVertex :: "nat \<Rightarrow> 'p vertex \<Rightarrow> 'p LevelledForest \<Rightarrow> 'p LevelledForest" where
  "setVertex p v f = f\<lparr>lf_heap := (lf_heap f)[p := (lf_heap f ! p)\<lparr>c_vertex := Some v\<rparr>]\<rparr>"

lemma setVertex_simps [simp]:
  "LowestLevel (setVertex p v f) = LowestLevel f"
  "lf_size (setVertex p v f) = lf_size f"
  "lf_vertices (setVertex p v f) = lf_vertices f"
  "lf_verticesAtLevel (setVertex p v f) = lf_verticesAtLevel f"
  "length (lf_heap (setVertex p v f)) = length (lf_heap f)"
  "c_id (lf_heap (setVertex p v f) ! q) = c_id (lf_heap f ! q)"
  "c_level (lf_heap (setVertex p v f) ! q) = c_level (lf_heap f ! q)"
  "c_children (lf_heap (setVertex p v f) ! q) = c_children (lf_heap f ! q)"
  "p < length (lf_heap f) \<Longrightarrow>
     c_vertex (lf_heap (setVertex p v f) ! q) = (if q = p then Some v else c_vertex (lf_heap f ! q))"
  by (simp_all add: setVertex_def list_update_beyond nth_list_update' split: if_splits)

lemma setVertex_inv:
  assumes inv: "inv_core {} f" and p: "map_of (lf_vertices f) (VertexID v) = Some p"
    and empty: "c_vertex (lf_heap f ! p) = None" and lvl: "Level v = c_level (lf_heap f ! p)"
  shows "inv_core {p} (setVertex p v f)"
proof -
  from inv have c: "containers_inv f" by (simp add: inv_core_def)
  note lt = containers_invD(1) [OF c p]
  have "childrenOf {p} (setVertex p v f) i l = childrenOf {} f i l" for i l
    using lt empty by (auto simp: childrenOf_def)
  moreover have "parents_inv {p} (setVertex p v f)"
    using inv lt by (auto simp: inv_core_def parents_inv_def)
  moreover have "containers_inv (setVertex p v f)"
    using c lt lvl containers_inj [OF c p] by (auto simp: containers_inv_def)
  moreover have "levels_inv (setVertex p v f)"
    using inv by (simp add: inv_core_def levels_inv_def)
  ultimately show ?thesis
    using inv by (simp add: inv_core_def keys_inv_def children_inv_def)
qed

lemma setVertex_GetVertex:
  assumes "containers_inv f" and p: "map_of (lf_vertices f) (VertexID v) = Some p"
  shows "GetVertex (setVertex p v f) = (GetVertex f)(VertexID v \<mapsto> v)"
proof
  fix j
  show "GetVertex (setVertex p v f) j = ((GetVertex f)(VertexID v \<mapsto> v)) j"
  proof (cases "map_of (lf_vertices f) j")
    case None
    with p show ?thesis by (auto simp: GetVertex_def)
  next
    case (Some q)
    then have "q = p \<longleftrightarrow> j = VertexID v"
      using containers_inj [OF assms(1)] p by auto
    then show ?thesis
      using Some p containers_invD(1) [OF assms] by (simp add: GetVertex_def isEmptyContainer_def)
  qed
qed

text \<open>The last step: \<open>parentContainer.children = append(parentContainer.children, vertexContainer)\<close>.\<close>

definition addChild :: "nat \<Rightarrow> nat \<Rightarrow> 'p LevelledForest \<Rightarrow> 'p LevelledForest" where
  "addChild q p f =
     f\<lparr>lf_heap := (lf_heap f)[q := (lf_heap f ! q)\<lparr>c_children := c_children (lf_heap f ! q) @ [p]\<rparr>]\<rparr>"

lemma addChild_simps [simp]:
  "LowestLevel (addChild q p f) = LowestLevel f"
  "lf_size (addChild q p f) = lf_size f"
  "lf_vertices (addChild q p f) = lf_vertices f"
  "lf_verticesAtLevel (addChild q p f) = lf_verticesAtLevel f"
  "length (lf_heap (addChild q p f)) = length (lf_heap f)"
  "c_id (lf_heap (addChild q p f) ! r) = c_id (lf_heap f ! r)"
  "c_level (lf_heap (addChild q p f) ! r) = c_level (lf_heap f ! r)"
  "c_vertex (lf_heap (addChild q p f) ! r) = c_vertex (lf_heap f ! r)"
  "q < length (lf_heap f) \<Longrightarrow> c_children (lf_heap (addChild q p f) ! r) =
     (if r = q then c_children (lf_heap f ! q) @ [p] else c_children (lf_heap f ! r))"
  by (simp_all add: addChild_def nth_list_update' split: if_splits)

lemma addChild_GetVertex [simp]: "GetVertex (addChild q p f) = GetVertex f"
  by (rule ext) (simp add: GetVertex_def isEmptyContainer_def split: option.splits)

lemma addChild_inv:
  assumes inv: "inv_core {p} f" and p: "map_of (lf_vertices f) i = Some p"
    and v: "c_vertex (lf_heap f ! p) = Some v" and low: "LowestLevel f < Level v"
    and par: "Parent v = Some (pid, pl)" "pl < Level v"
    and q: "map_of (lf_vertices f) pid = Some q" "c_level (lf_heap f ! q) = pl"
  shows "inv_core {} (addChild q p f)"
proof -
  from inv have c: "containers_inv f" and ch: "children_inv {p} f" and pa: "parents_inv {p} f"
    by (auto simp: inv_core_def)
  note lt = containers_invD(1) [OF c q(1)]
  have co: "childrenOf {} (addChild q p f) j l =
      (if j = pid \<and> l = pl then insert p (childrenOf {p} f j l) else childrenOf {p} f j l)" for j l
    using p v low par by (auto simp: childrenOf_def)
  have "children_inv {} (addChild q p f)"
    unfolding children_inv_def co
  proof (intro allI impI)
    fix j r
    assume r: "map_of (lf_vertices (addChild q p f)) j = Some r"
    then have *: "distinct (c_children (lf_heap f ! r))"
      "set (c_children (lf_heap f ! r)) = childrenOf {p} f j (c_level (lf_heap f ! r))"
      using ch by (auto simp: children_inv_def)
    have "r = q \<longleftrightarrow> j = pid"
      using r q(1) containers_inj [OF c] by auto
    moreover have "p \<notin> childrenOf {p} f k l" for k l by (simp add: childrenOf_def)
    ultimately show "distinct (c_children (lf_heap (addChild q p f) ! r)) \<and>
        set (c_children (lf_heap (addChild q p f) ! r)) =
        (if j = pid \<and> c_level (lf_heap (addChild q p f) ! r) = pl
         then insert p (childrenOf {p} f j (c_level (lf_heap (addChild q p f) ! r)))
         else childrenOf {p} f j (c_level (lf_heap (addChild q p f) ! r)))"
      using * lt q(2) by auto
  qed
  moreover have "parents_inv {} (addChild q p f)"
    unfolding parents_inv_def
  proof (intro allI impI, elim conjE)
    fix j r w
    assume r: "map_of (lf_vertices (addChild q p f)) j = Some r"
      "c_vertex (lf_heap (addChild q p f) ! r) = Some w"
      "LowestLevel (addChild q p f) < Level w"
    show "\<exists>pid pl. Parent w = Some (pid, pl) \<and> pl < Level w \<and>
        (LowestLevel (addChild q p f) \<le> pl \<longrightarrow>
         (\<exists>q'. map_of (lf_vertices (addChild q p f)) pid = Some q' \<and>
              c_level (lf_heap (addChild q p f) ! q') = pl))"
      using r pa par q v by (cases "r = p") (auto simp: parents_inv_def)
  qed
  moreover have "containers_inv (addChild q p f)" "levels_inv (addChild q p f)"
    "keys_inv (addChild q p f)"
    using inv by (simp_all add: inv_core_def containers_inv_def levels_inv_def keys_inv_def)
  ultimately show ?thesis by (simp add: inv_core_def)
qed

text \<open>A vertex at the lowest level, or whose parent is pruned, is not registered anywhere.\<close>

lemma unregistered_inv:
  assumes inv: "inv_core {p} f" and p: "map_of (lf_vertices f) i = Some p"
    and v: "c_vertex (lf_heap f ! p) = Some v"
    and cond: "Level v \<le> LowestLevel f \<or>
      (\<exists>pid pl. Parent v = Some (pid, pl) \<and> pl < Level v \<and> pl < LowestLevel f)"
  shows "inv_core {} f"
proof -
  from inv have c: "containers_inv f" and ch: "children_inv {p} f" and pa: "parents_inv {p} f"
    by (auto simp: inv_core_def)
  have "childrenOf {} f j (c_level (lf_heap f ! r)) = childrenOf {p} f j (c_level (lf_heap f ! r))"
    if "map_of (lf_vertices f) j = Some r" for j r
    using containers_invD(3) [OF c that] cond v by (auto simp: childrenOf_def)
  then have "children_inv {} f" using ch by (auto simp: children_inv_def)
  moreover have "parents_inv {} f"
    using pa cond v by (fastforce simp: parents_inv_def)
  ultimately show ?thesis using inv by (simp add: inv_core_def)
qed

lemma registerWithParent_inv:
  assumes inv: "inv_core {p} f" and p: "map_of (lf_vertices f) (VertexID v) = Some p"
    and v: "c_vertex (lf_heap f ! p) = Some v" and lvl: "c_level (lf_heap f ! p) = Level v"
    and par: "LowestLevel f < Level v \<Longrightarrow> \<exists>pid pl. Parent v = Some (pid, pl) \<and> pl < Level v"
    and con: "parentLevelConsistent f v"
  shows "\<exists>f'. registerWithParent p f = Inr f' \<and> inv_core {} f' \<and> GetVertex f' = GetVertex f
    \<and> LowestLevel f' = LowestLevel f \<and> lf_size f' = lf_size f"
proof (cases "LowestLevel f < Level v")
  case False
  then show ?thesis
    using unregistered_inv [OF inv p v] lvl by (simp add: registerWithParent_def not_less)
next
  case True
  then obtain pid pl where P: "Parent v = Some (pid, pl)" "pl < Level v" using par by blast
  show ?thesis
  proof (cases "pl < LowestLevel f")
    case True
    then show ?thesis
      using unregistered_inv [OF inv p v] P lvl v by (simp add: registerWithParent_def)
  next
    case F: False
    obtain q f1 where g: "getOrCreateVertexContainer pid pl f = (q, f1)" by fastforce
    have c: "containers_inv f" using inv by (simp add: inv_core_def)
    have "inv_core {p} f1 \<and> map_of (lf_vertices f1) pid = Some q \<and> c_level (lf_heap f1 ! q) = pl
      \<and> map_of (lf_vertices f1) (VertexID v) = Some p \<and> c_vertex (lf_heap f1 ! p) = Some v
      \<and> LowestLevel f1 = LowestLevel f \<and> lf_size f1 = lf_size f \<and> GetVertex f1 = GetVertex f"
    proof (cases "map_of (lf_vertices f) pid")
      case None
      then have e: "q = length (lf_heap f)" "f1 = newContainer pid pl f" "VertexID v \<noteq> pid"
        using g p by (auto simp: getOrCreate_cases)
      then show ?thesis
        using newContainer_inv [OF inv None] newContainer_GetVertex [OF c None] F p v
          containers_invD(1) [OF c p] by (simp add: nth_append)
    next
      case (Some r)
      then have "q = r" "f1 = f" using g by (auto simp: getOrCreate_cases)
      then show ?thesis
        using Some inv con P p v True F by (simp add: parentLevelConsistent_def not_less)
    qed
    then have f1: "inv_core {p} f1" "map_of (lf_vertices f1) pid = Some q" "c_level (lf_heap f1 ! q) = pl"
      "map_of (lf_vertices f1) (VertexID v) = Some p" "c_vertex (lf_heap f1 ! p) = Some v"
      "LowestLevel f1 = LowestLevel f" "lf_size f1 = lf_size f" "GetVertex f1 = GetVertex f"
      by simp_all
    have "registerWithParent p f = Inr (addChild q p f1)"
      using True F P g v lvl by (simp add: registerWithParent_def addChild_def Let_def)
    moreover have "inv_core {} (addChild q p f1)"
      using addChild_inv [OF f1(1) f1(4) f1(5)] True f1 P by auto
    ultimately show ?thesis using f1 by simp
  qed
qed

lemma inv_core_size [simp]: "inv_core X (f\<lparr>lf_size := n\<rparr>) = inv_core X f"
  by (simp add: inv_core_def keys_inv_def containers_inv_def levels_inv_def children_inv_def
      parents_inv_def childrenOf_def)

lemma VerifyVertex_new:
  assumes ok: "VerifyVertex f v = Inr ()" and low: "\<not> Level v < LowestLevel f"
    and new: "GetVertex f (VertexID v) = None"
  shows "LowestLevel f < Level v \<Longrightarrow> \<exists>pid pl. Parent v = Some (pid, pl) \<and> pl < Level v"
    and "map_of (lf_vertices f) (VertexID v) = Some p \<Longrightarrow> c_level (lf_heap f ! p) = Level v"
proof -
  have "ensureConsistentParent f v = Inr ()"
    using ok low new
    by (auto simp: VerifyVertex_def GetVertex_None_iff Let_def split: option.splits if_splits)
  then show "LowestLevel f < Level v \<Longrightarrow> \<exists>pid pl. Parent v = Some (pid, pl) \<and> pl < Level v"
    by (auto simp: ensureConsistentParent_def split: option.splits if_splits)
  show "map_of (lf_vertices f) (VertexID v) = Some p \<Longrightarrow> c_level (lf_heap f ! p) = Level v"
    using ok low by (auto simp: VerifyVertex_def Let_def split: if_splits)
qed

lemma AddVertex_new:
  assumes inv: "inv_core {} f" and ok: "VerifyVertex f v = Inr ()"
    and con: "parentLevelConsistent f v" and low: "\<not> Level v < LowestLevel f"
    and new: "GetVertex f (VertexID v) = None"
  shows "\<exists>f'. AddVertex v f = Inr f' \<and> inv_core {} f' \<and> GetVertex f' = (GetVertex f)(VertexID v \<mapsto> v)
    \<and> LowestLevel f' = LowestLevel f \<and> lf_size f' = lf_size f + 1"
proof -
  obtain p f1 where g: "getOrCreateVertexContainer (VertexID v) (Level v) f = (p, f1)" by fastforce
  have c: "containers_inv f" using inv by (simp add: inv_core_def)
  note vv = VerifyVertex_new [OF ok low new]
  have "inv_core {} f1 \<and> map_of (lf_vertices f1) (VertexID v) = Some p
      \<and> c_level (lf_heap f1 ! p) = Level v \<and> c_vertex (lf_heap f1 ! p) = None
      \<and> LowestLevel f1 = LowestLevel f \<and> lf_size f1 = lf_size f \<and> GetVertex f1 = GetVertex f
      \<and> parentLevelConsistent f1 v"
  proof (cases "map_of (lf_vertices f) (VertexID v)")
    case None
    then have e: "p = length (lf_heap f)" "f1 = newContainer (VertexID v) (Level v) f"
      using g by (auto simp: getOrCreate_cases)
    have "parentLevelConsistent f1 v"
      using con e containers_invD(1) [OF c]
      by (auto simp: parentLevelConsistent_def nth_append split: option.splits)
    then show ?thesis
      using e newContainer_inv [OF inv None] newContainer_GetVertex [OF c None] low
      by (simp add: not_less)
  next
    case (Some r)
    then have "p = r" "f1 = f" using g by (auto simp: getOrCreate_cases)
    then show ?thesis
      using Some inv con new vv(2) by (simp add: GetVertex_None_iff)
  qed
  then have f1: "inv_core {} f1" "map_of (lf_vertices f1) (VertexID v) = Some p"
    "c_level (lf_heap f1 ! p) = Level v" "c_vertex (lf_heap f1 ! p) = None"
    "LowestLevel f1 = LowestLevel f" "lf_size f1 = lf_size f" "GetVertex f1 = GetVertex f"
    "parentLevelConsistent f1 v"
    by simp_all
  have c1: "containers_inv f1" using f1(1) by (simp add: inv_core_def)
  note lt = containers_invD(1) [OF c1 f1(2)]
  let ?f2 = "setVertex p v f1"
  have "inv_core {p} ?f2" by (rule setVertex_inv [OF f1(1,2,4)]) (simp add: f1)
  moreover have "parentLevelConsistent ?f2 v"
    using f1(8) by (auto simp: parentLevelConsistent_def split: option.splits)
  ultimately obtain f3 where f3: "registerWithParent p ?f2 = Inr f3" "inv_core {} f3"
    "GetVertex f3 = GetVertex ?f2" "LowestLevel f3 = LowestLevel f" "lf_size f3 = lf_size f"
    using registerWithParent_inv [of p ?f2 v] f1 lt vv(1) by auto
  have "AddVertex v f = Inr (f3\<lparr>lf_size := lf_size f3 + 1\<rparr>)"
    using low g f1(4) f3(1) by (simp add: AddVertex_def isEmptyContainer_def setVertex_def)
  moreover have "inv_core {} (f3\<lparr>lf_size := lf_size f3 + 1\<rparr>)"
    using f3(2) by simp
  moreover have "GetVertex (f3\<lparr>lf_size := lf_size f3 + 1\<rparr>) = GetVertex f3"
    by (rule ext) (simp add: GetVertex_def split: option.splits)
  ultimately show ?thesis
    using f3 f1(7) setVertex_GetVertex [OF c1 f1(2)] by simp
qed

text \<open>What \<open>AddVertex\<close> does to the stored vertices, and that it keeps the invariant.\<close>

lemma AddVertex_spec:
  assumes inv: "forest_inv f" and ok: "VerifyVertex f v = Inr ()"
    and con: "parentLevelConsistent f v"
  shows "\<exists>f'. AddVertex v f = Inr f' \<and> forest_inv f' \<and> LowestLevel f' = LowestLevel f
    \<and> GetVertex f' = (if LowestLevel f \<le> Level v \<and> GetVertex f (VertexID v) = None
                      then (GetVertex f)(VertexID v \<mapsto> v) else GetVertex f)"
proof -
  consider (below) "Level v < LowestLevel f"
    | (known) "\<not> Level v < LowestLevel f" "GetVertex f (VertexID v) \<noteq> None"
    | (new) "\<not> Level v < LowestLevel f" "GetVertex f (VertexID v) = None" by blast
  then show ?thesis
  proof cases
    case below
    then show ?thesis using inv by (auto simp: AddVertex_def)
  next
    case known
    then obtain p where "map_of (lf_vertices f) (VertexID v) = Some p"
      "\<not> isEmptyContainer (lf_heap f ! p)"
      by (auto simp: GetVertex_Some_iff isEmptyContainer_def)
    then have "AddVertex v f = Inr f"
      using known by (simp add: AddVertex_def getOrCreate_cases)
    then show ?thesis using known inv by auto
  next
    case new
    have core: "inv_core {} f" using inv by (simp add: forest_inv_def)
    from AddVertex_new [OF core ok con new] obtain f' where f': "AddVertex v f = Inr f'"
      "inv_core {} f'" "GetVertex f' = (GetVertex f)(VertexID v \<mapsto> v)"
      "LowestLevel f' = LowestLevel f" "lf_size f' = lf_size f + 1" by blast
    have "fullIDs (lf_heap f') (lf_vertices f')
        = insert (VertexID v) (fullIDs (lf_heap f) (lf_vertices f))"
      by (auto simp: fullIDs_GetVertex f'(3))
    moreover have "VertexID v \<notin> fullIDs (lf_heap f) (lf_vertices f)"
      using new by (simp add: fullIDs_GetVertex)
    ultimately have "forest_inv f'"
      using inv f' by (simp add: forest_inv_def add.commute)
    then show ?thesis using f' new by (auto simp: not_less)
  qed
qed

section \<open>Pruning keeps the invariant\<close>

lemma pruneVertices_map:
  "map_of (fst (pruneVertices hp ps vs n)) i =
     (if i \<in> (\<lambda>p. c_id (hp ! p)) ` set ps then None else map_of vs i)"
  by (induction ps arbitrary: vs n) (auto simp: delete_conv')

lemma pruneVertices_keys:
  "distinct (map fst vs) \<Longrightarrow> distinct (map fst (fst (pruneVertices hp ps vs n)))"
  by (induction ps arbitrary: vs n) auto

lemma fullIDs_delete:
  "fullIDs hp (AList.delete i vs) = fullIDs hp vs - {i}"
  by (auto simp: fullIDs_def delete_conv' split: if_splits)

lemma prune_one_count:
  assumes "c_id (hp ! p) \<in> fullIDs hp vs \<longleftrightarrow> \<not> isEmptyContainer (hp ! p)"
  shows "(if isEmptyContainer (hp ! p) then n else Suc n)
      + card (fullIDs hp (AList.delete (c_id (hp ! p)) vs)) = n + card (fullIDs hp vs)"
proof (cases "isEmptyContainer (hp ! p)")
  case True
  with assms show ?thesis by (simp add: fullIDs_delete)
next
  case False
  with assms have "Suc (card (fullIDs hp vs - {c_id (hp ! p)})) = card (fullIDs hp vs)"
    by (intro card_Suc_Diff1) simp_all
  with False show ?thesis by (simp add: fullIDs_delete del: card_Diff_insert)
qed

lemma pruneVertices_count:
  assumes "distinct (map (\<lambda>p. c_id (hp ! p)) ps)"
    and "\<forall>p\<in>set ps. map_of vs (c_id (hp ! p)) = Some p"
  shows "snd (pruneVertices hp ps vs n) + card (fullIDs hp (fst (pruneVertices hp ps vs n)))
       = n + card (fullIDs hp vs)"
  using assms
proof (induction ps arbitrary: vs n)
  case Nil
  then show ?case by simp
next
  case (Cons p ps)
  let ?vs = "AList.delete (c_id (hp ! p)) vs"
  let ?n = "if isEmptyContainer (hp ! p) then n else Suc n"
  have "c_id (hp ! q) \<noteq> c_id (hp ! p)" if "q \<in> set ps" for q
    using Cons.prems(1) that by (auto simp: image_iff)
  then have "\<forall>q\<in>set ps. map_of ?vs (c_id (hp ! q)) = Some q"
    using Cons.prems(2) by (simp add: delete_conv')
  moreover have "distinct (map (\<lambda>p. c_id (hp ! p)) ps)" using Cons.prems(1) by simp
  ultimately have "snd (pruneVertices hp ps ?vs ?n) + card (fullIDs hp (fst (pruneVertices hp ps ?vs ?n)))
       = ?n + card (fullIDs hp ?vs)" using Cons.IH by blast
  moreover have "map_of vs (c_id (hp ! p)) = Some p" using Cons.prems(2) by simp
  then have "c_id (hp ! p) \<in> fullIDs hp vs \<longleftrightarrow> \<not> isEmptyContainer (hp ! p)"
    by (simp add: fullIDs_def isEmptyContainer_def)
  then have "?n + card (fullIDs hp ?vs) = n + card (fullIDs hp vs)" by (rule prune_one_count)
  ultimately show ?case by (simp only: pruneVertices.simps)
qed

text \<open>
  What both pruning loops compute, stated on lookups: the containers and lists of the levels
  below \<open>level\<close> are gone and every removed full container is counted once.
\<close>

definition prunedTo :: "'p vertexContainer list \<Rightarrow> uint64 \<Rightarrow> pruneState \<Rightarrow> pruneState \<Rightarrow> bool" where
  "prunedTo hp level st st' =
     (case (st, st') of ((vs, vl, n), (vs', vl', n')) \<Rightarrow>
        (\<forall>i. map_of vs' i = (case map_of vs i of None \<Rightarrow> None
              | Some p \<Rightarrow> if c_level (hp ! p) < level then None else Some p))
        \<and> (\<forall>l. levelList vl' l = (if l < level then [] else levelList vl l))
        \<and> n' + card (fullIDs hp vs') = n + card (fullIDs hp vs)
        \<and> (distinct (map fst vs) \<longrightarrow> distinct (map fst vs'))
        \<and> (distinct (map fst vl) \<longrightarrow> distinct (map fst vl')))"

text \<open>
  The part of the invariant the loops need: level lists and map point at each other.
\<close>

definition indexed :: "'p vertexContainer list \<Rightarrow> pruneState \<Rightarrow> bool" where
  "indexed hp st =
     (case st of (vs, vl, n) \<Rightarrow>
        (\<forall>i p. map_of vs i = Some p \<longrightarrow> c_id (hp ! p) = i \<and> p \<in> set (levelList vl (c_level (hp ! p))))
        \<and> (\<forall>l. distinct (levelList vl l)
             \<and> (\<forall>p\<in>set (levelList vl l). c_level (hp ! p) = l \<and> map_of vs (c_id (hp ! p)) = Some p)))"

lemma indexed_prune_level:
  assumes ix: "indexed hp (vs, vl, n)" and pv: "pruneVertices hp (levelList vl l) vs n = (vs', n')"
  shows "indexed hp (vs', AList.delete l vl, n')"
    and "map_of vs' i = (case map_of vs i of None \<Rightarrow> None
           | Some p \<Rightarrow> if c_level (hp ! p) = l then None else Some p)"
    and "n' + card (fullIDs hp vs') = n + card (fullIDs hp vs)"
    and "distinct (map fst vs) \<longrightarrow> distinct (map fst vs')"
proof -
  have ids: "i \<in> (\<lambda>p. c_id (hp ! p)) ` set (levelList vl l) \<longleftrightarrow>
      (\<exists>p. map_of vs i = Some p \<and> c_level (hp ! p) = l)" for i
    using ix by (auto simp: indexed_def)
  show m: "map_of vs' i = (case map_of vs i of None \<Rightarrow> None
           | Some p \<Rightarrow> if c_level (hp ! p) = l then None else Some p)" for i
    using pruneVertices_map [of hp "levelList vl l" vs n i] pv ids [of i]
    by (auto split: option.splits)
  show "indexed hp (vs', AList.delete l vl, n')"
    using ix by (auto simp: indexed_def m levelList_delete split: option.splits if_splits)
  have "inj_on (\<lambda>p. c_id (hp ! p)) (set (levelList vl l))"
    using ix by (auto simp: indexed_def inj_on_def) (metis option.inject)
  then have "distinct (map (\<lambda>p. c_id (hp ! p)) (levelList vl l))"
    using ix by (simp add: distinct_map indexed_def)
  then show "n' + card (fullIDs hp vs') = n + card (fullIDs hp vs)"
    using pruneVertices_count [of hp "levelList vl l" vs n] pv ix by (simp add: indexed_def)
  show "distinct (map fst vs) \<longrightarrow> distinct (map fst vs')"
    using pruneVertices_keys [of vs hp "levelList vl l" n] pv by simp
qed

lemma prunedTo_step:
  assumes m: "\<And>i. map_of vs' i = (case map_of vs i of None \<Rightarrow> None
        | Some p \<Rightarrow> if c_level (hp ! p) = l then None else Some p)"
    and n: "n' + card (fullIDs hp vs') = n + card (fullIDs hp vs)"
    and d: "distinct (map fst vs) \<longrightarrow> distinct (map fst vs')" and lt: "l < level"
    and step: "prunedTo hp level (vs', AList.delete l vl, n') st"
  shows "prunedTo hp level (vs, vl, n) st"
proof -
  obtain vs2 vl2 n2 where st: "st = (vs2, vl2, n2)" by (cases st)
  have R: "\<And>i. map_of vs2 i = (case map_of vs' i of None \<Rightarrow> None
        | Some p \<Rightarrow> if c_level (hp ! p) < level then None else Some p)"
    "\<And>l'. levelList vl2 l' = (if l' < level then [] else levelList (AList.delete l vl) l')"
    "n2 + card (fullIDs hp vs2) = n' + card (fullIDs hp vs')"
    "distinct (map fst vs') \<Longrightarrow> distinct (map fst vs2)"
    "distinct (map fst (AList.delete l vl)) \<Longrightarrow> distinct (map fst vl2)"
    using step by (simp_all add: prunedTo_def st)
  have "map_of vs2 i = (case map_of vs i of None \<Rightarrow> None
        | Some p \<Rightarrow> if c_level (hp ! p) < level then None else Some p)" for i
    using R(1) [of i] m [of i] lt by (cases "map_of vs i") auto
  moreover have "levelList vl2 l' = (if l' < level then [] else levelList vl l')" for l'
    using R(2) [of l'] lt by (auto simp: levelList_delete)
  moreover have "distinct (map fst vl) \<Longrightarrow> distinct (map fst vl2)"
    using R(5) by auto
  ultimately show ?thesis
    using R(3,4) n d by (simp add: prunedTo_def st)
qed

lemma pruneByLevel_spec:
  "indexed hp st \<Longrightarrow> \<forall>l'. l' < l \<longrightarrow> levelList (fst (snd st)) l' = [] \<Longrightarrow>
   prunedTo hp level st (pruneByLevel hp l level st)"
proof (induction hp l level st rule: pruneByLevel.induct)
  case (1 hp l level vs vl n)
  have empty: "\<not> (l' < l \<and> levelList vl l' \<noteq> [])" for l' using "1.prems"(2) by simp
  show ?case
  proof (cases "l < level")
    case False
    have lv: "\<not> c_level (hp ! p) < level" if "map_of vs i = Some p" for i p
    proof -
      have "p \<in> set (levelList vl (c_level (hp ! p)))"
        using that "1.prems"(1) by (auto simp: indexed_def)
      with empty [of "c_level (hp ! p)"] False show ?thesis by auto
    qed
    have "levelList vl l' = []" if "l' < level" for l'
      using empty [of l'] that False by auto
    with False lv show ?thesis
      by (auto simp: prunedTo_def pruneByLevel.simps split: option.splits)
  next
    case True
    obtain vs' n' where pv: "pruneVertices hp (levelList vl l) vs n = (vs', n')" by fastforce
    note ix = indexed_prune_level [OF "1.prems"(1) pv]
    have le: "l' < l + 1 \<longleftrightarrow> l' \<le> l" for l'
      using word_add_one_unat [OF True] by (simp add: word_less_nat_alt word_le_nat_alt less_Suc_eq_le)
    have "prunedTo hp level (vs', AList.delete l vl, n')
        (pruneByLevel hp (l + 1) level (vs', AList.delete l vl, n'))"
    proof (rule "1.IH" [OF True pv [symmetric]])
      show "indexed hp (vs', AList.delete l vl, n')" by (rule ix)
      show "\<forall>l'<l + 1. levelList (fst (snd (vs', AList.delete l vl, n'))) l' = []"
        using "1.prems"(2) by (auto simp: le levelList_delete)
    qed
    then have "prunedTo hp level (vs, vl, n)
        (pruneByLevel hp (l + 1) level (vs', AList.delete l vl, n'))"
      by (rule prunedTo_step [OF ix(2) ix(3) ix(4) True])
    then show ?thesis
      using True pv by (simp add: pruneByLevel.simps [of hp l level])
  qed
qed

lemma pruneByMap_spec:
  "indexed hp (vs, vl, n) \<Longrightarrow> distinct (map fst es) \<Longrightarrow>
   \<forall>(l, ps)\<in>set es. levelList vl l = ps \<Longrightarrow>
   \<forall>l. l < level \<and> l \<notin> fst ` set es \<longrightarrow> levelList vl l = [] \<Longrightarrow>
   prunedTo hp level (vs, vl, n) (pruneByMap hp level es (vs, vl, n))"
proof (induction es arbitrary: vs vl n)
  case Nil
  have "\<not> c_level (hp ! p) < level" if "map_of vs i = Some p" for i p
  proof -
    have "p \<in> set (levelList vl (c_level (hp ! p)))"
      using that Nil.prems(1) by (auto simp: indexed_def)
    with Nil.prems(4) show ?thesis by auto
  qed
  with Nil.prems(4) show ?case by (auto simp: prunedTo_def split: option.splits)
next
  case (Cons e es)
  obtain l ps where e: "e = (l, ps)" by fastforce
  show ?case
  proof (cases "l < level")
    case False
    then have "pruneByMap hp level (e # es) (vs, vl, n) = pruneByMap hp level es (vs, vl, n)"
      by (simp add: e)
    moreover have "prunedTo hp level (vs, vl, n) (pruneByMap hp level es (vs, vl, n))"
    proof (rule Cons.IH)
      show "indexed hp (vs, vl, n)" by (rule Cons.prems(1))
      show "distinct (map fst es)" using Cons.prems(2) by simp
      show "\<forall>(l, ps)\<in>set es. levelList vl l = ps" using Cons.prems(3) by simp
      show "\<forall>l'. l' < level \<and> l' \<notin> fst ` set es \<longrightarrow> levelList vl l' = []"
      proof (intro allI impI, elim conjE)
        fix l' assume "l' < level" "l' \<notin> fst ` set es"
        with False e have "l' \<notin> fst ` set (e # es)" by auto
        with Cons.prems(4) \<open>l' < level\<close> show "levelList vl l' = []" by blast
      qed
    qed
    ultimately show ?thesis by simp
  next
    case True
    have ps: "levelList vl l = ps" using Cons.prems(3) e by simp
    obtain vs' n' where pv: "pruneVertices hp (levelList vl l) vs n = (vs', n')" by fastforce
    note ix = indexed_prune_level [OF Cons.prems(1) pv]
    have l: "l \<notin> fst ` set es" using Cons.prems(2) e by simp
    have "prunedTo hp level (vs', AList.delete l vl, n')
        (pruneByMap hp level es (vs', AList.delete l vl, n'))"
    proof (rule Cons.IH)
      show "indexed hp (vs', AList.delete l vl, n')" by (rule ix(1))
      show "distinct (map fst es)" using Cons.prems(2) by simp
      show "\<forall>(k, ps)\<in>set es. levelList (AList.delete l vl) k = ps"
      proof (intro ballI, clarify)
        fix k qs assume kq: "(k, qs) \<in> set es"
        then have "k \<noteq> l" using l by force
        with kq Cons.prems(3) show "levelList (AList.delete l vl) k = qs"
          by (auto simp: levelList_delete)
      qed
      show "\<forall>k. k < level \<and> k \<notin> fst ` set es \<longrightarrow> levelList (AList.delete l vl) k = []"
        using Cons.prems(4) e by (simp add: levelList_delete)
    qed
    then have "prunedTo hp level (vs, vl, n)
        (pruneByMap hp level es (vs', AList.delete l vl, n'))"
      by (rule prunedTo_step [OF ix(2) ix(3) ix(4) True])
    then show ?thesis
      using True pv e ps by simp
  qed
qed

lemma inv_core_indexed: "inv_core X f \<Longrightarrow> indexed (lf_heap f) (lf_vertices f, lf_verticesAtLevel f, n)"
  by (simp add: inv_core_def containers_inv_def levels_inv_def indexed_def)

lemma inv_core_below:
  assumes inv: "inv_core X f" and lt: "l < LowestLevel f"
  shows "levelList (lf_verticesAtLevel f) l = []"
proof (rule ccontr)
  assume "levelList (lf_verticesAtLevel f) l \<noteq> []"
  then obtain p where p: "p \<in> set (levelList (lf_verticesAtLevel f) l)"
    by (metis last_in_set)
  with inv have "c_level (lf_heap f ! p) = l" "map_of (lf_vertices f) (c_id (lf_heap f ! p)) = Some p"
    by (auto simp: inv_core_def levels_inv_def)
  with inv lt containers_invD(3) [of f] show False by (force simp: inv_core_def)
qed

text \<open>Both iteration strategies of \<open>PruneUpToLevel\<close> compute the pruned forest.\<close>

lemma prune_loops:
  assumes inv: "inv_core {} f"
  shows "prunedTo (lf_heap f) level (lf_vertices f, lf_verticesAtLevel f, 0)
      (pruneByMap (lf_heap f) level (lf_verticesAtLevel f) (lf_vertices f, lf_verticesAtLevel f, 0))"
    and "prunedTo (lf_heap f) level (lf_vertices f, lf_verticesAtLevel f, 0)
      (pruneByLevel (lf_heap f) (LowestLevel f) level (lf_vertices f, lf_verticesAtLevel f, 0))"
proof -
  note ix = inv_core_indexed [OF inv, of 0]
  have d: "distinct (map fst (lf_verticesAtLevel f))"
    using inv by (simp add: inv_core_def keys_inv_def)
  show "prunedTo (lf_heap f) level (lf_vertices f, lf_verticesAtLevel f, 0)
      (pruneByMap (lf_heap f) level (lf_verticesAtLevel f) (lf_vertices f, lf_verticesAtLevel f, 0))"
  proof (rule pruneByMap_spec [OF ix d])
    show "\<forall>(l, ps)\<in>set (lf_verticesAtLevel f). levelList (lf_verticesAtLevel f) l = ps"
      using d by (auto simp: levelList_def)
    show "\<forall>l. l < level \<and> l \<notin> fst ` set (lf_verticesAtLevel f) \<longrightarrow>
        levelList (lf_verticesAtLevel f) l = []"
      by (simp add: levelList_def flip: map_of_eq_None_iff)
  qed
  show "prunedTo (lf_heap f) level (lf_vertices f, lf_verticesAtLevel f, 0)
      (pruneByLevel (lf_heap f) (LowestLevel f) level (lf_vertices f, lf_verticesAtLevel f, 0))"
    using inv_core_below [OF inv] by (intro pruneByLevel_spec [OF ix]) simp
qed

lemma prunedTo_inv:
  assumes inv: "inv_core {} f" and le: "LowestLevel f \<le> level"
    and pr: "prunedTo (lf_heap f) level (lf_vertices f, lf_verticesAtLevel f, 0) (vs, vl, n)"
    and f': "f' = f\<lparr>lf_vertices := vs, lf_verticesAtLevel := vl, LowestLevel := level, lf_size := s\<rparr>"
  shows "inv_core {} f'"
    and "GetVertex f' i = (case GetVertex f i of None \<Rightarrow> None
           | Some v \<Rightarrow> if Level v < level then None else Some v)"
proof -
  from inv have k: "keys_inv f" and c: "containers_inv f" and lv: "levels_inv f"
    and ch: "children_inv {} f" and pa: "parents_inv {} f" by (auto simp: inv_core_def)
  have V: "map_of vs i = Some p \<longleftrightarrow>
      map_of (lf_vertices f) i = Some p \<and> level \<le> c_level (lf_heap f ! p)" for i p
    using pr by (auto simp: prunedTo_def not_less split: option.splits if_splits)
  have VL: "levelList vl l = (if l < level then [] else levelList (lf_verticesAtLevel f) l)" for l
    using pr by (simp add: prunedTo_def)
  have "keys_inv f'" using k pr by (simp add: f' keys_inv_def prunedTo_def)
  moreover have "containers_inv f'"
    using c by (auto simp: f' containers_inv_def V VL not_less)
  moreover have "levels_inv f'"
    using lv by (auto simp: f' levels_inv_def V VL not_less)
  moreover have lev: "Level w = c_level (lf_heap f ! q)"
    if "map_of (lf_vertices f) j = Some q" "c_vertex (lf_heap f ! q) = Some w" for j q w
    using containers_invD(5) [OF c that] by simp
  have par: "pl < Level w" if "map_of (lf_vertices f) j = Some q" "c_vertex (lf_heap f ! q) = Some w"
    "Parent w = Some (i, pl)" "LowestLevel f < Level w" for j q w i pl
    using pa that by (fastforce simp: parents_inv_def)
  have co: "childrenOf {} f' i l = childrenOf {} f i l" if "level \<le> l" for i l
    unfolding childrenOf_def
  proof (rule Collect_cong)
    fix q
    have "(map_of (lf_vertices f') j = Some q \<and> c_vertex (lf_heap f' ! q) = Some w \<and>
         Parent w = Some (i, l) \<and> LowestLevel f' < Level w) =
        (map_of (lf_vertices f) j = Some q \<and> c_vertex (lf_heap f ! q) = Some w \<and>
         Parent w = Some (i, l) \<and> LowestLevel f < Level w)" for j w
      using par [of j q w i l] lev [of j q w] that le by (auto simp: f' V)
    then show "(q \<notin> {} \<and> (\<exists>j w. map_of (lf_vertices f') j = Some q \<and> c_vertex (lf_heap f' ! q) = Some w \<and>
         Parent w = Some (i, l) \<and> LowestLevel f' < Level w)) =
        (q \<notin> {} \<and> (\<exists>j w. map_of (lf_vertices f) j = Some q \<and> c_vertex (lf_heap f ! q) = Some w \<and>
         Parent w = Some (i, l) \<and> LowestLevel f < Level w))" by (simp only:)
  qed
  have "children_inv {} f'"
    using ch co by (auto simp: f' children_inv_def V)
  moreover have "parents_inv {} f'"
    unfolding parents_inv_def
  proof (intro allI impI, elim conjE)
    fix i p v
    assume "map_of (lf_vertices f') i = Some p" "c_vertex (lf_heap f' ! p) = Some v"
      "LowestLevel f' < Level v"
    then have "map_of (lf_vertices f) i = Some p" "c_vertex (lf_heap f ! p) = Some v"
      "LowestLevel f < Level v" using le by (auto simp: f' V)
    with pa obtain pid pl where "Parent v = Some (pid, pl)" "pl < Level v"
      "LowestLevel f \<le> pl \<longrightarrow>
        (\<exists>q. map_of (lf_vertices f) pid = Some q \<and> c_level (lf_heap f ! q) = pl)"
      unfolding parents_inv_def by blast
    then show "\<exists>pid pl. Parent v = Some (pid, pl) \<and> pl < Level v \<and>
        (LowestLevel f' \<le> pl \<longrightarrow>
         (\<exists>q. map_of (lf_vertices f') pid = Some q \<and> c_level (lf_heap f' ! q) = pl))"
      using le by (auto simp: f' V)
  qed
  ultimately show "inv_core {} f'" by (simp add: inv_core_def)
  show "GetVertex f' i = (case GetVertex f i of None \<Rightarrow> None
         | Some v \<Rightarrow> if Level v < level then None else Some v)"
  proof (cases "map_of (lf_vertices f) i")
    case None
    then have "map_of vs i = None" using V by (metis option.exhaust)
    with None show ?thesis by (simp add: GetVertex_def f')
  next
    case (Some p)
    then have "map_of vs i = (if c_level (lf_heap f ! p) < level then None else Some p)"
      using pr by (simp add: prunedTo_def)
    then show ?thesis
      using Some lev [OF Some] by (auto simp: GetVertex_def f' isEmptyContainer_def)
  qed
qed

lemma PruneUpToLevel_spec:
  assumes inv: "forest_inv f" and le: "LowestLevel f \<le> level"
  shows "\<exists>f'. PruneUpToLevel level f = Inr f' \<and> forest_inv f' \<and> LowestLevel f' = level
    \<and> (\<forall>i. GetVertex f' i = (case GetVertex f i of None \<Rightarrow> None
          | Some v \<Rightarrow> if Level v < level then None else Some v))"
proof -
  have core: "inv_core {} f" using inv by (simp add: forest_inv_def)
  define st where "st = (if lf_vertices f = [] then (lf_vertices f, lf_verticesAtLevel f, 0)
     else if of_nat (length (lf_verticesAtLevel f)) < level - LowestLevel f
          then pruneByMap (lf_heap f) level (lf_verticesAtLevel f)
                 (lf_vertices f, lf_verticesAtLevel f, 0)
          else pruneByLevel (lf_heap f) (LowestLevel f) level
                 (lf_vertices f, lf_verticesAtLevel f, 0))"
  obtain vs vl n where st': "st = (vs, vl, n)" by (cases st)
  let ?f = "f\<lparr>lf_vertices := vs, lf_verticesAtLevel := vl, LowestLevel := level,
      lf_size := lf_size f - of_nat n\<rparr>"
  have "lf_vertices f = [] \<Longrightarrow> levelList (lf_verticesAtLevel f) l = []" for l
  proof (rule ccontr)
    assume e: "lf_vertices f = []" and "levelList (lf_verticesAtLevel f) l \<noteq> []"
    then obtain p where "p \<in> set (levelList (lf_verticesAtLevel f) l)" by (metis last_in_set)
    with core e show False by (auto simp: inv_core_def levels_inv_def)
  qed
  then have pr: "prunedTo (lf_heap f) level (lf_vertices f, lf_verticesAtLevel f, 0) (vs, vl, n)"
    using prune_loops [OF core, of level] st'
    by (auto simp: st_def prunedTo_def split: if_splits)
  have "PruneUpToLevel level f = Inr ?f"
    using le st' by (auto simp: PruneUpToLevel_def st_def split: if_splits)
  moreover note p = prunedTo_inv [OF core le pr refl, of "lf_size f - of_nat n"]
  have "forest_inv ?f"
  proof -
    have "n + card (fullIDs (lf_heap f) vs) = card (fullIDs (lf_heap f) (lf_vertices f))"
      using pr by (simp add: prunedTo_def)
    then have "of_nat (card (fullIDs (lf_heap f) (lf_vertices f))) =
        (of_nat n + of_nat (card (fullIDs (lf_heap f) vs)) :: uint64)"
      by (metis of_nat_add)
    then show ?thesis using p(1) inv by (simp add: forest_inv_def)
  qed
  ultimately show ?thesis using p(2) by auto
qed

section \<open>What the reading operations return\<close>

lemma allVertices_at_level:
  assumes inv: "forest_inv f"
  shows "set (allVertices (lf_heap f) (GetVerticesAtLevel f l)) =
           {v. \<exists>i. GetVertex f i = Some v \<and> Level v = l}"
proof -
  have c: "containers_inv f" and lv: "levels_inv f"
    using inv by (auto simp: forest_inv_def inv_core_def)
  show ?thesis
  proof (intro set_eqI iffI)
    fix v
    assume "v \<in> set (allVertices (lf_heap f) (GetVerticesAtLevel f l))"
    then obtain p where p: "p \<in> set (levelList (lf_verticesAtLevel f) l)"
      "c_vertex (lf_heap f ! p) = Some v"
      by (auto simp: GetVerticesAtLevel_def set_map_filter)
    with lv have "c_level (lf_heap f ! p) = l" "map_of (lf_vertices f) (c_id (lf_heap f ! p)) = Some p"
      by (auto simp: levels_inv_def)
    with p containers_invD(5) [OF c] show "v \<in> {v. \<exists>i. GetVertex f i = Some v \<and> Level v = l}"
      by (auto simp: GetVertex_Some_iff)
  next
    fix v
    assume "v \<in> {v. \<exists>i. GetVertex f i = Some v \<and> Level v = l}"
    then obtain i p where "map_of (lf_vertices f) i = Some p" "c_vertex (lf_heap f ! p) = Some v"
      "Level v = l" by (auto simp: GetVertex_Some_iff)
    with containers_invD(4,5) [OF c] show "v \<in> set (allVertices (lf_heap f) (GetVerticesAtLevel f l))"
      by (force simp: GetVerticesAtLevel_def set_map_filter)
  qed
qed

lemma allVertices_children:
  assumes inv: "forest_inv f" and i: "GetVertex f i = Some u"
  shows "set (allVertices (lf_heap f) (GetChildren f i)) =
           {v. (\<exists>j. GetVertex f j = Some v) \<and> Parent v = Some (i, Level u) \<and> LowestLevel f < Level v}"
proof -
  have c: "containers_inv f" and ch: "children_inv {} f"
    using inv by (auto simp: forest_inv_def inv_core_def)
  obtain p where p: "map_of (lf_vertices f) i = Some p" "c_vertex (lf_heap f ! p) = Some u"
    using i by (auto simp: GetVertex_Some_iff)
  then have "set (c_children (lf_heap f ! p)) = childrenOf {} f i (Level u)"
    using ch containers_invD(5) [OF c p(1) p(2)] by (simp add: children_inv_def)
  then show ?thesis
    using p by (auto simp: GetChildren_def set_map_filter childrenOf_def GetVertex_Some_iff)
qed

lemma forest_inv_vertex:
  assumes inv: "forest_inv f" and i: "GetVertex f i = Some v"
  shows "VertexID v = i" and "LowestLevel f \<le> Level v"
    and "LowestLevel f < Level v \<Longrightarrow> \<exists>pid pl. Parent v = Some (pid, pl) \<and> pl < Level v"
proof -
  have c: "containers_inv f" and pa: "parents_inv {} f"
    using inv by (auto simp: forest_inv_def inv_core_def)
  obtain p where p: "map_of (lf_vertices f) i = Some p" "c_vertex (lf_heap f ! p) = Some v"
    using i by (auto simp: GetVertex_Some_iff)
  show "VertexID v = i" "LowestLevel f \<le> Level v"
    using containers_invD(3,5) [OF c p(1)] p(2) by auto
  show "LowestLevel f < Level v \<Longrightarrow> \<exists>pid pl. Parent v = Some (pid, pl) \<and> pl < Level v"
    using pa p unfolding parents_inv_def by blast
qed

lemma GetVertex_new [simp]: "GetVertex (NewLevelledForest l) i = None"
  by (simp add: GetVertex_def NewLevelledForest_def)

lemma LowestLevel_new [simp]: "LowestLevel (NewLevelledForest l) = l"
  by (simp add: NewLevelledForest_def)

section \<open>Forests whose parents are all stored\<close>

text \<open>
  \<open>Forks\<close> adds a block only when its parent is stored or pruned. On that discipline no container
  is ever empty and every vertex above the lowest level has its parent in the forest.
\<close>

definition noEmptyContainer :: "'p LevelledForest \<Rightarrow> bool" where
  "noEmptyContainer f \<longleftrightarrow> (\<forall>i\<in>fst ` set (lf_vertices f). GetVertex f i \<noteq> None)"

definition full_forest :: "'p LevelledForest \<Rightarrow> bool" where
  "full_forest f \<longleftrightarrow> forest_inv f \<and> noEmptyContainer f"

text \<open>The parent of \<open>v\<close> is found by \<open>lookup\<close>, unless \<open>v\<close> has none to show or it is pruned.\<close>

definition parentStored ::
  "(Identifier \<Rightarrow> 'p vertex option) \<Rightarrow> uint64 \<Rightarrow> 'p vertex \<Rightarrow> bool" where
  "parentStored lookup lowest v \<longleftrightarrow>
     (lowest < Level v \<longrightarrow>
       (case Parent v of
          None \<Rightarrow> False
        | Some (pid, pl) \<Rightarrow>
            pl < Level v
            \<and> (lowest \<le> pl \<longrightarrow>
                (case lookup pid of None \<Rightarrow> False | Some u \<Rightarrow> Level u = pl \<and> VertexID u = pid))))"

lemma noEmptyContainer_map:
  "noEmptyContainer f \<longleftrightarrow> (\<forall>i p. map_of (lf_vertices f) i = Some p \<longrightarrow> GetVertex f i \<noteq> None)"
  unfolding noEmptyContainer_def dom_map_of_conv_image_fst [symmetric] by (simp add: Ball_def dom_def)

lemma getOrCreate_dom:
  "getOrCreateVertexContainer i l f = (p, f1) \<Longrightarrow>
     map_of (lf_vertices f1) j \<noteq> None \<Longrightarrow> j = i \<or> map_of (lf_vertices f) j \<noteq> None"
  by (auto simp: getOrCreateVertexContainer_def update_conv' Let_def
      split: option.splits if_splits)

lemma registerWithParent_dom:
  assumes "registerWithParent p f = Inr f'" and "c_vertex (lf_heap f ! p) = Some v"
    and "c_level (lf_heap f ! p) = Level v"
    and "\<forall>pid pl. LowestLevel f < Level v \<and> Parent v = Some (pid, pl) \<and> LowestLevel f \<le> pl \<longrightarrow>
          map_of (lf_vertices f) pid \<noteq> None"
    and "map_of (lf_vertices f') j \<noteq> None"
  shows "map_of (lf_vertices f) j \<noteq> None"
proof (cases "Parent v")
  case None
  with assms show ?thesis by (auto simp: registerWithParent_def Let_def split: if_splits)
next
  case (Some pp)
  obtain pid pl where pp: "pp = (pid, pl)" by fastforce
  obtain q f1 where g: "getOrCreateVertexContainer pid pl f = (q, f1)" by fastforce
  show ?thesis
  proof (cases "Level v \<le> LowestLevel f \<or> pl < LowestLevel f")
    case True
    with assms Some pp show ?thesis
      by (auto simp: registerWithParent_def Let_def split: if_splits)
  next
    case False
    then have "map_of (lf_vertices f) pid \<noteq> None"
      using assms(4) Some pp by (simp add: not_le not_less)
    moreover have "map_of (lf_vertices f1) j \<noteq> None"
      using assms False Some pp g by (auto simp: registerWithParent_def Let_def)
    ultimately show ?thesis using getOrCreate_dom [OF g] by blast
  qed
qed

lemma full_forest_parent:
  assumes full: "full_forest f" and i: "GetVertex f i = Some v"
  shows "parentStored (GetVertex f) (LowestLevel f) v"
proof (cases "LowestLevel f < Level v")
  case True
  have c: "containers_inv f" and pa: "parents_inv {} f" and ne: "noEmptyContainer f"
    using full by (auto simp: full_forest_def forest_inv_def inv_core_def)
  obtain p where "map_of (lf_vertices f) i = Some p" "c_vertex (lf_heap f ! p) = Some v"
    using i by (auto simp: GetVertex_Some_iff)
  with pa True obtain pid pl where P: "Parent v = Some (pid, pl)" "pl < Level v"
    and q: "LowestLevel f \<le> pl \<Longrightarrow>
      \<exists>q. map_of (lf_vertices f) pid = Some q \<and> c_level (lf_heap f ! q) = pl"
    unfolding parents_inv_def by blast
  have "\<exists>u. GetVertex f pid = Some u \<and> Level u = pl \<and> VertexID u = pid" if le: "LowestLevel f \<le> pl"
  proof -
    obtain q where q': "map_of (lf_vertices f) pid = Some q" "c_level (lf_heap f ! q) = pl"
      using q [OF le] by blast
    with ne obtain u where u: "GetVertex f pid = Some u"
      by (auto simp: noEmptyContainer_map)
    then have "c_vertex (lf_heap f ! q) = Some u" using q' by (auto simp: GetVertex_Some_iff)
    with containers_invD(5) [OF c q'(1)] q' u show ?thesis by simp
  qed
  with P show ?thesis by (auto simp: parentStored_def)
qed (simp add: parentStored_def)

lemma AddVertex_dom:
  assumes add: "AddVertex v f = Inr f'" and st: "parentStored (GetVertex f) (LowestLevel f) v"
    and lvl: "\<And>p. map_of (lf_vertices f) (VertexID v) = Some p \<Longrightarrow> c_level (lf_heap f ! p) = Level v"
    and j: "map_of (lf_vertices f') j \<noteq> None" and c: "containers_inv f"
  shows "j = VertexID v \<or> map_of (lf_vertices f) j \<noteq> None"
proof (cases "Level v < LowestLevel f")
  case True
  with assms show ?thesis by (simp add: AddVertex_def)
next
  case low: False
  obtain p f1 where g: "getOrCreateVertexContainer (VertexID v) (Level v) f = (p, f1)" by fastforce
  note dom = getOrCreate_dom [OF g, of j]
  show ?thesis
  proof (cases "isEmptyContainer (lf_heap f1 ! p)")
    case False
    with add low g have "f' = f1" by (simp add: AddVertex_def)
    with j dom show ?thesis by blast
  next
    case True
    let ?f2 = "f1\<lparr>lf_heap := (lf_heap f1)[p := (lf_heap f1 ! p)\<lparr>c_vertex := Some v\<rparr>]\<rparr>"
    obtain f3 where reg: "registerWithParent p ?f2 = Inr f3" "lf_vertices f3 = lf_vertices f'"
      using add low g True by (auto simp: AddVertex_def split: sum.splits)
    have p: "p < length (lf_heap f1) \<and> c_level (lf_heap f1 ! p) = Level v \<and> LowestLevel f1 = LowestLevel f
        \<and> (\<forall>k. map_of (lf_vertices f) k \<noteq> None \<longrightarrow> map_of (lf_vertices f1) k \<noteq> None)"
      using g lvl containers_invD(1) [OF c]
      by (auto simp: getOrCreateVertexContainer_def update_conv' Let_def split: option.splits)
    have "map_of (lf_vertices f) pid \<noteq> None"
      if "LowestLevel f < Level v" "Parent v = Some (pid, pl)" "LowestLevel f \<le> pl" for pid pl
      using st that by (auto simp: parentStored_def GetVertex_def split: option.splits)
    with p have "map_of (lf_vertices f1) j \<noteq> None"
      using registerWithParent_dom [OF reg(1), of v j] j reg(2) by auto
    with dom show ?thesis by blast
  qed
qed

lemma parentStored_consistent:
  assumes full: "full_forest f" and st: "parentStored (GetVertex f) (LowestLevel f) v"
    and new: "GetVertex f (VertexID v) = None"
  shows "parentLevelConsistent f v"
  unfolding parentLevelConsistent_def
proof (intro impI)
  assume lt: "LowestLevel f < Level v"
  have c: "containers_inv f" using full by (simp add: full_forest_def forest_inv_def inv_core_def)
  from lt st obtain pid pl where P: "Parent v = Some (pid, pl)"
    and u: "LowestLevel f \<le> pl \<Longrightarrow> \<exists>u. GetVertex f pid = Some u \<and> Level u = pl"
    by (auto simp: parentStored_def split: option.splits)
  have "pid \<noteq> VertexID v \<and> (case map_of (lf_vertices f) pid of
      None \<Rightarrow> True | Some q \<Rightarrow> c_level (lf_heap f ! q) = pl)" if le: "LowestLevel f \<le> pl"
  proof -
    obtain u q where uq: "GetVertex f pid = Some u" "Level u = pl"
      "map_of (lf_vertices f) pid = Some q" "c_vertex (lf_heap f ! q) = Some u"
      using u [OF le] GetVertex_Some_iff [of f pid] by blast
    have "c_level (lf_heap f ! q) = pl"
      using containers_invD(5) [OF c uq(3,4)] uq(2) by simp
    moreover have "pid \<noteq> VertexID v" using uq(1) new by auto
    ultimately show ?thesis using uq(3) by simp
  qed
  with P show "case Parent v of None \<Rightarrow> True | Some (pid, pl) \<Rightarrow> LowestLevel f \<le> pl \<longrightarrow>
      pid \<noteq> VertexID v \<and> (case map_of (lf_vertices f) pid of
        None \<Rightarrow> True | Some q \<Rightarrow> c_level (lf_heap f ! q) = pl)" by simp
qed

lemma AddVertex_known:
  assumes "full_forest f" and "GetVertex f (VertexID v) = Some w"
  shows "AddVertex v f = Inr f"
  using assms
  by (auto simp: AddVertex_def getOrCreateVertexContainer_def GetVertex_Some_iff isEmptyContainer_def)

lemma AddVertex_full:
  assumes full: "full_forest f" and ok: "VerifyVertex f v = Inr ()"
    and st: "parentStored (GetVertex f) (LowestLevel f) v"
  shows "\<exists>f'. AddVertex v f = Inr f' \<and> full_forest f' \<and> LowestLevel f' = LowestLevel f
    \<and> GetVertex f' = (if LowestLevel f \<le> Level v \<and> GetVertex f (VertexID v) = None
        then (GetVertex f)(VertexID v \<mapsto> v) else GetVertex f)"
proof (cases "LowestLevel f \<le> Level v \<and> GetVertex f (VertexID v) = None")
  case False
  then have "AddVertex v f = Inr f"
    using AddVertex_known [OF full, of v]
    by (cases "Level v < LowestLevel f") (simp_all add: AddVertex_def not_less, blast)
  with full False show ?thesis by auto
next
  case True
  have inv: "forest_inv f" and c: "containers_inv f"
    using full by (auto simp: full_forest_def forest_inv_def inv_core_def)
  obtain f' where f': "AddVertex v f = Inr f'" "forest_inv f'" "LowestLevel f' = LowestLevel f"
    "GetVertex f' = (GetVertex f)(VertexID v \<mapsto> v)"
    using AddVertex_spec [OF inv ok parentStored_consistent [OF full st]] True by auto
  have lvl: "c_level (lf_heap f ! p) = Level v" if "map_of (lf_vertices f) (VertexID v) = Some p" for p
    using VerifyVertex_new(2) [OF ok _ _ that] True by (simp add: not_less)
  have "noEmptyContainer f'"
    unfolding noEmptyContainer_map
  proof (intro allI impI)
    fix i p assume "map_of (lf_vertices f') i = Some p"
    then have "i = VertexID v \<or> map_of (lf_vertices f) i \<noteq> None"
      using AddVertex_dom [OF f'(1) st lvl _ c] by simp
    moreover have "map_of (lf_vertices f) i \<noteq> None \<longrightarrow> GetVertex f i \<noteq> None"
      using full unfolding full_forest_def noEmptyContainer_map by blast
    ultimately show "GetVertex f' i \<noteq> None" unfolding f'(4) by (cases "i = VertexID v") simp_all
  qed
  with f' True show ?thesis by (auto simp: full_forest_def)
qed

lemma prunedTo_sub:
  assumes "prunedTo hp level (vs, vl, n) (vs', vl', n')" and "map_of vs' i = Some p"
  shows "map_of vs i = Some p"
proof -
  have "map_of vs' i = (case map_of vs i of None \<Rightarrow> None
      | Some p \<Rightarrow> if c_level (hp ! p) < level then None else Some p)"
    using assms(1) by (simp add: prunedTo_def)
  with assms(2) show ?thesis by (auto split: option.splits if_splits)
qed

lemma PruneUpToLevel_sub:
  assumes core: "inv_core {} f" and f': "PruneUpToLevel level f = Inr f'"
  shows "lf_heap f' = lf_heap f"
    and "map_of (lf_vertices f') i = Some p \<Longrightarrow> map_of (lf_vertices f) i = Some p"
proof -
  show "lf_heap f' = lf_heap f"
    using f' by (auto simp: PruneUpToLevel_def split: if_splits prod.splits)
  assume p: "map_of (lf_vertices f') i = Some p"
  consider "f' = f\<lparr>LowestLevel := level\<rparr>"
    | vl n where "prunedTo (lf_heap f) level (lf_vertices f, lf_verticesAtLevel f, 0) (lf_vertices f', vl, n)"
    using f' prune_loops [OF core, of level]
    by (auto simp: PruneUpToLevel_def split: if_splits prod.splits)
  then show "map_of (lf_vertices f) i = Some p"
    using p by cases (simp, blast intro: prunedTo_sub)
qed

lemma PruneUpToLevel_full:
  assumes full: "full_forest f" and le: "LowestLevel f \<le> level"
  shows "\<exists>f'. PruneUpToLevel level f = Inr f' \<and> full_forest f' \<and> LowestLevel f' = level
    \<and> (\<forall>i. GetVertex f' i = (case GetVertex f i of None \<Rightarrow> None
          | Some v \<Rightarrow> if Level v < level then None else Some v))"
proof -
  have inv: "forest_inv f" and core: "inv_core {} f"
    using full by (auto simp: full_forest_def forest_inv_def)
  obtain f' where f': "PruneUpToLevel level f = Inr f'" "forest_inv f'" "LowestLevel f' = level"
    "\<forall>i. GetVertex f' i = (case GetVertex f i of None \<Rightarrow> None
          | Some v \<Rightarrow> if Level v < level then None else Some v)"
    using PruneUpToLevel_spec [OF inv le] by blast
  note sub = PruneUpToLevel_sub [OF core f'(1)]
  have "noEmptyContainer f'"
    unfolding noEmptyContainer_map
  proof (intro allI impI)
    fix i p assume "map_of (lf_vertices f') i = Some p"
    moreover from this have "GetVertex f i \<noteq> None"
      using sub full unfolding full_forest_def noEmptyContainer_map by blast
    ultimately show "GetVertex f' i \<noteq> None" using sub by (auto simp: GetVertex_def split: if_splits)
  qed
  with f' show ?thesis by (auto simp: full_forest_def)
qed

section \<open>The contract of the forest\<close>

text \<open>
  \<open>ancestors n lookup low (i, l)\<close>: the vertices met when the reference \<open>(i, l)\<close> and then parent
  references are followed while they are above level \<open>low\<close>, oldest first, and the reference at
  which this stops. Levels decrease along parents, so \<open>unat l + 1\<close> steps are always enough.
\<close>

fun ancestors ::
  "nat \<Rightarrow> (Identifier \<Rightarrow> 'p vertex option) \<Rightarrow> uint64 \<Rightarrow> Identifier \<times> uint64
    \<Rightarrow> 'p vertex list \<times> (Identifier \<times> uint64)" where
  "ancestors 0 lookup low (i, l) = ([], (i, l))"
| "ancestors (Suc n) lookup low (i, l) =
     (if l \<le> low then ([], (i, l))
      else case lookup i of
        None \<Rightarrow> ([], (i, l))
      | Some v \<Rightarrow>
          (case Parent v of
             None \<Rightarrow> ([v], (i, l))
           | Some r \<Rightarrow> (case ancestors n lookup low r of (vs, r') \<Rightarrow> (vs @ [v], r'))))"

text \<open>Consecutive vertices of a list are parent and child, the first one a child of \<open>r\<close>.\<close>

fun linked :: "Identifier \<times> uint64 \<Rightarrow> 'p vertex list \<Rightarrow> bool" where
  "linked r [] \<longleftrightarrow> True"
| "linked r (v # vs) \<longleftrightarrow> Parent v = Some r \<and> snd r < Level v \<and> linked (VertexID v, Level v) vs"

lemma linked_append:
  "linked r (vs @ [v]) \<longleftrightarrow>
     linked r vs \<and> (let p = (if vs = [] then r else (VertexID (last vs), Level (last vs))) in
       Parent v = Some p \<and> snd p < Level v)"
  by (induction r vs rule: linked.induct) (auto simp: Let_def)

text \<open>
  What a client such as \<open>Forks\<close> relies on: stored vertices have their id, are not below the
  lowest level and have a stored or pruned parent; adding a checked vertex whose parent is stored
  changes the lookup of that vertex only; pruning removes exactly the lower levels; the two
  iterators visit the vertices of a level and the children of a vertex.
\<close>

locale forest_contract =
  fixes lookup :: "'f \<Rightarrow> Identifier \<Rightarrow> 'p vertex option"
    and lowest :: "'f \<Rightarrow> uint64"
    and verify :: "'f \<Rightarrow> 'p vertex \<Rightarrow> unit result"
    and add :: "'p vertex \<Rightarrow> 'f \<Rightarrow> 'f result"
    and prune :: "uint64 \<Rightarrow> 'f \<Rightarrow> 'f result"
    and at_level :: "'f \<Rightarrow> uint64 \<Rightarrow> 'p vertex list"
    and children :: "'f \<Rightarrow> Identifier \<Rightarrow> 'p vertex list"
    and invar :: "'f \<Rightarrow> bool"
  assumes lookup_id: "invar f \<Longrightarrow> lookup f i = Some v \<Longrightarrow> VertexID v = i"
    and lookup_level: "invar f \<Longrightarrow> lookup f i = Some v \<Longrightarrow> lowest f \<le> Level v"
    and lookup_parent: "invar f \<Longrightarrow> lookup f i = Some v \<Longrightarrow> parentStored (lookup f) (lowest f) v"
    and add_spec: "invar f \<Longrightarrow> verify f v = Inr () \<Longrightarrow> parentStored (lookup f) (lowest f) v \<Longrightarrow>
      \<exists>f'. add v f = Inr f' \<and> invar f' \<and> lowest f' = lowest f
        \<and> lookup f' = (if lowest f \<le> Level v \<and> lookup f (VertexID v) = None
            then (lookup f)(VertexID v \<mapsto> v) else lookup f)"
    and prune_spec: "invar f \<Longrightarrow> lowest f \<le> l \<Longrightarrow>
      \<exists>f'. prune l f = Inr f' \<and> invar f' \<and> lowest f' = l
        \<and> (\<forall>i. lookup f' i = (case lookup f i of None \<Rightarrow> None
              | Some v \<Rightarrow> if Level v < l then None else Some v))"
    and prune_below: "l < lowest f \<Longrightarrow> prune l f = Inl (BelowPrunedThresholdError Errorf)"
    and at_level_spec: "invar f \<Longrightarrow> set (at_level f l) = {v. \<exists>i. lookup f i = Some v \<and> Level v = l}"
    and children_spec: "invar f \<Longrightarrow> lookup f i = Some u \<Longrightarrow>
      set (children f i) =
        {v. (\<exists>j. lookup f j = Some v) \<and> Parent v = Some (i, Level u) \<and> lowest f < Level v}"
begin

text \<open>A reference to a vertex that is stored, or to one that is not above the given level.\<close>

definition resolves :: "'f \<Rightarrow> uint64 \<Rightarrow> Identifier \<times> uint64 \<Rightarrow> bool" where
  "resolves f low r \<longleftrightarrow> snd r \<le> low \<or> (\<exists>v. lookup f (fst r) = Some v \<and> Level v = snd r)"

lemma parent_resolves:
  assumes "invar f" and "lookup f i = Some v" and "lowest f \<le> low" and "\<not> Level v \<le> low"
  shows "\<exists>r. Parent v = Some r \<and> snd r < Level v \<and> resolves f low r"
proof -
  have "parentStored (lookup f) (lowest f) v" "lowest f < Level v"
    using assms lookup_parent by auto
  with assms(3) show ?thesis
    by (fastforce simp: parentStored_def resolves_def split: option.splits)
qed

lemma ancestors_path:
  assumes inv: "invar f" and low: "lowest f \<le> low"
  shows "resolves f low r \<Longrightarrow> unat (snd r) < n \<Longrightarrow> ancestors n (lookup f) low r = (vs, r') \<Longrightarrow>
     linked r' vs \<and> snd r' \<le> low \<and> (\<forall>v\<in>set vs. low < Level v \<and> lookup f (VertexID v) = Some v)
     \<and> (if vs = [] then r' = r else (VertexID (last vs), Level (last vs)) = r)"
proof (induction n arbitrary: r vs r')
  case 0
  then show ?case by simp
next
  case (Suc n)
  obtain i l where r: "r = (i, l)" by fastforce
  show ?case
  proof (cases "l \<le> low")
    case True
    with Suc.prems r show ?thesis by auto
  next
    case False
    then obtain v where v: "lookup f i = Some v" "Level v = l"
      using Suc.prems(1) r by (auto simp: resolves_def)
    obtain p where p: "Parent v = Some p" "snd p < Level v" "resolves f low p"
      using parent_resolves [OF inv v(1) low] False v(2) by blast
    obtain us where us: "ancestors n (lookup f) low p = (us, r')" "vs = us @ [v]"
      using Suc.prems(3) False v p r by (auto split: prod.splits)
    have "unat (snd p) < n"
      using p(2) v(2) Suc.prems(2) r by (auto simp: word_less_nat_alt)
    note IH = Suc.IH [OF p(3) this us(1)]
    have "VertexID v = i" using lookup_id [OF inv v(1)] .
    with IH us(2) p(1,2) v False r show ?thesis
      by (auto simp: linked_append Let_def split: if_splits)
  qed
qed

lemma ancestors_fuel:
  assumes inv: "invar f" and low: "lowest f \<le> low"
  shows "resolves f low r \<Longrightarrow> unat (snd r) < n \<Longrightarrow>
     ancestors n (lookup f) low r = ancestors (Suc (unat (snd r))) (lookup f) low r"
proof (induction n arbitrary: r rule: less_induct)
  case (less n)
  obtain i l where r: "r = (i, l)" by fastforce
  obtain m where n: "n = Suc m" using less.prems(2) by (cases n) auto
  show ?case
  proof (cases "l \<le> low")
    case True
    then show ?thesis by (simp add: r n)
  next
    case False
    then obtain v where v: "lookup f i = Some v" "Level v = l"
      using less.prems(1) r by (auto simp: resolves_def)
    obtain p where p: "Parent v = Some p" "snd p < Level v" "resolves f low p"
      using parent_resolves [OF inv v(1) low] False v(2) by blast
    have lt: "unat (snd p) < unat l" using p(2) v(2) by (simp add: word_less_nat_alt)
    have "unat (snd p) < m" using lt less.prems(2) r n by simp
    then have "ancestors m (lookup f) low p = ancestors (Suc (unat (snd p))) (lookup f) low p"
      using less.IH [of m p] p(3) n by simp
    moreover have "ancestors (unat l) (lookup f) low p = ancestors (Suc (unat (snd p))) (lookup f) low p"
      using less.IH [of "unat l" p] p(3) lt less.prems(2) n r by simp
    ultimately show ?thesis using False v p by (simp add: r n)
  qed
qed

text \<open>Levels at or above \<open>low\<close> decide the path, so pruning to \<open>low\<close> does not change it.\<close>

lemma ancestors_prune:
  assumes inv: "invar f" and low: "lowest f \<le> low"
    and pr: "\<forall>i. lookup f' i = (case lookup f i of None \<Rightarrow> None
              | Some v \<Rightarrow> if Level v < l then None else Some v)" and l: "l \<le> low"
  shows "resolves f low r \<Longrightarrow> ancestors n (lookup f') low r = ancestors n (lookup f) low r"
proof (induction n arbitrary: r)
  case 0
  then show ?case by (cases r) simp
next
  case (Suc n)
  obtain i k where r: "r = (i, k)" by fastforce
  show ?case
  proof (cases "k \<le> low")
    case False
    then obtain v where v: "lookup f i = Some v" "Level v = k"
      using Suc.prems r by (auto simp: resolves_def)
    then have v': "lookup f' i = Some v" using pr False l by simp
    obtain p where "Parent v = Some p" "resolves f low p"
      using parent_resolves [OF inv v(1) low] False v(2) by blast
    with Suc.IH [of p] v v' r show ?thesis by simp
  qed (simp add: r)
qed

text \<open>Adding a vertex and then pruning is pruning first, unless the vertex is pruned away.\<close>

lemma add_prune_lookup:
  assumes "invar f" and "verify f v = Inr ()" and "parentStored (lookup f) (lowest f) v"
    and "lowest f \<le> l"
  shows "\<exists>f1 f2. add v f = Inr f1 \<and> prune l f1 = Inr f2 \<and> invar f2 \<and> lowest f2 = l
    \<and> (\<forall>i w. lookup f2 i = Some w \<longleftrightarrow>
          l \<le> Level w \<and> (lookup f i = Some w \<or> i = VertexID v \<and> w = v \<and> lookup f i = None))"
proof -
  obtain f1 where f1: "add v f = Inr f1" "invar f1" "lowest f1 = lowest f"
    "lookup f1 = (if lowest f \<le> Level v \<and> lookup f (VertexID v) = None
            then (lookup f)(VertexID v \<mapsto> v) else lookup f)"
    using add_spec [OF assms(1-3)] by blast
  have "lowest f1 \<le> l" using f1(3) assms(4) by simp
  then obtain f2 where f2: "prune l f1 = Inr f2" "invar f2" "lowest f2 = l"
    "\<forall>i. lookup f2 i = (case lookup f1 i of None \<Rightarrow> None
              | Some v \<Rightarrow> if Level v < l then None else Some v)"
    using prune_spec [OF f1(2)] by blast
  have "lookup f2 i = Some w \<longleftrightarrow>
      l \<le> Level w \<and> (lookup f i = Some w \<or> i = VertexID v \<and> w = v \<and> lookup f i = None)" for i w
  proof (cases "lookup f i")
    case None
    then have "lookup f1 i = (if i = VertexID v \<and> lowest f \<le> Level v then Some v else None)"
      by (auto simp: f1(4))
    with None f2(4) [rule_format, of i] assms(4) show ?thesis by auto
  next
    case (Some u)
    then have "lookup f1 i = Some u" by (auto simp: f1(4))
    with Some f2(4) [rule_format, of i] show ?thesis by auto
  qed
  with f1 f2 show ?thesis by blast
qed

end

lemma full_forest_new: "full_forest (NewLevelledForest l)"
  by (simp add: full_forest_def noEmptyContainer_def forest_inv_def inv_core_def NewLevelledForest_def
      keys_inv_def containers_inv_def levels_inv_def children_inv_def parents_inv_def levelList_def
      fullIDs_def)

interpretation lf: forest_contract
  GetVertex LowestLevel VerifyVertex AddVertex PruneUpToLevel
  "\<lambda>f l. allVertices (lf_heap f) (GetVerticesAtLevel f l)"
  "\<lambda>f i. allVertices (lf_heap f) (GetChildren f i)"
  full_forest
proof (unfold_locales, goal_cases)
  case 1
  then show ?case by (auto simp: full_forest_def intro: forest_inv_vertex(1))
next
  case 2
  then show ?case by (auto simp: full_forest_def intro: forest_inv_vertex(2))
next
  case 3
  then show ?case by (rule full_forest_parent)
next
  case 4
  then show ?case by (rule AddVertex_full)
next
  case 5
  then show ?case by (rule PruneUpToLevel_full)
next
  case 6
  then show ?case by (simp add: PruneUpToLevel_def)
next
  case 7
  then show ?case by (simp add: full_forest_def allVertices_at_level)
next
  case 8
  then show ?case by (simp add: full_forest_def allVertices_children)
qed

section \<open>Properties\<close>

inductive forest_reachable :: "'p LevelledForest \<Rightarrow> bool" where
  forest_new: "forest_reachable (NewLevelledForest l)"
| forest_add: "forest_reachable f \<Longrightarrow> VerifyVertex f v = Inr () \<Longrightarrow> parentLevelConsistent f v \<Longrightarrow>
    AddVertex v f = Inr f' \<Longrightarrow> forest_reachable f'"
| forest_prune: "forest_reachable f \<Longrightarrow> PruneUpToLevel l f = Inr f' \<Longrightarrow> forest_reachable f'"

lemma forest_reachable_inv: "forest_reachable f \<Longrightarrow> forest_inv f"
proof (induction rule: forest_reachable.induct)
  case (forest_new l)
  show ?case by (rule conjunct1 [OF full_forest_new [unfolded full_forest_def]])
next
  case (forest_add f v f')
  then show ?case using AddVertex_spec [of f v] by auto
next
  case (forest_prune f l f')
  then have "LowestLevel f \<le> l" by (auto simp: PruneUpToLevel_def not_less split: if_splits)
  with forest_prune PruneUpToLevel_spec [of f l] show ?case by auto
qed

text \<open>A small forest: vertex 1 at level 3 is the root, 2 at level 4 and 3 at level 6 its children.\<close>

definition exampleVertex :: "Identifier \<Rightarrow> uint64 \<Rightarrow> Identifier \<Rightarrow> uint64 \<Rightarrow> unit vertex" where
  "exampleVertex i l pid pl = \<lparr>VertexID = i, Level = l, Parent = Some (pid, pl), Payload = ()\<rparr>"

definition exampleForest :: "nat \<Rightarrow> unit LevelledForest" where
  "exampleForest n =
     fold (\<lambda>v f. projr (AddVertex v f))
       (take n [exampleVertex 1 3 0 0, exampleVertex 2 4 1 3, exampleVertex 3 6 1 3])
       (NewLevelledForest 3)"

lemma exampleForest_reachable: "forest_reachable (exampleForest 3)"
proof -
  have 0: "forest_reachable (exampleForest 0)"
    by (simp add: exampleForest_def forest_new)
  have 1: "forest_reachable (exampleForest 1)"
    by (rule forest_add [OF 0, of "exampleVertex 1 3 0 0"]) code_simp+
  have 2: "forest_reachable (exampleForest 2)"
    by (rule forest_add [OF 1, of "exampleVertex 2 4 1 3"]) code_simp+
  show ?thesis
    by (rule forest_add [OF 2, of "exampleVertex 3 6 1 3"]) code_simp+
qed

text \<open>
  C28: adding a checked vertex to a forest makes exactly that vertex visible, unless it is below
  the pruning threshold or already stored, and then changes no lookup; it never fails.
\<close>

theorem AddVertex_lookup:
  assumes "forest_reachable f" and "VerifyVertex f v = Inr ()" and "parentLevelConsistent f v"
  shows "\<exists>f'. AddVertex v f = Inr f' \<and> LowestLevel f' = LowestLevel f
    \<and> GetVertex f' = (if LowestLevel f \<le> Level v \<and> GetVertex f (VertexID v) = None
        then (GetVertex f)(VertexID v \<mapsto> v) else GetVertex f)"
  using AddVertex_spec [OF forest_reachable_inv [OF assms(1)] assms(2,3)] by auto

theorem AddVertex_lookup_witness:
  "\<exists>f'. AddVertex (exampleVertex 4 7 3 6) (exampleForest 3) = Inr f'
     \<and> GetVertex f' 4 = Some (exampleVertex 4 7 3 6) \<and> GetVertex f' 2 = Some (exampleVertex 2 4 1 3)"
proof -
  let ?v = "exampleVertex 4 7 3 6"
  have "VerifyVertex (exampleForest 3) ?v = Inr ()" by code_simp
  moreover have "parentLevelConsistent (exampleForest 3) ?v" by code_simp
  ultimately obtain f' where f': "AddVertex ?v (exampleForest 3) = Inr f'"
    "GetVertex f' = (if LowestLevel (exampleForest 3) \<le> Level ?v
        \<and> GetVertex (exampleForest 3) (VertexID ?v) = None
        then (GetVertex (exampleForest 3))(VertexID ?v \<mapsto> ?v) else GetVertex (exampleForest 3))"
    using AddVertex_lookup [OF exampleForest_reachable, of ?v] by blast
  moreover have "LowestLevel (exampleForest 3) \<le> Level ?v \<and> GetVertex (exampleForest 3) (VertexID ?v) = None"
    by code_simp
  moreover have "GetVertex (exampleForest 3) 2 = Some (exampleVertex 2 4 1 3)" by code_simp
  moreover have "VertexID ?v = 4" by code_simp
  ultimately show ?thesis by auto
qed

text \<open>
  C27: pruning to a level that is not below the threshold succeeds, moves the threshold there and
  removes exactly the vertices of lower levels, whichever of its two loops runs.
\<close>

theorem PruneUpToLevel_lookup:
  assumes "forest_reachable f" and "LowestLevel f \<le> level"
  shows "\<exists>f'. PruneUpToLevel level f = Inr f' \<and> LowestLevel f' = level
    \<and> (\<forall>i. GetVertex f' i = (case GetVertex f i of None \<Rightarrow> None
          | Some v \<Rightarrow> if Level v < level then None else Some v))"
  using PruneUpToLevel_spec [OF forest_reachable_inv [OF assms(1)] assms(2)] by auto

theorem PruneUpToLevel_lookup_witness:
  "\<exists>f'. PruneUpToLevel 4 (exampleForest 3) = Inr f'
     \<and> GetVertex f' 1 = None \<and> GetVertex f' 2 = Some (exampleVertex 2 4 1 3)"
proof -
  have "LowestLevel (exampleForest 3) \<le> 4" by code_simp
  then obtain f' where "PruneUpToLevel 4 (exampleForest 3) = Inr f'"
    "\<forall>i. GetVertex f' i = (case GetVertex (exampleForest 3) i of None \<Rightarrow> None
          | Some v \<Rightarrow> if Level v < 4 then None else Some v)"
    using PruneUpToLevel_lookup [OF exampleForest_reachable] by blast
  moreover have "GetVertex (exampleForest 3) 1 = Some (exampleVertex 1 3 0 0)"
    "GetVertex (exampleForest 3) 2 = Some (exampleVertex 2 4 1 3)" by code_simp+
  ultimately show ?thesis by (auto simp: exampleVertex_def)
qed

text \<open>
  C29: the two pruning loops agree: iterating over the stored levels and iterating over the level
  numbers leave the same containers and the same level lists and count the same number of removed
  vertices.
\<close>

theorem prune_loops_agree:
  assumes "forest_reachable f"
    and "pruneByMap (lf_heap f) level (lf_verticesAtLevel f) (lf_vertices f, lf_verticesAtLevel f, 0)
      = (vs, vl, n)"
    and "pruneByLevel (lf_heap f) (LowestLevel f) level (lf_vertices f, lf_verticesAtLevel f, 0)
      = (vs', vl', n')"
  shows "map_of vs = map_of vs' \<and> levelList vl = levelList vl' \<and> n = n'"
proof -
  have "inv_core {} f" using forest_reachable_inv [OF assms(1)] by (simp add: forest_inv_def)
  from prune_loops [OF this, of level]
  have P: "prunedTo (lf_heap f) level (lf_vertices f, lf_verticesAtLevel f, 0) (vs, vl, n)"
    "prunedTo (lf_heap f) level (lf_vertices f, lf_verticesAtLevel f, 0) (vs', vl', n')"
    using assms(2,3) by simp_all
  then have m: "map_of vs = map_of vs'" and l: "levelList vl = levelList vl'"
    by (auto simp: prunedTo_def fun_eq_iff)
  then have "fullIDs (lf_heap f) vs = fullIDs (lf_heap f) vs'" by (simp add: fullIDs_def)
  with P m l show ?thesis by (auto simp: prunedTo_def)
qed

theorem prune_loops_agree_witness:
  "snd (snd (pruneByMap (lf_heap (exampleForest 3)) 5 (lf_verticesAtLevel (exampleForest 3))
      (lf_vertices (exampleForest 3), lf_verticesAtLevel (exampleForest 3), 0)))
   = snd (snd (pruneByLevel (lf_heap (exampleForest 3)) (LowestLevel (exampleForest 3)) 5
      (lf_vertices (exampleForest 3), lf_verticesAtLevel (exampleForest 3), 0)))"
  using prune_loops_agree [OF exampleForest_reachable, of 5] by (auto simp: prod_eq_iff split_beta)

text \<open>
  C30: in every forest built by the operations, the size counter is the number of stored vertices,
  \<open>GetVerticesAtLevel\<close> iterates over exactly the stored vertices of the level, and
  \<open>GetChildren\<close> of a stored vertex over exactly the stored vertices above the threshold that name
  it as their parent.
\<close>

theorem forest_queries:
  assumes "forest_reachable f" and "GetVertex f i = Some u"
  shows "GetSize f = of_nat (card {i. HasVertex f i})
    \<and> set (allVertices (lf_heap f) (GetVerticesAtLevel f l)) = {v. \<exists>i. GetVertex f i = Some v \<and> Level v = l}
    \<and> set (allVertices (lf_heap f) (GetChildren f i)) =
        {v. (\<exists>j. GetVertex f j = Some v) \<and> Parent v = Some (i, Level u) \<and> LowestLevel f < Level v}"
proof -
  note inv = forest_reachable_inv [OF assms(1)]
  have "HasVertex f i \<longleftrightarrow> i \<in> fullIDs (lf_heap f) (lf_vertices f)" for i
    by (auto simp: HasVertex_def fullIDs_def isEmptyContainer_def split: option.splits)
  then have "GetSize f = of_nat (card {i. HasVertex f i})"
    using inv by (simp add: GetSize_def forest_inv_def)
  with allVertices_at_level [OF inv] allVertices_children [OF inv assms(2)] show ?thesis by blast
qed

theorem forest_queries_witness:
  "set (allVertices (lf_heap (exampleForest 3)) (GetChildren (exampleForest 3) 1)) =
      {v. (\<exists>j. GetVertex (exampleForest 3) j = Some v) \<and> Parent v = Some (1, 3)
        \<and> LowestLevel (exampleForest 3) < Level v}
   \<and> length (allVertices (lf_heap (exampleForest 3)) (GetChildren (exampleForest 3) 1)) = 2"
proof -
  have 1: "GetVertex (exampleForest 3) 1 = Some (exampleVertex 1 3 0 0)" by code_simp
  have 2: "Level (exampleVertex 1 3 0 0) = 3" by code_simp
  have "length (allVertices (lf_heap (exampleForest 3)) (GetChildren (exampleForest 3) 1)) = 2"
    by code_simp
  with forest_queries [OF exampleForest_reachable 1] 2 show ?thesis by simp
qed

end
