(* ===== verification/Forks.thy ===== *)
theory Forks
  imports Levelled_Forest
begin

text \<open>
  \<open>consensus/hotstuff/forks\<close>: the tree of block proposals above the latest finalized block and
  Jolteon's finalization rule.

  The state of \<open>Forks\<close> is a record; operations take it and return it updated together with a
  result, also when the result is an error, because the code may have written the state before it
  fails. Calls to the finalization callback and to the notifier are appended to \<open>events\<close> in the
  order in which they are made. The callback is code outside this component: its answer is the
  parameter \<open>mf\<close>, which may depend on everything it was told before.
\<close>

section \<open>State\<close>

record BlockQC =
  BQ_Block :: Block
  BQ_QC :: QuorumCertificate

definition BlockContainer :: "Proposal \<Rightarrow> Proposal vertex" where
  "BlockContainer p =
     \<lparr>VertexID = B_BlockID (P_Block p), Level = B_View (P_Block p),
      Parent = map_option (\<lambda>qc. (QC_BlockID qc, QC_View qc)) (B_QC (P_Block p)),
      Payload = p\<rparr>"

datatype ForksEvent =
    MakeFinal Identifier
  | OnFinalizedBlock Block
  | OnBlockIncorporated Block
  | OnDoubleProposeDetected Block Block

type_synonym finalizer = "ForksEvent list \<Rightarrow> Identifier \<Rightarrow> unit result"

record Forks =
  forest :: "Proposal LevelledForest"
  newestView :: uint64
  lastFinalized :: BlockQC
  events :: "ForksEvent list"

record ancestryChain =
  ac_block :: Proposal
  ac_oneChain :: BlockQC
  ac_twoChain :: BlockQC

section \<open>Reading\<close>

definition FinalizedBlock :: "Forks \<Rightarrow> Block" where
  "FinalizedBlock f = BQ_Block (lastFinalized f)"

definition FinalizedView :: "Forks \<Rightarrow> uint64" where
  "FinalizedView f = B_View (BQ_Block (lastFinalized f))"

definition NewestView :: "Forks \<Rightarrow> uint64" where
  "NewestView f = newestView f"

definition GetProposal :: "Forks \<Rightarrow> Identifier \<Rightarrow> Proposal option" where
  "GetProposal f blockID = map_option Payload (GetVertex (forest f) blockID)"

definition GetProposalsForView :: "Forks \<Rightarrow> uint64 \<Rightarrow> Proposal list" where
  "GetProposalsForView f view =
     map Payload (allVertices (lf_heap (forest f)) (GetVerticesAtLevel (forest f) view))"

definition IsKnownBlock :: "Forks \<Rightarrow> Block \<Rightarrow> bool" where
  "IsKnownBlock f block \<longleftrightarrow> GetVertex (forest f) (B_BlockID block) \<noteq> None"

definition IsProcessingNeeded :: "Forks \<Rightarrow> Block \<Rightarrow> bool" where
  "IsProcessingNeeded f block \<longleftrightarrow>
     \<not> (B_View block < FinalizedView f \<or> IsKnownBlock f block)"

section \<open>Checks\<close>

definition VerifyProposal :: "Forks \<Rightarrow> Proposal \<Rightarrow> unit result" where
  "VerifyProposal f proposal =
     (let block = P_Block proposal in
      if B_View block < LowestLevel (forest f) then Inr ()
      else case VerifyVertex (forest f) (BlockContainer proposal) of
        Inl e \<Rightarrow> Inl (if IsInvalidVertexError e then plainf e else wrapf e)
      | Inr _ \<Rightarrow>
          if B_View block = LowestLevel (forest f) then Inr ()
          else (case B_QC block of
                  None \<Rightarrow> Inl Panic
                | Some qc \<Rightarrow>
                    if QC_View qc < LowestLevel (forest f) then Inr ()
                    else (case GetVertex (forest f) (QC_BlockID qc) of
                            None \<Rightarrow> Inl (MissingBlockError (QC_View qc) (QC_BlockID qc))
                          | Some _ \<Rightarrow> Inr ())))"

text \<open>The loop of \<open>checkForConflictingQCs\<close> over the vertices at the view of the QC.\<close>

fun conflictingLoop ::
  "Proposal LevelledForest \<Rightarrow> QuorumCertificate \<Rightarrow> Proposal vertex list \<Rightarrow> unit result" where
  "conflictingLoop fo qc [] = Inr ()"
| "conflictingLoop fo qc (otherBlock # rest) =
     (if QC_BlockID qc \<noteq> VertexID otherBlock
      then (case it_next (GetChildren fo (VertexID otherBlock)) of
              Some otherChild \<Rightarrow>
                (case B_QC (P_Block (Payload otherChild)) of
                   None \<Rightarrow> Inl Panic
                 | Some conflictingQC \<Rightarrow> Inl ByzantineThresholdExceededError)
            | None \<Rightarrow> conflictingLoop fo qc rest)
      else conflictingLoop fo qc rest)"

definition checkForConflictingQCs :: "Forks \<Rightarrow> QuorumCertificate option \<Rightarrow> unit result" where
  "checkForConflictingQCs f qc =
     (case qc of
        None \<Rightarrow> Inl Panic
      | Some qc \<Rightarrow>
          conflictingLoop (forest f) qc
            (allVertices (lf_heap (forest f)) (GetVerticesAtLevel (forest f) (QC_View qc))))"

definition checkForDoubleProposal :: "Proposal \<Rightarrow> Forks \<Rightarrow> Forks" where
  "checkForDoubleProposal p f =
     (let others = allVertices (lf_heap (forest f)) (GetVerticesAtLevel (forest f) (B_View (P_Block p)))
      in f\<lparr>events := events f
            @ map (\<lambda>v. OnDoubleProposeDetected (P_Block p) (P_Block (Payload v)))
                (filter (\<lambda>v. VertexID (BlockContainer p) \<noteq> VertexID v) others)\<rparr>)"

section \<open>Finalization\<close>

definition getNextAncestryLevel :: "Forks \<Rightarrow> Block \<Rightarrow> BlockQC result" where
  "getNextAncestryLevel f block =
     (if B_View block \<le> FinalizedView f then Inl ErrPrunedAncestry
      else case B_QC block of
        None \<Rightarrow> Inl Panic
      | Some qc \<Rightarrow>
          if QC_View qc < FinalizedView f then Inl ErrPrunedAncestry
          else (case GetVertex (forest f) (QC_BlockID qc) of
                  None \<Rightarrow> Inl (MissingBlockError (QC_View qc) (QC_BlockID qc))
                | Some parentVertex \<Rightarrow>
                    let parentBlock = P_Block (Payload parentVertex) in
                    if B_BlockID parentBlock \<noteq> QC_BlockID qc \<or> B_View parentBlock \<noteq> QC_View qc
                    then Inl Errorf
                    else Inr \<lparr>BQ_Block = parentBlock, BQ_QC = qc\<rparr>))"

definition getTwoChain :: "Forks \<Rightarrow> Proposal \<Rightarrow> ancestryChain result" where
  "getTwoChain f p =
     (case getNextAncestryLevel f (P_Block p) of
        Inl e \<Rightarrow> Inl e
      | Inr oneChain \<Rightarrow>
          (case getNextAncestryLevel f (BQ_Block oneChain) of
             Inl e \<Rightarrow> Inl e
           | Inr twoChain \<Rightarrow>
               Inr \<lparr>ac_block = p, ac_oneChain = oneChain, ac_twoChain = twoChain\<rparr>))"

text \<open>
  The end of \<open>finalizeUpToBlock\<close>, after the parent is finalized: the consistency check, the new
  last finalized block, pruning, the callback and the notification.
\<close>

definition finalizeBlock ::
  "finalizer \<Rightarrow> Proposal vertex \<Rightarrow> QuorumCertificate \<Rightarrow> Forks \<Rightarrow> unit result \<times> Forks" where
  "finalizeBlock mf blockVertex qc f =
     (let block = P_Block (Payload blockVertex) in
      if B_BlockID block \<noteq> QC_BlockID qc \<or> B_View block \<noteq> QC_View qc then (Inl Errorf, f)
      else
        let f1 = f\<lparr>lastFinalized := \<lparr>BQ_Block = block, BQ_QC = qc\<rparr>\<rparr> in
        (case PruneUpToLevel (B_View block) (forest f1) of
           Inl e \<Rightarrow> (Inl (if IsBelowPrunedThresholdError e then plainf e else wrapf e), f1)
         | Inr fo \<Rightarrow>
             let f2 = f1\<lparr>forest := fo, events := events f1 @ [MakeFinal (VertexID blockVertex)]\<rparr> in
             (case mf (events f1) (VertexID blockVertex) of
                Inl e \<Rightarrow> (Inl (wrapf e), f2)
              | Inr _ \<Rightarrow> (Inr (), f2\<lparr>events := events f2 @ [OnFinalizedBlock block]\<rparr>))))"

text \<open>
  The recursion follows the QCs of stored blocks towards the last finalized block. Nothing in the
  method bounds it, so it runs on fuel, and out of fuel is the fatal stack overflow of Go. Views
  decrease along stored QCs, so \<open>unat (QC_View qc) + 1\<close> calls are enough.
\<close>

fun finalizeUpToBlock ::
  "nat \<Rightarrow> finalizer \<Rightarrow> QuorumCertificate \<Rightarrow> Forks \<Rightarrow> unit result \<times> Forks" where
  "finalizeUpToBlock 0 mf qc f = (Inl Panic, f)"
| "finalizeUpToBlock (Suc n) mf qc f =
     (if QC_View qc < FinalizedView f then (Inl ByzantineThresholdExceededError, f)
      else if QC_View qc = FinalizedView f
      then (if B_BlockID (FinalizedBlock f) \<noteq> QC_BlockID qc
            then (Inl ByzantineThresholdExceededError, f)
            else (Inr (), f))
      else case GetVertex (forest f) (QC_BlockID qc) of
        None \<Rightarrow> (Inl Errorf, f)
      | Some blockVertex \<Rightarrow>
          (case B_QC (P_Block (Payload blockVertex)) of
             None \<Rightarrow> (Inl Panic, f)
           | Some parentQC \<Rightarrow>
               (case finalizeUpToBlock n mf parentQC f of
                  (Inl e, f1) \<Rightarrow> (Inl e, f1)
                | (Inr _, f1) \<Rightarrow> finalizeBlock mf blockVertex qc f1)))"

definition updateFinalizedBlockQC :: "finalizer \<Rightarrow> Proposal \<Rightarrow> Forks \<Rightarrow> unit result \<times> Forks" where
  "updateFinalizedBlockQC mf p f =
     (case getTwoChain f p of
        Inl e \<Rightarrow>
          (if errors_As (\<lambda>e. e = ErrPrunedAncestry) e then (Inr (), f)
           else if IsMissingBlockError e then (Inl (plainf e), f)
           else (Inl (wrapf e), f))
      | Inr chain \<Rightarrow>
          let b = ac_twoChain chain in
          if B_View (BQ_Block (ac_oneChain chain)) \<noteq> B_View (BQ_Block b) + 1 then (Inr (), f)
          else finalizeUpToBlock (Suc (unat (QC_View (BQ_QC b)))) mf (BQ_QC b) f)"

section \<open>Adding proposals\<close>

definition UnverifiedAddProposal :: "finalizer \<Rightarrow> Proposal \<Rightarrow> Forks \<Rightarrow> unit result \<times> Forks" where
  "UnverifiedAddProposal mf proposal f =
     (let block = P_Block proposal in
      if \<not> IsProcessingNeeded f block then (Inr (), f)
      else case checkForConflictingQCs f (B_QC block) of
        Inl e \<Rightarrow> (Inl e, f)
      | Inr _ \<Rightarrow>
          let f1 = checkForDoubleProposal proposal f in
          (case AddVertex (BlockContainer proposal) (forest f1) of
             Inl e \<Rightarrow> (Inl e, f1)
           | Inr fo \<Rightarrow>
               let f2 = f1\<lparr>forest := fo,
                          newestView := (if newestView f1 < B_View block then B_View block
                                         else newestView f1)\<rparr> in
               (case updateFinalizedBlockQC mf proposal f2 of
                  (Inl e, f3) \<Rightarrow> (Inl (wrapf e), f3)
                | (Inr _, f3) \<Rightarrow> (Inr (), f3\<lparr>events := events f3 @ [OnBlockIncorporated block]\<rparr>))))"

definition AddProposal :: "finalizer \<Rightarrow> Proposal \<Rightarrow> Forks \<Rightarrow> unit result \<times> Forks" where
  "AddProposal mf proposal f =
     (case VerifyProposal f proposal of
        Inl e \<Rightarrow> (Inl (if IsMissingBlockError e then plainf e else wrapf e), f)
      | Inr _ \<Rightarrow>
          (case UnverifiedAddProposal mf proposal f of
             (Inl e, f') \<Rightarrow> (Inl (wrapf e), f')
           | (Inr _, f') \<Rightarrow> (Inr (), f')))"

definition New_Forks :: "BlockQC \<Rightarrow> Forks result" where
  "New_Forks trustedRoot =
     (if B_BlockID (BQ_Block trustedRoot) \<noteq> QC_BlockID (BQ_QC trustedRoot)
         \<or> B_View (BQ_Block trustedRoot) \<noteq> QC_View (BQ_QC trustedRoot)
      then Inl (ConfigurationError Errorf)
      else
        let f = \<lparr>forest = NewLevelledForest (B_View (BQ_Block trustedRoot)),
                 newestView = B_View (BQ_Block trustedRoot), lastFinalized = trustedRoot,
                 events = []\<rparr>;
            p = \<lparr>P_Block = BQ_Block trustedRoot, P_SigData = [], P_LastViewTC = None\<rparr> in
        (case VerifyProposal f p of
           Inl e \<Rightarrow> Inl (wrapf e)
         | Inr _ \<Rightarrow>
             (case AddVertex (BlockContainer p) (forest f) of
                Inl e \<Rightarrow> Inl e
              | Inr fo \<Rightarrow> Inr (f\<lparr>forest := fo\<rparr>))))"

section \<open>The invariant of Forks\<close>

text \<open>
  The forest is pruned exactly to the last finalized block, which it stores; every vertex is the
  container of the proposal it carries; no stored block is newer than \<open>newestView\<close>; the QC kept
  with the last finalized block points to it.
\<close>

definition forks_inv :: "Forks \<Rightarrow> bool" where
  "forks_inv f \<longleftrightarrow>
     full_forest (forest f)
     \<and> (\<forall>i v. GetVertex (forest f) i = Some v \<longrightarrow>
          v = BlockContainer (Payload v) \<and> Level v \<le> newestView f)
     \<and> LowestLevel (forest f) = FinalizedView f
     \<and> (\<exists>v. GetVertex (forest f) (B_BlockID (FinalizedBlock f)) = Some v
          \<and> P_Block (Payload v) = FinalizedBlock f)
     \<and> QC_BlockID (BQ_QC (lastFinalized f)) = B_BlockID (FinalizedBlock f)
     \<and> QC_View (BQ_QC (lastFinalized f)) = FinalizedView f"

lemma forks_invD:
  assumes "forks_inv f"
  shows "full_forest (forest f)" and "LowestLevel (forest f) = FinalizedView f"
    and "GetVertex (forest f) i = Some v \<Longrightarrow> v = BlockContainer (Payload v)"
    and "GetVertex (forest f) i = Some v \<Longrightarrow> Level v \<le> newestView f"
    and "GetVertex (forest f) i = Some v \<Longrightarrow> FinalizedView f \<le> Level v"
    and "GetVertex (forest f) i = Some v \<Longrightarrow> VertexID v = i"
  using assms lf.lookup_level [of "forest f" i v] lf.lookup_id [of "forest f" i v]
  by (auto simp: forks_inv_def)

lemma BlockContainer_simps [simp]:
  "VertexID (BlockContainer p) = B_BlockID (P_Block p)"
  "Level (BlockContainer p) = B_View (P_Block p)"
  "Payload (BlockContainer p) = p"
  "Parent (BlockContainer p) = map_option (\<lambda>qc. (QC_BlockID qc, QC_View qc)) (B_QC (P_Block p))"
  by (simp_all add: BlockContainer_def)

lemma BlockContainer_fields:
  assumes "v = BlockContainer (Payload v)"
  shows "VertexID v = B_BlockID (P_Block (Payload v))" and "Level v = B_View (P_Block (Payload v))"
    and "Parent v = map_option (\<lambda>qc. (QC_BlockID qc, QC_View qc)) (B_QC (P_Block (Payload v)))"
  by (subst assms, simp)+

abbreviation qcRef :: "QuorumCertificate \<Rightarrow> Identifier \<times> uint64" where
  "qcRef qc \<equiv> (QC_BlockID qc, QC_View qc)"

abbreviation finalizedRef :: "Forks \<Rightarrow> Identifier \<times> uint64" where
  "finalizedRef f \<equiv> (B_BlockID (FinalizedBlock f), FinalizedView f)"

text \<open>\<open>f'\<close> stores what \<open>f\<close> stores from the last finalized view of \<open>f'\<close> on.\<close>

definition prunedForks :: "Forks \<Rightarrow> Forks \<Rightarrow> bool" where
  "prunedForks f f' \<longleftrightarrow>
     newestView f' = newestView f
     \<and> (\<forall>i. GetVertex (forest f') i = (case GetVertex (forest f) i of None \<Rightarrow> None
              | Some v \<Rightarrow> if Level v < FinalizedView f' then None else Some v))"

lemma prunedForks_refl: "forks_inv f \<Longrightarrow> prunedForks f f"
  using forks_invD(5) [of f] by (fastforce simp: prunedForks_def not_le split: option.splits)

lemma prunedForks_trans:
  assumes "prunedForks f g" and "prunedForks g h" and le: "FinalizedView g \<le> FinalizedView h"
  shows "prunedForks f h"
  unfolding prunedForks_def
proof (intro conjI allI)
  show "newestView h = newestView f" using assms by (simp add: prunedForks_def)
  fix i
  have "GetVertex (forest g) i = (case GetVertex (forest f) i of None \<Rightarrow> None
      | Some v \<Rightarrow> if Level v < FinalizedView g then None else Some v)"
    "GetVertex (forest h) i = (case GetVertex (forest g) i of None \<Rightarrow> None
      | Some v \<Rightarrow> if Level v < FinalizedView h then None else Some v)"
    using assms by (simp_all add: prunedForks_def)
  with le show "GetVertex (forest h) i = (case GetVertex (forest f) i of None \<Rightarrow> None
      | Some v \<Rightarrow> if Level v < FinalizedView h then None else Some v)"
    by (cases "GetVertex (forest f) i") auto
qed

lemma prunedForks_view:
  assumes "forks_inv f" and inv: "forks_inv f'" and pr: "prunedForks f f'"
  shows "FinalizedView f \<le> FinalizedView f'"
proof -
  let ?i = "B_BlockID (FinalizedBlock f')"
  obtain v where v: "GetVertex (forest f') ?i = Some v" "P_Block (Payload v) = FinalizedBlock f'"
    using inv by (auto simp: forks_inv_def)
  then have "Level v = FinalizedView f'"
    using BlockContainer_fields(2) [OF forks_invD(3) [OF inv v(1)]]
    by (simp add: FinalizedView_def FinalizedBlock_def)
  moreover have "GetVertex (forest f) ?i = Some v"
    using v(1) pr by (auto simp: prunedForks_def split: option.splits if_splits)
  ultimately show ?thesis using forks_invD(5) [OF assms(1)] by metis
qed

section \<open>Finalizing one block\<close>

definition finalEvents :: "Proposal vertex \<Rightarrow> ForksEvent list" where
  "finalEvents v = [MakeFinal (VertexID v), OnFinalizedBlock (P_Block (Payload v))]"

lemma finalizeBlock_spec:
  assumes inv: "forks_inv f" and v: "GetVertex (forest f) (QC_BlockID qc) = Some v"
    and lv: "Level v = QC_View qc"
  shows "\<exists>r f'. finalizeBlock mf v qc f = (r, f') \<and> forks_inv f' \<and> prunedForks f f'
    \<and> lastFinalized f' = \<lparr>BQ_Block = P_Block (Payload v), BQ_QC = qc\<rparr>
    \<and> (case mf (events f) (VertexID v) of
         Inr _ \<Rightarrow> r = Inr () \<and> events f' = events f @ finalEvents v
       | Inl e \<Rightarrow> r = Inl (wrapf e) \<and> events f' = events f @ [MakeFinal (VertexID v)])"
proof -
  note D = forks_invD [OF inv]
  have vb: "v = BlockContainer (Payload v)" using D(3) [OF v] .
  note vf = BlockContainer_fields [OF vb]
  have id: "VertexID v = QC_BlockID qc" using D(6) [OF v] .
  have le: "LowestLevel (forest f) \<le> QC_View qc" using D(2) D(5) [OF v] lv by simp
  obtain fo where fo: "PruneUpToLevel (QC_View qc) (forest f) = Inr fo" "full_forest fo"
    "LowestLevel fo = QC_View qc"
    "\<forall>i. GetVertex fo i = (case GetVertex (forest f) i of None \<Rightarrow> None
          | Some v \<Rightarrow> if Level v < QC_View qc then None else Some v)"
    using lf.prune_spec [OF D(1) le] by blast
  have vw: "B_View (P_Block (Payload v)) = QC_View qc" "B_BlockID (P_Block (Payload v)) = QC_BlockID qc"
    using vf id lv by simp_all
  define f2 where "f2 = f\<lparr>lastFinalized := \<lparr>BQ_Block = P_Block (Payload v), BQ_QC = qc\<rparr>, forest := fo,
      events := events f @ [MakeFinal (VertexID v)]\<rparr>"
  have st: "GetVertex fo (QC_BlockID qc) = Some v" using fo(4) v lv by simp
  have core: "forks_inv (f2\<lparr>events := es\<rparr>) \<and> prunedForks f (f2\<lparr>events := es\<rparr>)" for es
  proof
    have "FinalizedView (f2\<lparr>events := es\<rparr>) = QC_View qc" using vw by (simp add: f2_def FinalizedView_def)
    moreover have "forest (f2\<lparr>events := es\<rparr>) = fo" "newestView (f2\<lparr>events := es\<rparr>) = newestView f"
      by (simp_all add: f2_def)
    ultimately show "prunedForks f (f2\<lparr>events := es\<rparr>)"
      using fo(4) unfolding prunedForks_def by metis
    have "w = BlockContainer (Payload w) \<and> Level w \<le> newestView f" if "GetVertex fo i = Some w" for i w
      using that fo(4) D(3,4) [of i w] by (auto split: option.splits if_splits)
    then show "forks_inv (f2\<lparr>events := es\<rparr>)"
      using fo(2,3) st vw by (simp add: forks_inv_def f2_def FinalizedView_def FinalizedBlock_def)
  qed
  have fin: "finalizeBlock mf v qc f = (case mf (events f) (VertexID v) of
      Inl e \<Rightarrow> (Inl (wrapf e), f2)
    | Inr _ \<Rightarrow> (Inr (), f2\<lparr>events := events f2 @ [OnFinalizedBlock (P_Block (Payload v))]\<rparr>))"
    using fo(1) vw
    by (cases "mf (events f) (VertexID v)") (simp_all add: finalizeBlock_def f2_def Let_def)
  show ?thesis
  proof (cases "mf (events f) (VertexID v)")
    case (Inl e)
    with fin core [of "events f2"] show ?thesis by (simp add: f2_def)
  next
    case (Inr u)
    with fin core [of "events f2 @ [OnFinalizedBlock (P_Block (Payload v))]"] show ?thesis
      by (simp add: f2_def finalEvents_def)
  qed
qed

section \<open>Finalizing up to a block\<close>

text \<open>The path that \<open>finalizeUpToBlock\<close> takes through the forest and where it ends.\<close>

definition finalizationPath ::
  "Forks \<Rightarrow> QuorumCertificate \<Rightarrow> Proposal vertex list \<times> (Identifier \<times> uint64)" where
  "finalizationPath f qc =
     ancestors (Suc (unat (QC_View qc))) (GetVertex (forest f)) (FinalizedView f) (qcRef qc)"

definition qcStored :: "Forks \<Rightarrow> QuorumCertificate \<Rightarrow> bool" where
  "qcStored f qc \<longleftrightarrow> QC_View qc \<le> FinalizedView f
     \<or> (\<exists>v. GetVertex (forest f) (QC_BlockID qc) = Some v \<and> Level v = QC_View qc)"

lemma qcStored_resolves: "qcStored f qc = lf.resolves (forest f) (FinalizedView f) (qcRef qc)"
  by (simp add: qcStored_def lf.resolves_def)

lemma finalizationPath_step:
  assumes inv: "forks_inv f" and st: "qcStored f qc" and gt: "FinalizedView f < QC_View qc"
  obtains v pqc vs r where "GetVertex (forest f) (QC_BlockID qc) = Some v" "Level v = QC_View qc"
    "B_QC (P_Block (Payload v)) = Some pqc" "QC_View pqc < QC_View qc" "qcStored f pqc"
    "finalizationPath f pqc = (vs, r)" "finalizationPath f qc = (vs @ [v], r)"
proof -
  note D = forks_invD [OF inv]
  have low: "LowestLevel (forest f) \<le> FinalizedView f" using D(2) by simp
  obtain v where v: "GetVertex (forest f) (QC_BlockID qc) = Some v" "Level v = QC_View qc"
    using st gt by (auto simp: qcStored_def)
  note vf = BlockContainer_fields [OF D(3) [OF v(1)]]
  obtain p where p: "Parent v = Some p" "snd p < Level v" "lf.resolves (forest f) (FinalizedView f) p"
    using lf.parent_resolves [OF D(1) v(1) low] gt v(2) by (auto simp: not_le)
  then obtain pqc where pqc: "B_QC (P_Block (Payload v)) = Some pqc" "p = qcRef pqc"
    using vf(3) by auto
  obtain vs r where path: "finalizationPath f pqc = (vs, r)" by (cases "finalizationPath f pqc")
  have lt: "QC_View pqc < QC_View qc" using p(2) pqc(2) v(2) by simp
  then have "ancestors (unat (QC_View qc)) (GetVertex (forest f)) (FinalizedView f) p = (vs, r)"
    using lf.ancestors_fuel [OF D(1) low p(3), of "unat (QC_View qc)"] path pqc(2)
    by (simp add: finalizationPath_def word_less_nat_alt)
  then have "finalizationPath f qc = (vs @ [v], r)"
    using gt v p(1) by (simp add: finalizationPath_def not_le [symmetric])
  with that v pqc p lt path show thesis by (simp add: qcStored_resolves)
qed

lemma finalizationPath_facts:
  assumes inv: "forks_inv f" and st: "qcStored f qc" and path: "finalizationPath f qc = (vs, r)"
  shows "linked r vs" and "snd r \<le> FinalizedView f"
    and "v \<in> set vs \<Longrightarrow> FinalizedView f < Level v \<and> GetVertex (forest f) (VertexID v) = Some v"
    and "vs = [] \<Longrightarrow> r = qcRef qc"
    and "vs \<noteq> [] \<Longrightarrow> B_BlockID (P_Block (Payload (last vs))) = QC_BlockID qc
      \<and> B_View (P_Block (Payload (last vs))) = QC_View qc"
proof -
  note D = forks_invD [OF inv]
  have low: "LowestLevel (forest f) \<le> FinalizedView f" using D(2) by simp
  note P = lf.ancestors_path [OF D(1) low st [unfolded qcStored_resolves] _
      path [unfolded finalizationPath_def]]
  have P: "linked r vs \<and> snd r \<le> FinalizedView f
      \<and> (\<forall>v\<in>set vs. FinalizedView f < Level v \<and> GetVertex (forest f) (VertexID v) = Some v)
      \<and> (if vs = [] then r = qcRef qc else (VertexID (last vs), Level (last vs)) = qcRef qc)"
    by (rule P) simp
  then show "linked r vs" "snd r \<le> FinalizedView f" "vs = [] \<Longrightarrow> r = qcRef qc"
    "v \<in> set vs \<Longrightarrow> FinalizedView f < Level v \<and> GetVertex (forest f) (VertexID v) = Some v"
    by auto
  assume ne: "vs \<noteq> []"
  then have "last vs = BlockContainer (Payload (last vs))"
    using P last_in_set [OF ne] by (intro D(3) [of "VertexID (last vs)"]) blast
  from BlockContainer_fields [OF this] show "B_BlockID (P_Block (Payload (last vs))) = QC_BlockID qc
      \<and> B_View (P_Block (Payload (last vs))) = QC_View qc"
    using P ne by simp
qed

text \<open>
  What \<open>finalizeUpToBlock\<close> does, for a QC that points to a stored block: if the path of the QC
  does not end in the last finalized block, nothing changes and the Byzantine threshold was
  exceeded; otherwise the blocks of the path are finalized one by one, oldest first, until the
  callback fails or all are finalized.
\<close>

definition finalizes ::
  "finalizer \<Rightarrow> QuorumCertificate \<Rightarrow> Proposal vertex list \<Rightarrow> Forks \<Rightarrow> unit result \<Rightarrow> Forks \<Rightarrow> bool" where
  "finalizes mf qc vs f r f' \<longleftrightarrow>
     forks_inv f' \<and> prunedForks f f' \<and> FinalizedView f \<le> FinalizedView f'
     \<and> (case r of
          Inr _ \<Rightarrow>
            events f' = events f @ concat (map finalEvents vs)
            \<and> lastFinalized f' = (if vs = [] then lastFinalized f
                else \<lparr>BQ_Block = P_Block (Payload (last vs)), BQ_QC = qc\<rparr>)
        | Inl e \<Rightarrow>
            (\<exists>us v ws c. vs = us @ v # ws
              \<and> mf (events f @ concat (map finalEvents us)) (VertexID v) = Inl c \<and> e = wrapf c
              \<and> FinalizedBlock f' = P_Block (Payload v)
              \<and> events f' = events f @ concat (map finalEvents us) @ [MakeFinal (VertexID v)]))"

lemma finalizes_snoc:
  assumes f1: "finalizes mf pqc us f (Inr u) f1" and inv: "forks_inv f2" and pr: "prunedForks f1 f2"
    and last: "lastFinalized f2 = \<lparr>BQ_Block = P_Block (Payload v), BQ_QC = qc\<rparr>"
    and r: "case mf (events f1) (VertexID v) of
         Inr _ \<Rightarrow> r = Inr () \<and> events f2 = events f1 @ finalEvents v
       | Inl e \<Rightarrow> r = Inl (wrapf e) \<and> events f2 = events f1 @ [MakeFinal (VertexID v)]"
  shows "finalizes mf qc (us @ [v]) f r f2"
proof -
  have le: "FinalizedView f1 \<le> FinalizedView f2"
    using f1 by (intro prunedForks_view [OF _ inv pr]) (simp add: finalizes_def)
  have ev: "events f1 = events f @ concat (map finalEvents us)"
    using f1 by (simp add: finalizes_def)
  have "prunedForks f f2" "FinalizedView f \<le> FinalizedView f2"
    using f1 prunedForks_trans [OF _ pr le, of f] le by (auto simp: finalizes_def)
  moreover have "FinalizedBlock f2 = P_Block (Payload v)" by (simp add: FinalizedBlock_def last)
  ultimately show ?thesis
    using inv last r ev unfolding finalizes_def by (auto split: sum.splits)
qed

lemma finalizeUpToBlock_spec:
  assumes inv: "forks_inv f"
  shows "qcStored f qc \<Longrightarrow> unat (QC_View qc) < n \<Longrightarrow> finalizationPath f qc = (vs, r) \<Longrightarrow>
    (if r = finalizedRef f
     then \<exists>res f'. finalizeUpToBlock n mf qc f = (res, f') \<and> finalizes mf qc vs f res f'
     else finalizeUpToBlock n mf qc f = (Inl ByzantineThresholdExceededError, f))"
proof (induction n arbitrary: qc vs)
  case 0
  then show ?case by simp
next
  case (Suc n)
  show ?case
  proof (cases "FinalizedView f < QC_View qc")
    case False
    then have "vs = [] \<and> r = qcRef qc" using Suc.prems(3) by (auto simp: finalizationPath_def not_less)
    with False inv prunedForks_refl [OF inv] show ?thesis by (auto simp: finalizes_def)
  next
    case True
    obtain v pqc us where v: "GetVertex (forest f) (QC_BlockID qc) = Some v" "Level v = QC_View qc"
      "B_QC (P_Block (Payload v)) = Some pqc" "QC_View pqc < QC_View qc" "qcStored f pqc"
      and path: "finalizationPath f pqc = (us, r)" "vs = us @ [v]"
      using finalizationPath_step [OF inv Suc.prems(1) True] Suc.prems(3) by (metis prod.inject)
    have "unat (QC_View pqc) < n" using v(4) Suc.prems(2) by (simp add: word_less_nat_alt)
    note IH = Suc.IH [OF v(5) this path(1)]
    have eq: "finalizeUpToBlock (Suc n) mf qc f =
        (case finalizeUpToBlock n mf pqc f of
           (Inl e, f1) \<Rightarrow> (Inl e, f1) | (Inr _, f1) \<Rightarrow> finalizeBlock mf v qc f1)"
    proof -
      have "\<not> QC_View qc < FinalizedView f" "QC_View qc \<noteq> FinalizedView f" using True by auto
      with v show ?thesis by simp
    qed
    show ?thesis
    proof (cases "r = finalizedRef f")
      case False
      with IH eq show ?thesis by simp
    next
      case r: True
      then obtain res f1 where f1: "finalizeUpToBlock n mf pqc f = (res, f1)"
        "finalizes mf pqc us f res f1" using IH by auto
      show ?thesis
      proof (cases res)
        case (Inl e)
        then obtain us1 w ws c where "us = us1 @ w # ws"
          "mf (events f @ concat (map finalEvents us1)) (VertexID w) = Inl c" "e = wrapf c"
          "FinalizedBlock f1 = P_Block (Payload w)"
          "events f1 = events f @ concat (map finalEvents us1) @ [MakeFinal (VertexID w)]"
          using f1(2) by (auto simp: finalizes_def)
        moreover have "vs = us1 @ w # (ws @ [v])" using calculation path(2) by simp
        ultimately have "finalizes mf qc vs f (Inl e) f1"
          using f1(2) unfolding finalizes_def sum.case by blast
        with Inl f1 eq r show ?thesis by simp
      next
        case (Inr u)
        note F = finalizationPath_facts [OF inv v(5) path(1)]
        have "FinalizedView f1 = QC_View pqc"
          using f1(2) Inr F(4,5) r
          by (cases "us = []") (auto simp: finalizes_def FinalizedView_def)
        then have "GetVertex (forest f1) (QC_BlockID qc) = Some v"
          using f1(2) v(1,2,4) by (auto simp: finalizes_def prunedForks_def)
        moreover have "forks_inv f1" using f1(2) by (simp add: finalizes_def)
        ultimately obtain r' f2 where f2: "finalizeBlock mf v qc f1 = (r', f2)" "forks_inv f2"
          "prunedForks f1 f2" "lastFinalized f2 = \<lparr>BQ_Block = P_Block (Payload v), BQ_QC = qc\<rparr>"
          "case mf (events f1) (VertexID v) of
             Inr _ \<Rightarrow> r' = Inr () \<and> events f2 = events f1 @ finalEvents v
           | Inl e \<Rightarrow> r' = Inl (wrapf e) \<and> events f2 = events f1 @ [MakeFinal (VertexID v)]"
          using finalizeBlock_spec [of f1 qc v mf] v(2) by blast
        have "finalizes mf qc vs f r' f2"
          using finalizes_snoc [OF f1(2) [unfolded Inr] f2(2-5)] path(2) by simp
        with f1 f2 Inr r eq show ?thesis by simp
      qed
    qed
  qed
qed

declare finalizeUpToBlock.simps [simp del]

section \<open>Adding a proposal\<close>

lemma VerifyProposal_ok:
  assumes inv: "forks_inv f" and ok: "VerifyProposal f p = Inr ()"
    and need: "IsProcessingNeeded f (P_Block p)"
  shows "VerifyVertex (forest f) (BlockContainer p) = Inr ()"
    and "parentStored (GetVertex (forest f)) (LowestLevel (forest f)) (BlockContainer p)"
proof -
  note D = forks_invD [OF inv]
  have low: "\<not> B_View (P_Block p) < LowestLevel (forest f)"
    and new: "GetVertex (forest f) (B_BlockID (P_Block p)) = None"
    using need D(2) by (auto simp: IsProcessingNeeded_def IsKnownBlock_def)
  show vv: "VerifyVertex (forest f) (BlockContainer p) = Inr ()"
    using ok low by (auto simp: VerifyProposal_def Let_def split: sum.splits)
  show "parentStored (GetVertex (forest f)) (LowestLevel (forest f)) (BlockContainer p)"
  proof (cases "LowestLevel (forest f) < B_View (P_Block p)")
    case True
    have con: "ensureConsistentParent (forest f) (BlockContainer p) = Inr ()"
      using vv low new
      by (auto simp: VerifyVertex_def GetVertex_None_iff Let_def split: option.splits if_splits)
    then obtain qc where qc: "B_QC (P_Block p) = Some qc" "QC_View qc < B_View (P_Block p)"
      using True by (cases "B_QC (P_Block p)") (auto simp: ensureConsistentParent_def split: if_splits)
    have "\<exists>u. GetVertex (forest f) (QC_BlockID qc) = Some u \<and> Level u = QC_View qc"
      if le: "LowestLevel (forest f) \<le> QC_View qc"
    proof -
      have "B_View (P_Block p) \<noteq> LowestLevel (forest f)" using True by auto
      then obtain u where u: "GetVertex (forest f) (QC_BlockID qc) = Some u"
        using ok vv low le qc(1)
        by (auto simp: VerifyProposal_def Let_def not_less split: option.splits if_splits)
      with con qc True show ?thesis
        by (auto simp: ensureConsistentParent_def not_le split: if_splits)
    qed
    with qc D(6) show ?thesis by (fastforce simp: parentStored_def)
  qed (simp add: parentStored_def)
qed

text \<open>The state after \<open>AddVertex\<close>, before the finalized block is updated.\<close>

definition withVertex :: "Forks \<Rightarrow> Proposal \<Rightarrow> Forks \<Rightarrow> bool" where
  "withVertex f p f' \<longleftrightarrow>
     GetVertex (forest f') = (GetVertex (forest f))(B_BlockID (P_Block p) \<mapsto> BlockContainer p)
     \<and> lastFinalized f' = lastFinalized f
     \<and> newestView f' = max (newestView f) (B_View (P_Block p))
     \<and> (\<exists>bs. events f' = events f @ map (OnDoubleProposeDetected (P_Block p)) bs)"

lemma withVertex_GetProposal:
  "withVertex f p f2 \<Longrightarrow>
   GetProposal f2 i = (if i = B_BlockID (P_Block p) then Some p else GetProposal f i)"
  by (simp add: withVertex_def GetProposal_def)

lemma withVertex_inv:
  assumes inv: "forks_inv f" and wv: "withVertex f p f'" and full: "full_forest (forest f')"
    and low: "LowestLevel (forest f') = LowestLevel (forest f)"
    and new: "GetVertex (forest f) (B_BlockID (P_Block p)) = None"
  shows "forks_inv f'"
proof -
  have fv: "FinalizedView f' = FinalizedView f" "FinalizedBlock f' = FinalizedBlock f"
    using wv by (simp_all add: withVertex_def FinalizedView_def FinalizedBlock_def)
  have "v = BlockContainer (Payload v) \<and> Level v \<le> newestView f'" if "GetVertex (forest f') i = Some v" for i v
    using that wv forks_invD(3,4) [OF inv, of i v]
    by (auto simp: withVertex_def max_def split: if_splits)
  then show ?thesis
    using inv wv full low new unfolding forks_inv_def fv by (auto simp: withVertex_def)
qed

lemma UnverifiedAddProposal_add:
  assumes inv: "forks_inv f" and ok: "VerifyProposal f p = Inr ()"
    and need: "IsProcessingNeeded f (P_Block p)"
    and free: "checkForConflictingQCs f (B_QC (P_Block p)) = Inr ()"
  obtains f2 where "forks_inv f2" "withVertex f p f2"
    "UnverifiedAddProposal mf p f =
      (case updateFinalizedBlockQC mf p f2 of
         (Inl e, f3) \<Rightarrow> (Inl (wrapf e), f3)
       | (Inr _, f3) \<Rightarrow> (Inr (), f3\<lparr>events := events f3 @ [OnBlockIncorporated (P_Block p)]\<rparr>))"
proof -
  note D = forks_invD [OF inv]
  note V = VerifyProposal_ok [OF inv ok need]
  have new: "GetVertex (forest f) (B_BlockID (P_Block p)) = None" "FinalizedView f \<le> B_View (P_Block p)"
    using need by (auto simp: IsProcessingNeeded_def IsKnownBlock_def)
  obtain fo where fo: "AddVertex (BlockContainer p) (forest f) = Inr fo" "full_forest fo"
    "LowestLevel fo = LowestLevel (forest f)"
    "GetVertex fo = (GetVertex (forest f))(B_BlockID (P_Block p) \<mapsto> BlockContainer p)"
    using lf.add_spec [OF D(1) V] new D(2) by auto
  let ?f1 = "checkForDoubleProposal p f"
  define f2 where "f2 = ?f1\<lparr>forest := fo, newestView := max (newestView f) (B_View (P_Block p))\<rparr>"
  have wv: "withVertex f p f2"
    unfolding withVertex_def
  proof (intro conjI)
    show "\<exists>bs. events f2 = events f @ map (OnDoubleProposeDetected (P_Block p)) bs"
      unfolding f2_def checkForDoubleProposal_def Let_def
      by (rule exI [of _ "map (\<lambda>v. P_Block (Payload v)) (filter (\<lambda>v. VertexID (BlockContainer p) \<noteq> VertexID v)
           (allVertices (lf_heap (forest f)) (GetVerticesAtLevel (forest f) (B_View (P_Block p)))))"])
         simp
  qed (simp_all add: f2_def checkForDoubleProposal_def Let_def fo(4))
  have mx: "(if newestView f < B_View (P_Block p) then B_View (P_Block p) else newestView f)
      = max (newestView f) (B_View (P_Block p))" by (auto simp: max_def)
  have "forks_inv f2"
    using withVertex_inv [OF inv wv _ _ new(1)] fo by (simp add: f2_def)
  moreover have "UnverifiedAddProposal mf p f =
      (case updateFinalizedBlockQC mf p f2 of
         (Inl e, f3) \<Rightarrow> (Inl (wrapf e), f3)
       | (Inr _, f3) \<Rightarrow> (Inr (), f3\<lparr>events := events f3 @ [OnBlockIncorporated (P_Block p)]\<rparr>))"
    using need free fo(1) mx
    by (simp add: UnverifiedAddProposal_def Let_def f2_def checkForDoubleProposal_def)
  ultimately show thesis using that wv by blast
qed

section \<open>The finalization rule\<close>

text \<open>
  Jolteon's rule, stated on the blocks that are stored: block \<open>b\<close> is committed by \<open>b <- b' <~ b*\<close>,
  where \<open>b'\<close> is the parent of the new block \<open>b*\<close>, \<open>b\<close> the parent of \<open>b'\<close>, and the views of \<open>b\<close>
  and \<open>b'\<close> are consecutive.
\<close>

definition parentBlock :: "Forks \<Rightarrow> Block \<Rightarrow> (Block \<times> QuorumCertificate) option" where
  "parentBlock f b =
     (if B_View b \<le> FinalizedView f then None
      else case B_QC b of
        None \<Rightarrow> None
      | Some qc \<Rightarrow>
          (case GetProposal f (QC_BlockID qc) of
             None \<Rightarrow> None
           | Some p \<Rightarrow> if B_View (P_Block p) = QC_View qc then Some (P_Block p, qc) else None))"

definition commitRule :: "Forks \<Rightarrow> Block \<Rightarrow> (Block \<times> QuorumCertificate) option" where
  "commitRule f b =
     (case parentBlock f b of
        None \<Rightarrow> None
      | Some (b', _) \<Rightarrow>
          (case parentBlock f b' of
             None \<Rightarrow> None
           | Some (b'', qc) \<Rightarrow> if B_View b' = B_View b'' + 1 then Some (b'', qc) else None))"

lemma parentBlock_pruned:
  assumes inv: "forks_inv f" and qc: "B_QC b = Some qc" and lt: "QC_View qc < FinalizedView f"
  shows "parentBlock f b = None"
proof (cases "GetVertex (forest f) (QC_BlockID qc)")
  case None
  with qc show ?thesis by (simp add: parentBlock_def GetProposal_def)
next
  case (Some u)
  note D = forks_invD [OF inv]
  have "B_View (P_Block (Payload u)) \<noteq> QC_View qc"
    using D(5) [OF Some] BlockContainer_fields(2) [OF D(3) [OF Some]] lt by auto
  with qc Some show ?thesis by (simp add: parentBlock_def GetProposal_def)
qed

lemma parentBlock_known:
  assumes inv: "forks_inv f" and b: "FinalizedView f < B_View b" and qc: "B_QC b = Some qc"
    and u: "GetVertex (forest f) (QC_BlockID qc) = Some u" "Level u = QC_View qc"
  shows "parentBlock f b = Some (P_Block (Payload u), qc)"
    and "getNextAncestryLevel f b = Inr \<lparr>BQ_Block = P_Block (Payload u), BQ_QC = qc\<rparr>"
proof -
  note D = forks_invD [OF inv]
  note uf = BlockContainer_fields [OF D(3) [OF u(1)]]
  have le: "\<not> QC_View qc < FinalizedView f" "\<not> B_View b \<le> FinalizedView f"
    using D(5) [OF u(1)] u(2) b by auto
  with uf u qc show "parentBlock f b = Some (P_Block (Payload u), qc)"
    by (simp add: parentBlock_def GetProposal_def)
  have "B_BlockID (P_Block (Payload u)) = QC_BlockID qc" using D(6) [OF u(1)] uf(1) by simp
  with uf u qc le show "getNextAncestryLevel f b = Inr \<lparr>BQ_Block = P_Block (Payload u), BQ_QC = qc\<rparr>"
    by (simp add: getNextAncestryLevel_def)
qed

text \<open>A block whose parent is stored or pruned, as every stored block is.\<close>

lemma ancestryCases:
  assumes inv: "forks_inv f"
    and st: "parentStored (GetVertex (forest f)) (FinalizedView f) (BlockContainer p)"
  obtains (pruned) "parentBlock f (P_Block p) = None"
      "getNextAncestryLevel f (P_Block p) = Inl ErrPrunedAncestry"
      "B_View (P_Block p) \<le> FinalizedView f
        \<or> (\<exists>qc. B_QC (P_Block p) = Some qc \<and> QC_View qc < FinalizedView f)"
  | (known) qc u where "FinalizedView f < B_View (P_Block p)" "B_QC (P_Block p) = Some qc"
      "GetVertex (forest f) (QC_BlockID qc) = Some u" "Level u = QC_View qc"
      "parentBlock f (P_Block p) = Some (P_Block (Payload u), qc)"
      "getNextAncestryLevel f (P_Block p) = Inr \<lparr>BQ_Block = P_Block (Payload u), BQ_QC = qc\<rparr>"
proof (cases "B_View (P_Block p) \<le> FinalizedView f")
  case True
  then show thesis
    by (intro pruned) (simp_all add: parentBlock_def getNextAncestryLevel_def)
next
  case False
  then obtain qc where qc: "B_QC (P_Block p) = Some qc"
    using st by (auto simp: parentStored_def split: option.splits)
  show thesis
  proof (cases "QC_View qc < FinalizedView f")
    case True
    then show thesis
      using parentBlock_pruned [OF inv qc True] qc False
      by (intro pruned) (simp_all add: getNextAncestryLevel_def)
  next
    case ge: False
    then obtain u where u: "GetVertex (forest f) (QC_BlockID qc) = Some u" "Level u = QC_View qc"
      using st qc False by (auto simp: parentStored_def not_less not_le split: option.splits)
    from False have "FinalizedView f < B_View (P_Block p)" by simp
    from known [OF this qc u parentBlock_known [OF inv this qc u]] show thesis .
  qed
qed

lemma stored_parentStored:
  assumes inv: "forks_inv f" and i: "GetVertex (forest f) i = Some v"
  shows "parentStored (GetVertex (forest f)) (FinalizedView f) (BlockContainer (Payload v))"
  using lf.lookup_parent [OF forks_invD(1) [OF inv] i] forks_invD(2,3) [OF inv] i by metis

lemma updateFinalizedBlockQC_rule:
  assumes inv: "forks_inv f"
    and st: "parentStored (GetVertex (forest f)) (FinalizedView f) (BlockContainer p)"
  shows "updateFinalizedBlockQC mf p f =
      (case commitRule f (P_Block p) of
         None \<Rightarrow> (Inr (), f)
       | Some (b, qc) \<Rightarrow> finalizeUpToBlock (Suc (unat (QC_View qc))) mf qc f)"
    and "commitRule f (P_Block p) = Some (b, qc) \<Longrightarrow>
      qcStored f qc \<and> (\<exists>v. GetVertex (forest f) (QC_BlockID qc) = Some v
        \<and> Level v = QC_View qc \<and> P_Block (Payload v) = b)"
proof -
  have "updateFinalizedBlockQC mf p f =
      (case commitRule f (P_Block p) of
         None \<Rightarrow> (Inr (), f)
       | Some (b, qc) \<Rightarrow> finalizeUpToBlock (Suc (unat (QC_View qc))) mf qc f)
    \<and> (commitRule f (P_Block p) = Some (b, qc) \<longrightarrow>
      qcStored f qc \<and> (\<exists>v. GetVertex (forest f) (QC_BlockID qc) = Some v
        \<and> Level v = QC_View qc \<and> P_Block (Payload v) = b))"
  proof (cases rule: ancestryCases [OF inv st])
    case 1
    then show ?thesis by (simp add: updateFinalizedBlockQC_def getTwoChain_def commitRule_def)
  next
    case one: (2 qc u)
    show ?thesis
    proof (cases rule: ancestryCases [OF inv stored_parentStored [OF inv one(3)]])
      case 1
      with one show ?thesis
        by (simp add: updateFinalizedBlockQC_def getTwoChain_def commitRule_def)
    next
      case (2 qc' w)
      with one show ?thesis
        by (auto simp: updateFinalizedBlockQC_def getTwoChain_def commitRule_def qcStored_def Let_def)
    qed
  qed
  then show "updateFinalizedBlockQC mf p f =
      (case commitRule f (P_Block p) of
         None \<Rightarrow> (Inr (), f)
       | Some (b, qc) \<Rightarrow> finalizeUpToBlock (Suc (unat (QC_View qc))) mf qc f)"
    "commitRule f (P_Block p) = Some (b, qc) \<Longrightarrow>
      qcStored f qc \<and> (\<exists>v. GetVertex (forest f) (QC_BlockID qc) = Some v
        \<and> Level v = QC_View qc \<and> P_Block (Payload v) = b)"
    by blast+
qed

lemma withVertex_parentBlock:
  assumes inv: "forks_inv f" and inv2: "forks_inv f2" and wv: "withVertex f p f2"
    and new: "GetVertex (forest f) (B_BlockID (P_Block p)) = None"
    and st: "parentStored (GetVertex (forest f)) (FinalizedView f) (BlockContainer q)"
  shows "parentBlock f2 (P_Block q) = parentBlock f (P_Block q)"
    and "parentStored (GetVertex (forest f2)) (FinalizedView f2) (BlockContainer q)"
proof -
  have fv: "FinalizedView f2 = FinalizedView f" using wv by (simp add: withVertex_def FinalizedView_def)
  have same: "GetVertex (forest f2) i = Some u" if "GetVertex (forest f) i = Some u" for i u
    using that new wv by (auto simp: withVertex_def)
  show "parentStored (GetVertex (forest f2)) (FinalizedView f2) (BlockContainer q)"
    using st same by (fastforce simp: parentStored_def fv split: option.splits)
  show "parentBlock f2 (P_Block q) = parentBlock f (P_Block q)"
  proof (cases rule: ancestryCases [OF inv st])
    case 1
    then show ?thesis
      using parentBlock_pruned [OF inv2, of "P_Block q"] fv by (auto simp: parentBlock_def [of f2])
  next
    case (2 qc u)
    then show ?thesis
      using parentBlock_known(1) [OF inv2 _ _ same] fv by simp
  qed
qed

lemma withVertex_commitRule:
  assumes inv: "forks_inv f" and inv2: "forks_inv f2" and wv: "withVertex f p f2"
    and new: "GetVertex (forest f) (B_BlockID (P_Block p)) = None"
    and st: "parentStored (GetVertex (forest f)) (FinalizedView f) (BlockContainer p)"
  shows "commitRule f2 (P_Block p) = commitRule f (P_Block p)"
proof (cases rule: ancestryCases [OF inv st])
  case 1
  with withVertex_parentBlock(1) [OF assms] show ?thesis by (simp add: commitRule_def)
next
  case (2 qc u)
  with withVertex_parentBlock(1) [OF assms]
    withVertex_parentBlock(1) [OF inv inv2 wv new stored_parentStored [OF inv 2(3)]]
  show ?thesis by (simp add: commitRule_def)
qed

text \<open>
  All of \<open>AddProposal\<close>: a rejected proposal changes nothing; a proposal that needs no processing
  changes nothing; otherwise the vertex is stored and, if the rule commits a block, everything up
  to that block is finalized.
\<close>

definition committedState ::
  "finalizer \<Rightarrow> Proposal \<Rightarrow> Forks \<Rightarrow> Forks \<Rightarrow> unit result \<Rightarrow> Forks \<Rightarrow> bool" where
  "committedState mf p f f2 r f3 \<longleftrightarrow>
     (case commitRule f (P_Block p) of
        None \<Rightarrow> r = Inr () \<and> f3 = f2
      | Some (b, qc) \<Rightarrow>
          (\<exists>v. GetVertex (forest f2) (QC_BlockID qc) = Some v
             \<and> Level v = QC_View qc \<and> P_Block (Payload v) = b)
          \<and> (case finalizationPath f2 qc of
                (vs, e) \<Rightarrow>
                  if e = finalizedRef f2 then finalizes mf qc vs f2 r f3
                  else r = Inl ByzantineThresholdExceededError \<and> f3 = f2))"

lemma AddProposal_cases:
  assumes inv: "forks_inv f"
  obtains (rejected) e where "VerifyProposal f p = Inl e"
      "AddProposal mf p f = (Inl (if IsMissingBlockError e then plainf e else wrapf e), f)"
  | (known) "\<not> IsProcessingNeeded f (P_Block p)" "VerifyProposal f p = Inr ()"
      "AddProposal mf p f = (Inr (), f)"
  | (conflict) e where "IsProcessingNeeded f (P_Block p)" "VerifyProposal f p = Inr ()"
      "checkForConflictingQCs f (B_QC (P_Block p)) = Inl e" "AddProposal mf p f = (Inl (wrapf e), f)"
  | (added) f2 r f3 where "IsProcessingNeeded f (P_Block p)" "VerifyProposal f p = Inr ()"
      "checkForConflictingQCs f (B_QC (P_Block p)) = Inr ()" "forks_inv f2" "withVertex f p f2"
      "committedState mf p f f2 r f3" "forks_inv f3"
      "AddProposal mf p f =
        (case r of
           Inl e \<Rightarrow> (Inl (wrapf (wrapf e)), f3)
         | Inr _ \<Rightarrow> (Inr (), f3\<lparr>events := events f3 @ [OnBlockIncorporated (P_Block p)]\<rparr>))"
proof (cases "VerifyProposal f p")
  case (Inl e)
  then show thesis by (intro rejected) (simp_all add: AddProposal_def)
next
  case ok: (Inr u)
  show thesis
  proof (cases "IsProcessingNeeded f (P_Block p)")
    case False
    with ok show thesis
      by (intro known) (simp_all add: AddProposal_def UnverifiedAddProposal_def Let_def)
  next
    case need: True
    show thesis
    proof (cases "checkForConflictingQCs f (B_QC (P_Block p))")
      case (Inl e)
      with ok need show thesis
        by (intro conflict) (simp_all add: AddProposal_def UnverifiedAddProposal_def Let_def)
    next
      case free: (Inr u')
      have new: "GetVertex (forest f) (B_BlockID (P_Block p)) = None"
        using need by (simp add: IsProcessingNeeded_def IsKnownBlock_def)
      have ok': "VerifyProposal f p = Inr ()" "checkForConflictingQCs f (B_QC (P_Block p)) = Inr ()"
        using ok free by simp_all
      obtain f2 where f2: "forks_inv f2" "withVertex f p f2"
        and un: "UnverifiedAddProposal mf p f =
          (case updateFinalizedBlockQC mf p f2 of
             (Inl e, f3) \<Rightarrow> (Inl (wrapf e), f3)
           | (Inr _, f3) \<Rightarrow> (Inr (), f3\<lparr>events := events f3 @ [OnBlockIncorporated (P_Block p)]\<rparr>))"
        using UnverifiedAddProposal_add [OF inv ok'(1) need ok'(2), where mf = mf] by blast
      have st: "parentStored (GetVertex (forest f)) (FinalizedView f) (BlockContainer p)"
        using VerifyProposal_ok(2) [OF inv ok'(1) need] forks_invD(2) [OF inv] by simp
      note st2 = withVertex_parentBlock(2) [OF inv f2 new st]
      note upd = updateFinalizedBlockQC_rule [OF f2(1) st2]
      have com: "commitRule f2 (P_Block p) = commitRule f (P_Block p)"
        by (rule withVertex_commitRule [OF inv f2 new st])
      obtain r f3 where r: "updateFinalizedBlockQC mf p f2 = (r, f3)" by fastforce
      have "committedState mf p f f2 r f3 \<and> forks_inv f3"
      proof (cases "commitRule f (P_Block p)")
        case None
        with upd(1) com r f2(1) show ?thesis by (simp add: committedState_def)
      next
        case (Some bq)
        obtain b qc where bq: "bq = (b, qc)" by fastforce
        obtain vs e where path: "finalizationPath f2 qc = (vs, e)"
          by (cases "finalizationPath f2 qc")
        have stored: "qcStored f2 qc" "\<exists>v. GetVertex (forest f2) (QC_BlockID qc) = Some v
             \<and> Level v = QC_View qc \<and> P_Block (Payload v) = b"
          using upd(2) com Some bq by simp_all
        from finalizeUpToBlock_spec [OF f2(1) stored(1) _ path, of "Suc (unat (QC_View qc))" mf]
        have "if e = finalizedRef f2 then finalizes mf qc vs f2 r f3
            else r = Inl ByzantineThresholdExceededError \<and> f3 = f2"
          using upd(1) com Some bq r by (simp split: if_splits)
        with f2(1) Some bq path stored(2) show ?thesis
          by (auto simp: committedState_def finalizes_def split: if_splits)
      qed
      moreover have "AddProposal mf p f =
        (case r of
           Inl e \<Rightarrow> (Inl (wrapf (wrapf e)), f3)
         | Inr _ \<Rightarrow> (Inr (), f3\<lparr>events := events f3 @ [OnBlockIncorporated (P_Block p)]\<rparr>))"
        using ok' un r by (cases r) (simp_all add: AddProposal_def)
      ultimately show thesis using added [OF need ok' f2] by blast
    qed
  qed
qed

section \<open>Reachable states\<close>

inductive forks_reachable :: "finalizer \<Rightarrow> BlockQC \<Rightarrow> Forks \<Rightarrow> bool"
  for mf :: finalizer and root :: BlockQC where
  forks_init: "New_Forks root = Inr f \<Longrightarrow> forks_reachable mf root f"
| forks_add: "forks_reachable mf root f \<Longrightarrow> AddProposal mf p f = (Inr (), f') \<Longrightarrow>
    forks_reachable mf root f'"

fun finalizedBlocks :: "ForksEvent list \<Rightarrow> Block list" where
  "finalizedBlocks [] = []"
| "finalizedBlocks (OnFinalizedBlock b # es) = b # finalizedBlocks es"
| "finalizedBlocks (_ # es) = finalizedBlocks es"

text \<open>Every block of the list certifies its predecessor and has a higher view.\<close>

fun certifiedChain :: "Block \<Rightarrow> Block list \<Rightarrow> bool" where
  "certifiedChain b [] \<longleftrightarrow> True"
| "certifiedChain b (c # cs) \<longleftrightarrow>
     (case B_QC c of
        None \<Rightarrow> False
      | Some qc \<Rightarrow> QC_BlockID qc = B_BlockID b \<and> QC_View qc = B_View b)
     \<and> B_View b < B_View c \<and> certifiedChain c cs"

lemma finalizedBlocks_append [simp]:
  "finalizedBlocks (es @ es') = finalizedBlocks es @ finalizedBlocks es'"
  by (induction es rule: finalizedBlocks.induct) auto

lemma finalizedBlocks_double [simp]: "finalizedBlocks (map (OnDoubleProposeDetected b) bs) = []"
  by (induction bs) simp_all

lemma finalizedBlocks_final [simp]:
  "finalizedBlocks (concat (map finalEvents vs)) = map (\<lambda>v. P_Block (Payload v)) vs"
  by (induction vs) (simp_all add: finalEvents_def)

lemma certifiedChain_append:
  "certifiedChain b (bs @ cs) \<longleftrightarrow> certifiedChain b bs \<and> certifiedChain (last (b # bs)) cs"
  by (induction b bs rule: certifiedChain.induct) auto

lemma linked_certifiedChain:
  "linked (B_BlockID b, B_View b) vs \<Longrightarrow> \<forall>v\<in>set vs. v = BlockContainer (Payload v) \<Longrightarrow>
   certifiedChain b (map (\<lambda>v. P_Block (Payload v)) vs)"
proof (induction vs arbitrary: b)
  case (Cons v vs)
  note vf = BlockContainer_fields [OF Cons.prems(2) [rule_format, of v]]
  show ?case
    using Cons.prems Cons.IH [of "P_Block (Payload v)"] vf by auto
qed simp

lemma forks_inv_events [simp]: "forks_inv (f\<lparr>events := es\<rparr>) = forks_inv f"
  by (simp add: forks_inv_def FinalizedView_def FinalizedBlock_def)

lemma New_Forks_ok:
  assumes ids: "B_BlockID (BQ_Block root) = QC_BlockID (BQ_QC root)"
    "B_View (BQ_Block root) = QC_View (BQ_QC root)"
  shows "\<exists>f. New_Forks root = Inr f \<and> forks_inv f \<and> lastFinalized f = root \<and> events f = []
    \<and> newestView f = B_View (BQ_Block root)
    \<and> (\<forall>i q. GetProposal f i = Some q \<longrightarrow> P_Block q = BQ_Block root)"
proof -
  define fo :: "Proposal LevelledForest" where "fo = NewLevelledForest (B_View (BQ_Block root))"
  define p where "p = \<lparr>P_Block = BQ_Block root, P_SigData = [], P_LastViewTC = None\<rparr>"
  define f0 where
    "f0 = \<lparr>forest = fo, newestView = B_View (BQ_Block root), lastFinalized = root, events = []\<rparr>"
  have full: "full_forest fo" by (simp add: fo_def full_forest_new)
  have low: "LowestLevel fo = B_View (BQ_Block root)" and none: "GetVertex fo i = None" for i
    by (simp_all add: fo_def)
  have pb: "P_Block p = BQ_Block root" by (simp add: p_def)
  have vv: "VerifyVertex fo (BlockContainer p) = Inr ()"
    by (simp add: VerifyVertex_def ensureConsistentParent_def pb fo_def NewLevelledForest_def)
  have vp: "VerifyProposal f0 p = Inr ()"
    by (simp add: VerifyProposal_def f0_def pb low vv)
  have "parentStored (GetVertex fo) (LowestLevel fo) (BlockContainer p)"
    by (simp add: parentStored_def low pb)
  then obtain fo' where fo': "AddVertex (BlockContainer p) fo = Inr fo'" "full_forest fo'"
    "LowestLevel fo' = B_View (BQ_Block root)"
    "GetVertex fo' = (GetVertex fo)(B_BlockID (BQ_Block root) \<mapsto> BlockContainer p)"
    using lf.add_spec [OF full vv] low none by (auto simp: pb)
  have "New_Forks root = (case VerifyProposal f0 p of Inl e \<Rightarrow> Inl (wrapf e)
      | Inr _ \<Rightarrow> (case AddVertex (BlockContainer p) (forest f0) of
          Inl e \<Rightarrow> Inl e | Inr fo \<Rightarrow> Inr (f0\<lparr>forest := fo\<rparr>)))"
    unfolding New_Forks_def Let_def f0_def fo_def p_def using ids by simp
  moreover have "forest f0 = fo" by (simp add: f0_def)
  ultimately have "New_Forks root = Inr (f0\<lparr>forest := fo'\<rparr>)" using vp fo'(1) by simp
  then show ?thesis
    using fo' none ids by (auto simp: forks_inv_def FinalizedView_def FinalizedBlock_def f0_def pb GetProposal_def)
qed

lemma New_Forks_inv:
  assumes "New_Forks root = Inr f"
  shows "forks_inv f \<and> lastFinalized f = root \<and> events f = []
    \<and> newestView f = B_View (BQ_Block root)
    \<and> (\<forall>i q. GetProposal f i = Some q \<longrightarrow> P_Block q = BQ_Block root)"
proof -
  have "B_BlockID (BQ_Block root) = QC_BlockID (BQ_QC root)"
    "B_View (BQ_Block root) = QC_View (BQ_QC root)"
    using assms by (auto simp: New_Forks_def split: if_splits)
  from New_Forks_ok [OF this] assms show ?thesis by auto
qed

text \<open>One successful step: what it adds to the finalized blocks.\<close>

lemma AddProposal_finalizes:
  assumes inv: "forks_inv f" and ok: "AddProposal mf p f = (Inr (), f')"
  shows "\<exists>bs. finalizedBlocks (events f') = finalizedBlocks (events f) @ bs
    \<and> certifiedChain (FinalizedBlock f) bs \<and> last (FinalizedBlock f # bs) = FinalizedBlock f'
    \<and> (\<forall>b\<in>set bs. \<exists>q. P_Block q = b \<and> (q = p \<or> (\<exists>i. GetProposal f i = Some q)))
    \<and> forks_inv f'"
proof (cases rule: AddProposal_cases [OF inv, of p mf])
  case (4 f2 r f3)
  then have r: "r = Inr ()" "f' = f3\<lparr>events := events f3 @ [OnBlockIncorporated (P_Block p)]\<rparr>"
    using ok by (auto split: sum.splits)
  have f2: "FinalizedBlock f2 = FinalizedBlock f" "FinalizedView f2 = B_View (FinalizedBlock f)"
    "finalizedBlocks (events f2) = finalizedBlocks (events f)"
    using 4(5) by (auto simp: withVertex_def FinalizedBlock_def FinalizedView_def)
  have inv': "forks_inv f'" using 4(7) r(2) by simp
  show ?thesis
  proof (cases "commitRule f (P_Block p)")
    case None
    with 4(6) r f2 inv' show ?thesis by (auto simp: committedState_def FinalizedBlock_def)
  next
    case (Some bq)
    obtain b qc where bq: "bq = (b, qc)" by fastforce
    obtain vs e where path: "finalizationPath f2 qc = (vs, e)" by (cases "finalizationPath f2 qc")
    have e: "e = finalizedRef f2" "finalizes mf qc vs f2 (Inr ()) f3"
      using 4(6) Some bq path r(1) by (auto simp: committedState_def split: if_splits)
    have st: "qcStored f2 qc"
      using 4(6) Some bq by (auto simp: committedState_def qcStored_def)
    note F = finalizationPath_facts [OF 4(4) st path]
    have "\<forall>v\<in>set vs. v = BlockContainer (Payload v)"
      using F(3) forks_invD(3) [OF 4(4)] by blast
    then have "certifiedChain (FinalizedBlock f) (map (\<lambda>v. P_Block (Payload v)) vs)"
      using linked_certifiedChain [of "FinalizedBlock f" vs] F(1) e(1) f2 by simp
    moreover have "FinalizedBlock f' = last (FinalizedBlock f # map (\<lambda>v. P_Block (Payload v)) vs)"
      using e(2) r(2) f2(1) by (auto simp: finalizes_def FinalizedBlock_def last_map)
    moreover have "Payload v = p \<or> (\<exists>i. GetProposal f i = Some (Payload v))" if "v \<in> set vs" for v
    proof -
      have "GetProposal f2 (VertexID v) = Some (Payload v)" using F(3) [OF that] by (simp add: GetProposal_def)
      then show ?thesis using withVertex_GetProposal [OF 4(5)] by (auto split: if_splits)
    qed
    ultimately show ?thesis
      using e(2) r(2) f2(3) inv' by (auto simp: finalizes_def)
  qed
qed (use inv ok in auto)

section \<open>Conflicting certificates\<close>

lemma conflictingLoop_spec:
  assumes "\<And>v c. v \<in> set vs \<Longrightarrow> c \<in> set (allVertices (lf_heap fo) (GetChildren fo (VertexID v))) \<Longrightarrow>
      B_QC (P_Block (Payload c)) \<noteq> None"
  shows "conflictingLoop fo qc vs =
    (if \<exists>v\<in>set vs. VertexID v \<noteq> QC_BlockID qc
        \<and> allVertices (lf_heap fo) (GetChildren fo (VertexID v)) \<noteq> []
     then Inl ByzantineThresholdExceededError else Inr ())"
  using assms
proof (induction vs)
  case (Cons v vs)
  have IH: "conflictingLoop fo qc vs =
    (if \<exists>v\<in>set vs. VertexID v \<noteq> QC_BlockID qc
        \<and> allVertices (lf_heap fo) (GetChildren fo (VertexID v)) \<noteq> []
     then Inl ByzantineThresholdExceededError else Inr ())"
    using Cons by (meson list.set_intros(2))
  show ?case
  proof (cases "it_next (GetChildren fo (VertexID v))")
    case None
    then have "allVertices (lf_heap fo) (GetChildren fo (VertexID v)) = []"
      by (simp add: allVertices_def HasNext_def)
    with None IH show ?thesis by simp
  next
    case (Some c)
    then have "\<exists>cs. allVertices (lf_heap fo) (GetChildren fo (VertexID v)) = c # cs"
      by (simp add: allVertices_def HasNext_def NextVertex_def)
    moreover from this have "B_QC (P_Block (Payload c)) \<noteq> None"
      using Cons.prems [of v c] by fastforce
    ultimately show ?thesis using Some IH by auto
  qed
qed simp

lemma checkForConflictingQCs_spec:
  assumes inv: "forks_inv f"
  shows "checkForConflictingQCs f (Some qc) =
    (if \<exists>i j v c. GetVertex (forest f) i = Some v \<and> Level v = QC_View qc \<and> i \<noteq> QC_BlockID qc
        \<and> GetVertex (forest f) j = Some c \<and> Parent c = Some (i, QC_View qc) \<and> FinalizedView f < Level c
     then Inl ByzantineThresholdExceededError else Inr ())"
proof -
  note D = forks_invD [OF inv]
  let ?vs = "allVertices (lf_heap (forest f)) (GetVerticesAtLevel (forest f) (QC_View qc))"
  let ?ch = "\<lambda>i. allVertices (lf_heap (forest f)) (GetChildren (forest f) i)"
  have vs: "v \<in> set ?vs \<longleftrightarrow> GetVertex (forest f) (VertexID v) = Some v \<and> Level v = QC_View qc" for v
    using lf.at_level_spec [OF D(1), of "QC_View qc"] D(6) [of _ v] by auto
  have ch: "c \<in> set (?ch (VertexID v)) \<longleftrightarrow> (\<exists>j. GetVertex (forest f) j = Some c)
      \<and> Parent c = Some (VertexID v, QC_View qc) \<and> FinalizedView f < Level c" if "v \<in> set ?vs" for v c
    using lf.children_spec [OF D(1), of "VertexID v" v] that vs D(2) by auto
  have "conflictingLoop (forest f) qc ?vs =
    (if \<exists>v\<in>set ?vs. VertexID v \<noteq> QC_BlockID qc \<and> ?ch (VertexID v) \<noteq> []
     then Inl ByzantineThresholdExceededError else Inr ())"
  proof (rule conflictingLoop_spec)
    fix v c assume v: "v \<in> set ?vs" and "c \<in> set (?ch (VertexID v))"
    then obtain j where c: "GetVertex (forest f) j = Some c" "Parent c = Some (VertexID v, QC_View qc)"
      using ch [OF v] by blast
    with BlockContainer_fields(3) [OF D(3) [OF c(1)]] show "B_QC (P_Block (Payload c)) \<noteq> None"
      by (cases "B_QC (P_Block (Payload c))") simp_all
  qed
  moreover have "(\<exists>v\<in>set ?vs. VertexID v \<noteq> QC_BlockID qc \<and> ?ch (VertexID v) \<noteq> []) \<longleftrightarrow>
    (\<exists>i j v c. GetVertex (forest f) i = Some v \<and> Level v = QC_View qc \<and> i \<noteq> QC_BlockID qc
        \<and> GetVertex (forest f) j = Some c \<and> Parent c = Some (i, QC_View qc) \<and> FinalizedView f < Level c)"
    (is "?L = ?R")
  proof
    assume ?L
    then obtain v c where v: "v \<in> set ?vs" "VertexID v \<noteq> QC_BlockID qc" "c \<in> set (?ch (VertexID v))"
      by (metis last_in_set)
    with ch [OF v(1)] vs show ?R by blast
  next
    assume ?R
    then obtain i j v c where R: "GetVertex (forest f) i = Some v" "Level v = QC_View qc" "i \<noteq> QC_BlockID qc"
      "GetVertex (forest f) j = Some c" "Parent c = Some (i, QC_View qc)" "FinalizedView f < Level c"
      by blast
    then have v: "v \<in> set ?vs" "VertexID v = i" using vs D(6) [OF R(1)] by auto
    with ch [OF v(1), of c] R have "c \<in> set (?ch (VertexID v))" by auto
    with v R(3) show ?L by (metis empty_iff list.set(1))
  qed
  ultimately show ?thesis by (simp add: checkForConflictingQCs_def)
qed

text \<open>No two stored blocks carry different QCs for one view, from the last finalized view on.\<close>

definition noConflictingQCs :: "Forks \<Rightarrow> bool" where
  "noConflictingQCs f \<longleftrightarrow>
     (\<forall>i j p q qc qc'. GetProposal f i = Some p \<longrightarrow> GetProposal f j = Some q \<longrightarrow>
        FinalizedView f < B_View (P_Block p) \<longrightarrow> FinalizedView f < B_View (P_Block q) \<longrightarrow>
        B_QC (P_Block p) = Some qc \<longrightarrow> B_QC (P_Block q) = Some qc' \<longrightarrow>
        QC_View qc = QC_View qc' \<longrightarrow> FinalizedView f \<le> QC_View qc \<longrightarrow>
        QC_BlockID qc = QC_BlockID qc')"

lemma conflict_detected:
  assumes inv: "forks_inv f" and ok: "checkForConflictingQCs f (Some qc) = Inr ()"
    and q: "GetProposal f j = Some q" "FinalizedView f < B_View (P_Block q)" "B_QC (P_Block q) = Some qc'"
    and eq: "QC_View qc = QC_View qc'" and le: "FinalizedView f \<le> QC_View qc"
  shows "QC_BlockID qc = QC_BlockID qc'"
proof (rule ccontr)
  assume ne: "QC_BlockID qc \<noteq> QC_BlockID qc'"
  note D = forks_invD [OF inv]
  obtain c where c: "GetVertex (forest f) j = Some c" "Payload c = q"
    using q(1) by (auto simp: GetProposal_def)
  note cf = BlockContainer_fields [OF D(3) [OF c(1)]]
  have "parentStored (GetVertex (forest f)) (FinalizedView f) c"
    using lf.lookup_parent [OF D(1) c(1)] D(2) by simp
  then obtain u where "GetVertex (forest f) (QC_BlockID qc') = Some u" "Level u = QC_View qc'"
    using cf q c(2) eq le by (auto simp: parentStored_def split: option.splits)
  moreover have "Parent c = Some (QC_BlockID qc', QC_View qc')" "FinalizedView f < Level c"
    using cf q c(2) by auto
  ultimately have "\<exists>i j v c. GetVertex (forest f) i = Some v \<and> Level v = QC_View qc \<and> i \<noteq> QC_BlockID qc
        \<and> GetVertex (forest f) j = Some c \<and> Parent c = Some (i, QC_View qc) \<and> FinalizedView f < Level c"
    using c(1) ne eq by metis
  with ok checkForConflictingQCs_spec [OF inv, of qc] show False by simp
qed

lemma withVertex_noConflict:
  assumes inv: "forks_inv f" and nc: "noConflictingQCs f" and wv: "withVertex f p f2"
    and ok: "checkForConflictingQCs f (B_QC (P_Block p)) = Inr ()"
  shows "noConflictingQCs f2"
  unfolding noConflictingQCs_def
proof (intro allI impI)
  fix i j a b qc qc'
  assume ab: "GetProposal f2 i = Some a" "GetProposal f2 j = Some b"
    and v: "FinalizedView f2 < B_View (P_Block a)" "FinalizedView f2 < B_View (P_Block b)"
    and q: "B_QC (P_Block a) = Some qc" "B_QC (P_Block b) = Some qc'"
    and e: "QC_View qc = QC_View qc'" "FinalizedView f2 \<le> QC_View qc"
  have fv: "FinalizedView f2 = FinalizedView f" using wv by (simp add: withVertex_def FinalizedView_def)
  have "c = p \<or> GetProposal f k = Some c" if "GetProposal f2 k = Some c" for k c
    using that withVertex_GetProposal [OF wv, of k] by (cases "k = B_BlockID (P_Block p)") simp_all
  with ab consider "a = p" "b = p" | "a = p" "GetProposal f j = Some b" | "GetProposal f i = Some a" "b = p"
    | "GetProposal f i = Some a" "GetProposal f j = Some b"
    by blast
  then show "QC_BlockID qc = QC_BlockID qc'"
  proof cases
    case 1
    with q show ?thesis by simp
  next
    case 2
    with ok q have "checkForConflictingQCs f (Some qc) = Inr ()" by simp
    from conflict_detected [OF inv this 2(2) _ q(2) e(1)] v e fv show ?thesis by simp
  next
    case 3
    with ok q have "checkForConflictingQCs f (Some qc') = Inr ()" by simp
    from conflict_detected [OF inv this 3(1) _ q(1) e(1) [symmetric]] v e fv show ?thesis by simp
  next
    case 4
    with nc v q e show ?thesis unfolding noConflictingQCs_def fv by blast
  qed
qed

lemma pruned_noConflict:
  assumes inv: "forks_inv f" "forks_inv f'" and nc: "noConflictingQCs f" and pr: "prunedForks f f'"
  shows "noConflictingQCs f'"
proof -
  have sub: "GetProposal f i = Some p" if "GetProposal f' i = Some p" for i p
    using that pr by (auto simp: prunedForks_def GetProposal_def split: option.splits if_splits)
  have le: "FinalizedView f \<le> FinalizedView f'" by (rule prunedForks_view [OF inv pr])
  show ?thesis
    unfolding noConflictingQCs_def
  proof (intro allI impI)
    fix i j a b qc qc'
    assume "GetProposal f' i = Some a" "GetProposal f' j = Some b"
      "FinalizedView f' < B_View (P_Block a)" "FinalizedView f' < B_View (P_Block b)"
      "B_QC (P_Block a) = Some qc" "B_QC (P_Block b) = Some qc'"
      "QC_View qc = QC_View qc'" "FinalizedView f' \<le> QC_View qc"
    with sub le have "GetProposal f i = Some a" "GetProposal f j = Some b"
      "FinalizedView f < B_View (P_Block a)" "FinalizedView f < B_View (P_Block b)"
      "B_QC (P_Block a) = Some qc" "B_QC (P_Block b) = Some qc'"
      "QC_View qc = QC_View qc'" "FinalizedView f \<le> QC_View qc" by (auto intro: order.strict_trans1 order.trans)
    with nc show "QC_BlockID qc = QC_BlockID qc'" unfolding noConflictingQCs_def by blast
  qed
qed

section \<open>Reachable states keep every invariant\<close>

lemma forks_events_frame [simp]:
  "GetProposal (f\<lparr>events := es\<rparr>) i = GetProposal f i"
  "FinalizedView (f\<lparr>events := es\<rparr>) = FinalizedView f"
  "FinalizedBlock (f\<lparr>events := es\<rparr>) = FinalizedBlock f"
  by (simp_all add: GetProposal_def FinalizedView_def FinalizedBlock_def)

lemma noConflictingQCs_events: "noConflictingQCs f \<Longrightarrow> noConflictingQCs (f\<lparr>events := es\<rparr>)"
  unfolding noConflictingQCs_def forks_events_frame .

lemma AddProposal_noConflict:
  assumes inv: "forks_inv f" and nc: "noConflictingQCs f" and ok: "AddProposal mf p f = (Inr (), f')"
  shows "noConflictingQCs f'"
proof (cases rule: AddProposal_cases [OF inv, of p mf])
  case (4 f2 r f3)
  then have f': "f' = f3\<lparr>events := events f3 @ [OnBlockIncorporated (P_Block p)]\<rparr>" and r: "r = Inr ()"
    using ok by (auto split: sum.splits)
  have nc2: "noConflictingQCs f2" by (rule withVertex_noConflict [OF inv nc 4(5) 4(3)])
  have "noConflictingQCs f3"
  proof (cases "commitRule f (P_Block p)")
    case None
    with 4(6) nc2 show ?thesis by (simp add: committedState_def)
  next
    case (Some bq)
    obtain vs e where path: "finalizationPath f2 (snd bq) = (vs, e)"
      by (cases "finalizationPath f2 (snd bq)")
    have "f3 = f2 \<or> prunedForks f2 f3"
      using 4(6) Some path
      by (cases "e = finalizedRef f2") (simp_all add: committedState_def finalizes_def split_beta)
    with nc2 pruned_noConflict [OF 4(4) 4(7) nc2] show ?thesis by blast
  qed
  then show ?thesis unfolding f' by (rule noConflictingQCs_events)
qed (use nc ok in auto)

lemma reachable_forks_inv:
  "forks_reachable mf root f \<Longrightarrow> forks_inv f \<and> noConflictingQCs f
     \<and> certifiedChain (BQ_Block root) (finalizedBlocks (events f))
     \<and> last (BQ_Block root # finalizedBlocks (events f)) = FinalizedBlock f"
proof (induction rule: forks_reachable.induct)
  case (forks_init f)
  note N = New_Forks_inv [OF this]
  have "B_View (P_Block p) \<le> FinalizedView f" if "GetProposal f i = Some p" for i p
  proof -
    obtain v where v: "GetVertex (forest f) i = Some v" "Payload v = p"
      using \<open>GetProposal f i = Some p\<close> by (auto simp: GetProposal_def)
    with N forks_invD(3,4) [of f i v] BlockContainer_fields(2) [of v] show ?thesis
      by (simp add: FinalizedView_def)
  qed
  then have "noConflictingQCs f"
    unfolding noConflictingQCs_def by (meson leD)
  with N show ?case by (simp add: FinalizedBlock_def)
next
  case (forks_add f p f')
  obtain bs where bs: "finalizedBlocks (events f') = finalizedBlocks (events f) @ bs"
    "certifiedChain (FinalizedBlock f) bs" "last (FinalizedBlock f # bs) = FinalizedBlock f'" "forks_inv f'"
    using AddProposal_finalizes [OF _ forks_add(2)] forks_add.IH by blast
  moreover have "noConflictingQCs f'"
    using AddProposal_noConflict [OF _ _ forks_add(2)] forks_add.IH by blast
  ultimately show ?case
    using forks_add.IH by (auto simp: certifiedChain_append split: if_splits)
qed

section \<open>What AddProposal does and how it fails\<close>

lemma prunedForks_GetProposal:
  assumes inv: "forks_inv f" and pr: "prunedForks f f'"
  shows "GetProposal f' i = Some q \<longleftrightarrow> GetProposal f i = Some q \<and> FinalizedView f' \<le> B_View (P_Block q)"
proof (cases "GetVertex (forest f) i")
  case None
  then show ?thesis using pr by (simp add: prunedForks_def GetProposal_def)
next
  case (Some v)
  have "GetVertex (forest f') i = (if Level v < FinalizedView f' then None else Some v)"
    using pr Some by (simp add: prunedForks_def)
  with Some BlockContainer_fields(2) [OF forks_invD(3) [OF inv Some]] show ?thesis
    by (auto simp: GetProposal_def not_less)
qed

lemma committedState_effect:
  assumes inv2: "forks_inv f2" and cs: "committedState mf p f f2 (Inr ()) f3"
    and fb: "FinalizedBlock f2 = FinalizedBlock f"
  shows "FinalizedBlock f3 = (case commitRule f (P_Block p) of None \<Rightarrow> FinalizedBlock f | Some (b, _) \<Rightarrow> b)"
    and "prunedForks f2 f3"
proof -
  have "FinalizedBlock f3 = (case commitRule f (P_Block p) of None \<Rightarrow> FinalizedBlock f | Some (b, _) \<Rightarrow> b)
      \<and> prunedForks f2 f3"
  proof (cases "commitRule f (P_Block p)")
    case None
    with cs fb prunedForks_refl [OF inv2] show ?thesis by (simp add: committedState_def)
  next
    case (Some bq)
    obtain b qc where bq: "bq = (b, qc)" by fastforce
    obtain vs e where path: "finalizationPath f2 qc = (vs, e)" by (cases "finalizationPath f2 qc")
    obtain v where v: "GetVertex (forest f2) (QC_BlockID qc) = Some v" "Level v = QC_View qc"
      "P_Block (Payload v) = b"
      and e: "e = finalizedRef f2" "finalizes mf qc vs f2 (Inr ()) f3"
      using cs Some bq path by (auto simp: committedState_def split: if_splits)
    have "qcStored f2 qc" using v by (auto simp: qcStored_def)
    note F = finalizationPath_facts [OF inv2 this path]
    have "FinalizedBlock f3 = b"
    proof (cases "vs = []")
      case True
      then have "FinalizedBlock f3 = FinalizedBlock f2"
        using e(2) by (simp add: finalizes_def FinalizedBlock_def)
      moreover have "QC_BlockID qc = B_BlockID (FinalizedBlock f2)"
        using F(4) True e(1) by simp
      then have "FinalizedBlock f2 = b" using inv2 v by (auto simp: forks_inv_def)
      ultimately show ?thesis by simp
    next
      case False
      then have "GetVertex (forest f2) (VertexID (last vs)) = Some (last vs)"
        using F(3) last_in_set by blast
      moreover from this have "VertexID (last vs) = QC_BlockID qc"
        using F(5) False BlockContainer_fields(1) [OF forks_invD(3) [OF inv2]] by metis
      ultimately show ?thesis
        using False e(2) v by (simp add: finalizes_def FinalizedBlock_def)
    qed
    with e(2) Some bq show ?thesis by (simp add: finalizes_def)
  qed
  then show "FinalizedBlock f3 = (case commitRule f (P_Block p) of None \<Rightarrow> FinalizedBlock f | Some (b, _) \<Rightarrow> b)"
    "prunedForks f2 f3" by auto
qed

lemma AddProposal_effect:
  assumes inv: "forks_inv f" and ok: "AddProposal mf p f = (Inr (), f')"
    and need: "IsProcessingNeeded f (P_Block p)"
  shows "FinalizedBlock f' = (case commitRule f (P_Block p) of None \<Rightarrow> FinalizedBlock f | Some (b, _) \<Rightarrow> b)
    \<and> (\<forall>i q. GetProposal f' i = Some q \<longleftrightarrow>
          (if i = B_BlockID (P_Block p) then q = p else GetProposal f i = Some q)
          \<and> FinalizedView f' \<le> B_View (P_Block q))"
proof (cases rule: AddProposal_cases [OF inv, of p mf])
  case (4 f2 r f3)
  then have f': "f' = f3\<lparr>events := events f3 @ [OnBlockIncorporated (P_Block p)]\<rparr>" and r: "r = Inr ()"
    using ok by (auto split: sum.splits)
  have "FinalizedBlock f2 = FinalizedBlock f" using 4(5) by (simp add: withVertex_def FinalizedBlock_def)
  note C = committedState_effect [OF 4(4) 4(6) [unfolded r] this]
  show ?thesis
    using C(1) prunedForks_GetProposal [OF 4(4) C(2)] withVertex_GetProposal [OF 4(5)]
    unfolding f' by auto
qed (use ok need in auto)

lemma ensureConsistentParent_no_panic:
  "Parent v \<noteq> None \<Longrightarrow> ensureConsistentParent f v \<in> {Inr (), Inl InvalidVertexError}"
  by (auto simp: ensureConsistentParent_def split: option.splits)

lemma VerifyVertex_no_panic:
  assumes full: "full_forest f" and par: "Parent v \<noteq> None"
  shows "VerifyVertex f v \<in> {Inr (), Inl InvalidVertexError}"
proof (cases "GetVertex f (VertexID v)")
  case None
  then show ?thesis
    using ensureConsistentParent_no_panic [OF par, of f]
    by (auto simp: VerifyVertex_def GetVertex_None_iff Let_def split: option.splits)
next
  case (Some w)
  then obtain k where k: "map_of (lf_vertices f) (VertexID v) = Some k" "c_vertex (lf_heap f ! k) = Some w"
    by (auto simp: GetVertex_Some_iff)
  have "c_level (lf_heap f ! k) = Level w"
    using containers_invD(5) [OF _ k] full by (simp add: full_forest_def forest_inv_def inv_core_def)
  moreover have "LowestLevel f < Level w \<longrightarrow> Parent w \<noteq> None"
    using lf.lookup_parent [OF full Some] by (auto simp: parentStored_def split: option.splits)
  ultimately show ?thesis
    using k par by (auto simp: VerifyVertex_def Let_def less_le split: if_splits)
qed

lemma VerifyProposal_cases:
  assumes inv: "forks_inv f" and qc: "B_QC (P_Block p) = Some qc"
  shows "VerifyProposal f p \<in> {Inr (), Inl Errorf, Inl (MissingBlockError (QC_View qc) (QC_BlockID qc))}"
proof -
  have "VerifyVertex (forest f) (BlockContainer p) \<in> {Inr (), Inl InvalidVertexError}"
    using VerifyVertex_no_panic [OF forks_invD(1) [OF inv]] qc by simp
  then show ?thesis
    using qc by (auto simp: VerifyProposal_def Let_def plainf_def IsInvalidVertexError_def split: option.splits)
qed

lemma AddProposal_fails:
  assumes inv: "forks_inv f" and qc: "B_QC (P_Block p) = Some qc"
    and err: "AddProposal mf p f = (Inl e, f')"
  shows "e = Errorf \<and> f' = f \<and> VerifyProposal f p = Inl (MissingBlockError (QC_View qc) (QC_BlockID qc))
    \<or> e = Wrapf Errorf \<and> f' = f \<and> VerifyProposal f p = Inl Errorf
    \<or> IsByzantineThresholdExceededError e
    \<or> (\<exists>h i c. mf h i = Inl c \<and> e = wrapf (wrapf (wrapf c)) \<and> MakeFinal i \<in> set (events f'))"
proof (cases rule: AddProposal_cases [OF inv, of p mf])
  case (1 c)
  with VerifyProposal_cases [OF inv qc] err show ?thesis
    by (auto simp: plainf_def wrapf_def IsMissingBlockError_def)
next
  case (3 c)
  then have "c = ByzantineThresholdExceededError"
    using checkForConflictingQCs_spec [OF inv, of qc] qc by (simp split: if_splits)
  with 3 err show ?thesis by (auto simp: wrapf_def IsByzantineThresholdExceededError_def)
next
  case (4 f2 r f3)
  then obtain c where r: "r = Inl c" "e = wrapf (wrapf c)" "f' = f3" using err by (cases r) auto
  then obtain b q where bq: "commitRule f (P_Block p) = Some (b, q)"
    using 4(6) by (cases "commitRule f (P_Block p)") (auto simp: committedState_def)
  obtain vs g where path: "finalizationPath f2 q = (vs, g)" by (cases "finalizationPath f2 q")
  show ?thesis
  proof (cases "g = finalizedRef f2")
    case True
    then have "finalizes mf q vs f2 (Inl c) f3"
      using 4(6) bq path r(1) by (simp add: committedState_def)
    then have "\<exists>h i d. mf h i = Inl d \<and> c = wrapf d \<and> MakeFinal i \<in> set (events f3)"
      by (fastforce simp: finalizes_def)
    with r show ?thesis by blast
  next
    case False
    with 4(6) bq path r show ?thesis
      by (simp add: committedState_def wrapf_def IsByzantineThresholdExceededError_def)
  qed
qed (use err in auto)

section \<open>Properties\<close>

text \<open>
  A concrete run: the chain of blocks of views 1, 2, 3, ... in which every block certifies its
  predecessor, a callback that accepts everything, and the state after blocks 2, 3 and 4.
\<close>

definition exampleRoot :: BlockQC where
  "exampleRoot = \<lparr>BQ_Block = exampleBlock 1 101 None, BQ_QC = exampleQC 1 101\<rparr>"

definition acceptAll :: finalizer where
  "acceptAll h i = Inr ()"

definition exampleForks :: "nat \<Rightarrow> Forks" where
  "exampleForks n =
     fold (\<lambda>p f. snd (AddProposal acceptAll p f))
       (take n [exampleProposal 2 102 (Some (exampleQC 1 101)),
                exampleProposal 3 103 (Some (exampleQC 2 102)),
                exampleProposal 4 104 (Some (exampleQC 3 103)),
                exampleProposal 5 105 (Some (exampleQC' 3 103))])
       (projr (New_Forks exampleRoot))"

lemma exampleForks_reachable: "forks_reachable acceptAll exampleRoot (exampleForks 3)"
proof -
  have "New_Forks exampleRoot = Inr (exampleForks 0)" by code_simp
  then have "forks_reachable acceptAll exampleRoot (exampleForks 0)" by (rule forks_init)
  moreover have "AddProposal acceptAll (exampleProposal 2 102 (Some (exampleQC 1 101))) (exampleForks 0)
      = (Inr (), exampleForks 1)" by code_simp
  ultimately have "forks_reachable acceptAll exampleRoot (exampleForks 1)" by (rule forks_add)
  moreover have "AddProposal acceptAll (exampleProposal 3 103 (Some (exampleQC 2 102))) (exampleForks 1)
      = (Inr (), exampleForks 2)" by code_simp
  ultimately have "forks_reachable acceptAll exampleRoot (exampleForks 2)" by (rule forks_add)
  moreover have "AddProposal acceptAll (exampleProposal 4 104 (Some (exampleQC 3 103))) (exampleForks 2)
      = (Inr (), exampleForks 3)" by code_simp
  ultimately show ?thesis by (rule forks_add)
qed

lemma exampleForks_reachable_4: "forks_reachable acceptAll exampleRoot (exampleForks 4)"
proof -
  have "AddProposal acceptAll (exampleProposal 5 105 (Some (exampleQC' 3 103))) (exampleForks 3)
      = (Inr (), exampleForks 4)" by code_simp
  with exampleForks_reachable show ?thesis by (rule forks_add)
qed

text \<open>
  C21: in every state reached from a trusted root by successful \<open>AddProposal\<close> calls, the blocks
  reported by \<open>OnFinalizedBlock\<close>, in the order of the reports, form one chain above the root in
  which each block certifies its predecessor and has a higher view, and the chain ends in
  \<open>FinalizedBlock\<close>.
\<close>

theorem forks_finalized_chain:
  assumes "forks_reachable mf root f"
  shows "certifiedChain (BQ_Block root) (finalizedBlocks (events f))
    \<and> last (BQ_Block root # finalizedBlocks (events f)) = FinalizedBlock f"
  using reachable_forks_inv [OF assms] by simp

theorem forks_finalized_chain_witness:
  "certifiedChain (BQ_Block exampleRoot) (finalizedBlocks (events (exampleForks 3)))
   \<and> last (BQ_Block exampleRoot # finalizedBlocks (events (exampleForks 3))) = FinalizedBlock (exampleForks 3)
   \<and> finalizedBlocks (events (exampleForks 3)) = [exampleBlock 2 102 (Some (exampleQC 1 101))]"
proof -
  have "finalizedBlocks (events (exampleForks 3)) = [exampleBlock 2 102 (Some (exampleQC 1 101))]"
    by code_simp
  with forks_finalized_chain [OF exampleForks_reachable] show ?thesis by blast
qed

text \<open>
  C22: a successful \<open>AddProposal\<close> of a block that needs processing moves the finalized block
  exactly as Jolteon's rule says (\<open>commitRule\<close>: the grandparent, if its view directly precedes the
  parent's), and afterwards Forks stores exactly the old proposals and the new one, from the new
  finalized view on.
\<close>

theorem AddProposal_commits:
  assumes "forks_reachable mf root f" and "AddProposal mf p f = (Inr (), f')"
    and "IsProcessingNeeded f (P_Block p)"
  shows "FinalizedBlock f' = (case commitRule f (P_Block p) of None \<Rightarrow> FinalizedBlock f | Some (b, _) \<Rightarrow> b)
    \<and> (\<forall>i q. GetProposal f' i = Some q \<longleftrightarrow>
          (if i = B_BlockID (P_Block p) then q = p else GetProposal f i = Some q)
          \<and> FinalizedView f' \<le> B_View (P_Block q))"
  using AddProposal_effect [OF _ assms(2,3)] reachable_forks_inv [OF assms(1)] by blast

theorem AddProposal_commits_witness:
  "FinalizedBlock (snd (AddProposal acceptAll (exampleProposal 5 105 (Some (exampleQC 4 104))) (exampleForks 3)))
     = exampleBlock 3 103 (Some (exampleQC 2 102))"
proof -
  let ?p = "exampleProposal 5 105 (Some (exampleQC 4 104))"
  let ?f = "snd (AddProposal acceptAll ?p (exampleForks 3))"
  have "fst (AddProposal acceptAll ?p (exampleForks 3)) = Inr ()" by code_simp
  then have "AddProposal acceptAll ?p (exampleForks 3) = (Inr (), ?f)" by (simp add: prod_eq_iff)
  moreover have "IsProcessingNeeded (exampleForks 3) (P_Block ?p)" by code_simp
  moreover have "commitRule (exampleForks 3) (P_Block ?p)
      = Some (exampleBlock 3 103 (Some (exampleQC 2 102)), exampleQC 3 103)" by code_simp
  ultimately show ?thesis
    using AddProposal_commits [OF exampleForks_reachable, of ?p ?f] by simp
qed

text \<open>
  C23: two stored blocks above the finalized one never carry QCs for different blocks of the same
  view: a proposal that would introduce such a QC is refused.
\<close>

theorem forks_no_conflicting_QCs:
  assumes "forks_reachable mf root f"
    and "GetProposal f i = Some p" and "GetProposal f j = Some q"
    and "FinalizedView f < B_View (P_Block p)" and "FinalizedView f < B_View (P_Block q)"
    and "B_QC (P_Block p) = Some qc" and "B_QC (P_Block q) = Some qc'"
    and "QC_View qc = QC_View qc'" and "FinalizedView f \<le> QC_View qc"
  shows "QC_BlockID qc = QC_BlockID qc'"
  using reachable_forks_inv [OF assms(1)] assms(2-9) unfolding noConflictingQCs_def by blast

theorem forks_no_conflicting_QCs_witness:
  "QC_BlockID (exampleQC 3 103) = QC_BlockID (exampleQC' 3 103)
   \<and> fst (AddProposal acceptAll (exampleProposal 7 107 (Some (exampleQC 3 102))) (exampleForks 4)) \<noteq> Inr ()"
proof -
  let ?p = "exampleProposal 4 104 (Some (exampleQC 3 103))"
  let ?q = "exampleProposal 5 105 (Some (exampleQC' 3 103))"
  have p: "GetProposal (exampleForks 4) 104 = Some ?p" by code_simp
  have q: "GetProposal (exampleForks 4) 105 = Some ?q" by code_simp
  have vp: "FinalizedView (exampleForks 4) < B_View (P_Block ?p)" by code_simp
  have vq: "FinalizedView (exampleForks 4) < B_View (P_Block ?q)" by code_simp
  have qp: "B_QC (P_Block ?p) = Some (exampleQC 3 103)" by code_simp
  have qq: "B_QC (P_Block ?q) = Some (exampleQC' 3 103)" by code_simp
  have e: "QC_View (exampleQC 3 103) = QC_View (exampleQC' 3 103)" by code_simp
  have l: "FinalizedView (exampleForks 4) \<le> QC_View (exampleQC 3 103)" by code_simp
  have "fst (AddProposal acceptAll (exampleProposal 7 107 (Some (exampleQC 3 102))) (exampleForks 4)) \<noteq> Inr ()"
    by code_simp
  with forks_no_conflicting_QCs [OF exampleForks_reachable_4 p q vp vq qp qq e l] show ?thesis by blast
qed

text \<open>
  C25: on a reachable state, \<open>AddProposal\<close> of a block with a QC fails only for a missing parent or
  an inconsistent vertex (and then changes nothing), because the Byzantine threshold was exceeded,
  or because the finalization callback failed. The errors that the code attributes to corrupted
  internal state, and nil dereferences, do not occur, and the recursion of \<open>finalizeUpToBlock\<close>
  ends.
\<close>

theorem AddProposal_errors:
  assumes "forks_reachable mf root f" and "B_QC (P_Block p) = Some qc"
    and "AddProposal mf p f = (Inl e, f')"
  shows "e = Errorf \<and> f' = f \<and> VerifyProposal f p = Inl (MissingBlockError (QC_View qc) (QC_BlockID qc))
    \<or> e = Wrapf Errorf \<and> f' = f \<and> VerifyProposal f p = Inl Errorf
    \<or> IsByzantineThresholdExceededError e
    \<or> (\<exists>h i c. mf h i = Inl c \<and> e = wrapf (wrapf (wrapf c)) \<and> MakeFinal i \<in> set (events f'))"
  using AddProposal_fails [OF _ assms(2,3)] reachable_forks_inv [OF assms(1)] by blast

theorem AddProposal_errors_witness:
  "VerifyProposal (exampleForks 3) (exampleProposal 9 109 (Some (exampleQC 8 108)))
     = Inl (MissingBlockError 8 108)"
proof -
  let ?p = "exampleProposal 9 109 (Some (exampleQC 8 108))"
  let ?f = "snd (AddProposal acceptAll ?p (exampleForks 3))"
  have "fst (AddProposal acceptAll ?p (exampleForks 3)) = Inl Errorf" by code_simp
  then have "AddProposal acceptAll ?p (exampleForks 3) = (Inl Errorf, ?f)" by (simp add: prod_eq_iff)
  moreover have "B_QC (P_Block ?p) = Some (exampleQC 8 108)" by code_simp
  ultimately show ?thesis
    using AddProposal_errors [OF exampleForks_reachable, of ?p "exampleQC 8 108" Errorf ?f]
    by (auto simp: exampleQC_def acceptAll_def IsByzantineThresholdExceededError_def)
qed

end
