(* ===== verification/Signers.thy ===== *)
theory Signers
  imports HotStuff_Model
begin

text \<open>
  \<open>consensus/hotstuff/verification\<close> and \<open>module/signature\<close>: the messages that replicas sign, the
  encodings of signatures, and the three implementations of the interface \<open>hotstuff.Signer\<close>.

  The BLS library is outside this development. A hasher is identified by its domain separation
  tag; signing with the node's staking key is the function \<open>me_Sign\<close> of \<open>module.Local\<close>, and a
  random beacon key is the function that signs with it.
\<close>

section \<open>Interfaces\<close>

text \<open>\<open>hotstuff.Signer\<close>\<close>

record signer =
  CreateProposal :: "Block \<Rightarrow> Proposal result"
  CreateVote :: "Block \<Rightarrow> Vote result"
  CreateTimeout ::
    "uint64 \<Rightarrow> QuorumCertificate option \<Rightarrow> TimeoutCertificate option \<Rightarrow> TimeoutObject result"

type_synonym hasher = string
type_synonym signFn = "bytes \<Rightarrow> hasher \<Rightarrow> bytes result"

record local_node =
  me_NodeID :: Identifier
  me_Sign :: signFn

type_synonym beaconKeyStore = "uint64 \<Rightarrow> signFn result"

section \<open>Signed messages and signature encodings\<close>

definition MakeVoteMessage :: "uint64 \<Rightarrow> Identifier \<Rightarrow> bytes" where
  "MakeVoteMessage view blockID = be_bytes 8 view @ be_bytes 32 blockID"

definition MakeTimeoutMessage :: "uint64 \<Rightarrow> uint64 \<Rightarrow> bytes" where
  "MakeTimeoutMessage view newestQCView = be_bytes 8 view @ be_bytes 8 newestQCView"

definition domainTag :: "string \<Rightarrow> hasher" where
  "domainTag domain = ''FLOW-'' @ domain @ ''-V00-'' @ ''CS00-'' @ ''with-''"

definition RandomBeaconTag :: hasher where "RandomBeaconTag = domainTag ''Random_Beacon''"
definition ConsensusVoteTag :: hasher where "ConsensusVoteTag = domainTag ''Consensus_Vote''"
definition CollectorVoteTag :: hasher where "CollectorVoteTag = domainTag ''Collector_Vote''"
definition ConsensusTimeoutTag :: hasher where "ConsensusTimeoutTag = domainTag ''Consensus_Timeout''"
definition CollectorTimeoutTag :: hasher where "CollectorTimeoutTag = domainTag ''Collector_Timeout''"

definition SigTypeStaking :: byte where "SigTypeStaking = 0"
definition SigTypeRandomBeacon :: byte where "SigTypeRandomBeacon = 1"

definition SigType_Valid :: "byte \<Rightarrow> bool" where
  "SigType_Valid t \<longleftrightarrow> t = SigTypeStaking \<or> t = SigTypeRandomBeacon"

definition EncodeSingleSig :: "byte \<Rightarrow> bytes \<Rightarrow> bytes" where
  "EncodeSingleSig sigType sig = sigType # sig"

definition DecodeSingleSig :: "bytes \<Rightarrow> (byte \<times> bytes) result" where
  "DecodeSingleSig sigData =
     (case sigData of
        [] \<Rightarrow> Inl (Wrapf ErrInvalidSignatureFormat)
      | t # sig \<Rightarrow>
          if \<not> SigType_Valid t then Inl (Wrapf ErrInvalidSignatureFormat) else Inr (t, sig))"

definition EncodeDoubleSig :: "bytes \<Rightarrow> bytes \<Rightarrow> bytes" where
  "EncodeDoubleSig stakingSig beaconSig = stakingSig @ beaconSig"

text \<open>\<open>sigLen\<close> is \<open>crypto.SignatureLenBLSBLS12381\<close>; a nil second signature is \<open>None\<close>.\<close>

definition DecodeDoubleSig :: "nat \<Rightarrow> bytes \<Rightarrow> (bytes \<times> bytes option) result" where
  "DecodeDoubleSig sigLen sigData =
     (if length sigData = sigLen then Inr (sigData, None)
      else if length sigData = 2 * sigLen then Inr (take sigLen sigData, Some (drop sigLen sigData))
      else Inl (Wrapf ErrInvalidSignatureFormat))"

section \<open>The parts all signers share\<close>

text \<open>
  The three signers differ in the hashers and in \<open>genSigData\<close>; the bodies of their
  \<open>CreateProposal\<close>, \<open>CreateVote\<close> and \<open>CreateTimeout\<close> are the same text.
\<close>

definition createProposal :: "Identifier \<Rightarrow> (Block \<Rightarrow> bytes result) \<Rightarrow> Block \<Rightarrow> Proposal result" where
  "createProposal signerID genSigData block =
     (if B_ProposerID block \<noteq> signerID then Inl Errorf
      else case genSigData block of
        Inl e \<Rightarrow> Inl (wrapf e)
      | Inr sigData \<Rightarrow> Inr \<lparr>P_Block = block, P_SigData = sigData, P_LastViewTC = None\<rparr>)"

definition createVote :: "Identifier \<Rightarrow> (Block \<Rightarrow> bytes result) \<Rightarrow> Block \<Rightarrow> Vote result" where
  "createVote signerID genSigData block =
     (case genSigData block of
        Inl e \<Rightarrow> Inl (wrapf e)
      | Inr sigData \<Rightarrow>
          Inr \<lparr>V_View = B_View block, V_BlockID = B_BlockID block, V_SignerID = signerID,
               V_SigData = sigData\<rparr>)"

definition createTimeout ::
  "local_node \<Rightarrow> hasher \<Rightarrow> uint64 \<Rightarrow> QuorumCertificate option \<Rightarrow> TimeoutCertificate option
    \<Rightarrow> TimeoutObject result" where
  "createTimeout me timeoutObjectHasher curView newestQC lastViewTC =
     (case newestQC of
        None \<Rightarrow> Inl Panic
      | Some qc \<Rightarrow>
          (case me_Sign me (MakeTimeoutMessage curView (QC_View qc)) timeoutObjectHasher of
             Inl e \<Rightarrow> Inl (wrapf e)
           | Inr sigData \<Rightarrow>
               Inr \<lparr>TO_View = curView, TO_NewestQC = newestQC, TO_LastViewTC = lastViewTC,
                    TO_SignerID = me_NodeID me, TO_SigData = sigData, TO_TimeoutTick = 0\<rparr>))"

section \<open>The signers\<close>

definition StakingSigner_genSigData :: "local_node \<Rightarrow> Block \<Rightarrow> bytes result" where
  "StakingSigner_genSigData me block =
     (case me_Sign me (MakeVoteMessage (B_View block) (B_BlockID block)) CollectorVoteTag of
        Inl e \<Rightarrow> Inl (wrapf e)
      | Inr stakingSig \<Rightarrow> Inr stakingSig)"

definition NewStakingSigner :: "local_node \<Rightarrow> signer" where
  "NewStakingSigner me =
     \<lparr>CreateProposal = createProposal (me_NodeID me) (StakingSigner_genSigData me),
      CreateVote = createVote (me_NodeID me) (StakingSigner_genSigData me),
      CreateTimeout = createTimeout me CollectorTimeoutTag\<rparr>"

definition CombinedSigner_genSigData :: "local_node \<Rightarrow> beaconKeyStore \<Rightarrow> Block \<Rightarrow> bytes result" where
  "CombinedSigner_genSigData staking beaconKeys block =
     (let msg = MakeVoteMessage (B_View block) (B_BlockID block) in
      case me_Sign staking msg ConsensusVoteTag of
        Inl e \<Rightarrow> Inl (wrapf e)
      | Inr stakingSig \<Rightarrow>
          (case beaconKeys (B_View block) of
             Inl e \<Rightarrow>
               if errors_As (\<lambda>e. e = ErrNoBeaconKeyForEpoch) e then Inr stakingSig
               else if errors_As (\<lambda>e. e = ErrViewForUnknownEpoch) e then Inl (plainf e)
               else Inl (wrapf e)
           | Inr beaconKey_Sign \<Rightarrow>
               (case beaconKey_Sign msg RandomBeaconTag of
                  Inl e \<Rightarrow> Inl (wrapf e)
                | Inr beaconShare \<Rightarrow> Inr (EncodeDoubleSig stakingSig beaconShare))))"

definition NewCombinedSigner :: "local_node \<Rightarrow> beaconKeyStore \<Rightarrow> signer" where
  "NewCombinedSigner staking beaconKeys =
     \<lparr>CreateProposal = createProposal (me_NodeID staking) (CombinedSigner_genSigData staking beaconKeys),
      CreateVote = createVote (me_NodeID staking) (CombinedSigner_genSigData staking beaconKeys),
      CreateTimeout = createTimeout staking ConsensusTimeoutTag\<rparr>"

definition CombinedSignerV3_genSigData :: "local_node \<Rightarrow> beaconKeyStore \<Rightarrow> Block \<Rightarrow> bytes result" where
  "CombinedSignerV3_genSigData staking beaconKeys block =
     (let msg = MakeVoteMessage (B_View block) (B_BlockID block) in
      case beaconKeys (B_View block) of
        Inl e \<Rightarrow>
          if errors_As (\<lambda>e. e = ErrNoBeaconKeyForEpoch) e
          then (case me_Sign staking msg ConsensusVoteTag of
                  Inl e \<Rightarrow> Inl (wrapf e)
                | Inr stakingSig \<Rightarrow> Inr (EncodeSingleSig SigTypeStaking stakingSig))
          else if errors_As (\<lambda>e. e = ErrViewForUnknownEpoch) e then Inl (plainf e)
          else Inl (wrapf e)
      | Inr beaconKey_Sign \<Rightarrow>
          (case beaconKey_Sign msg RandomBeaconTag of
             Inl e \<Rightarrow> Inl (wrapf e)
           | Inr beaconShare \<Rightarrow> Inr (EncodeSingleSig SigTypeRandomBeacon beaconShare)))"

definition NewCombinedSignerV3 :: "local_node \<Rightarrow> beaconKeyStore \<Rightarrow> signer" where
  "NewCombinedSignerV3 staking beaconKeys =
     \<lparr>CreateProposal = createProposal (me_NodeID staking) (CombinedSignerV3_genSigData staking beaconKeys),
      CreateVote = createVote (me_NodeID staking) (CombinedSignerV3_genSigData staking beaconKeys),
      CreateTimeout = createTimeout staking ConsensusTimeoutTag\<rparr>"

section \<open>The contract of a signer\<close>

text \<open>
  What SafetyRules and the block producer rely on: a vote, timeout or proposal carries exactly the
  fields it was asked for and the signer's own identity, and proposals are made for own blocks only.
\<close>

locale signer_contract =
  fixes sg :: signer and self :: Identifier
  assumes vote_fields: "CreateVote sg b = Inr v \<Longrightarrow>
      V_View v = B_View b \<and> V_BlockID v = B_BlockID b \<and> V_SignerID v = self"
    and timeout_fields: "CreateTimeout sg view qc tc = Inr t \<Longrightarrow>
      TO_View t = view \<and> TO_NewestQC t = qc \<and> TO_LastViewTC t = tc \<and> TO_SignerID t = self
      \<and> TO_TimeoutTick t = 0 \<and> qc \<noteq> None"
    and proposal_fields: "CreateProposal sg b = Inr p \<Longrightarrow>
      P_Block p = b \<and> B_ProposerID b = self \<and> P_LastViewTC p = None"
begin

lemma vote_own_block:
  "CreateProposal sg b = Inr p \<Longrightarrow> CreateVote sg (P_Block p) = Inr v \<Longrightarrow>
   V_SignerID v = B_ProposerID (P_Block p) \<and> V_View v = V_View (ProposerVote p)
   \<and> V_BlockID v = V_BlockID (ProposerVote p)"
  using proposal_fields vote_fields by (simp add: ProposerVote_def)

end

lemma createVote_fields:
  "createVote i g b = Inr v \<Longrightarrow> V_View v = B_View b \<and> V_BlockID v = B_BlockID b \<and> V_SignerID v = i"
  by (auto simp: createVote_def split: sum.splits)

lemma createTimeout_fields:
  "createTimeout me h view qc tc = Inr t \<Longrightarrow> TO_View t = view \<and> TO_NewestQC t = qc
     \<and> TO_LastViewTC t = tc \<and> TO_SignerID t = me_NodeID me \<and> TO_TimeoutTick t = 0 \<and> qc \<noteq> None"
  by (auto simp: createTimeout_def split: option.splits sum.splits)

lemma createProposal_fields:
  "createProposal i g b = Inr p \<Longrightarrow> P_Block p = b \<and> B_ProposerID b = i \<and> P_LastViewTC p = None"
  by (auto simp: createProposal_def split: if_splits sum.splits)

interpretation staking: signer_contract "NewStakingSigner me" "me_NodeID me" for me
  by unfold_locales
     (auto simp: NewStakingSigner_def dest: createVote_fields createTimeout_fields createProposal_fields)

interpretation combined: signer_contract "NewCombinedSigner me keys" "me_NodeID me" for me keys
  by unfold_locales
     (auto simp: NewCombinedSigner_def dest: createVote_fields createTimeout_fields createProposal_fields)

interpretation combinedV3: signer_contract "NewCombinedSignerV3 me keys" "me_NodeID me" for me keys
  by unfold_locales
     (auto simp: NewCombinedSignerV3_def dest: createVote_fields createTimeout_fields createProposal_fields)

section \<open>Encodings are unambiguous\<close>

lemma MakeVoteMessage_inj: "MakeVoteMessage v i = MakeVoteMessage v' i' \<longleftrightarrow> v = v' \<and> i = i'"
  using be_bytes_inj [of 8 v v'] be_bytes_inj [of 32 i i'] by (auto simp: MakeVoteMessage_def)

text \<open>
  C34: signed messages determine what was signed. Vote messages are injective in view and block,
  timeout messages are injective in both views, and no vote message is a timeout message.
\<close>

theorem signed_messages_injective:
  "(MakeVoteMessage v i = MakeVoteMessage v' i' \<longleftrightarrow> v = v' \<and> i = i')
   \<and> (MakeTimeoutMessage v w = MakeTimeoutMessage v' w' \<longleftrightarrow> v = v' \<and> w = w')
   \<and> MakeVoteMessage v i \<noteq> MakeTimeoutMessage v' w'"
proof -
  have 8: "be_bytes 8 a = be_bytes 8 b \<longleftrightarrow> a = b" for a b :: uint64
    using be_bytes_inj [of 8 a b] by auto
  have "length (MakeVoteMessage v i) \<noteq> length (MakeTimeoutMessage v' w')"
    by (simp add: MakeVoteMessage_def MakeTimeoutMessage_def)
  then have "MakeVoteMessage v i \<noteq> MakeTimeoutMessage v' w'" by metis
  then show ?thesis
    by (simp add: MakeVoteMessage_inj MakeTimeoutMessage_def 8)
qed

text \<open>
  C35: the signature encodings round trip: a typed single signature decodes to its type and bytes
  exactly for valid types, and a double signature of two signatures of the BLS length decodes to
  the two signatures.
\<close>

theorem signature_encoding_roundtrip:
  assumes "length s = sigLen" and "length b = sigLen" and "0 < sigLen"
  shows "DecodeDoubleSig sigLen (EncodeDoubleSig s b) = Inr (s, Some b)
    \<and> DecodeDoubleSig sigLen s = Inr (s, None)
    \<and> (DecodeSingleSig (EncodeSingleSig t s) = Inr (t, s) \<longleftrightarrow> SigType_Valid t)"
  using assms by (auto simp: DecodeDoubleSig_def EncodeDoubleSig_def DecodeSingleSig_def EncodeSingleSig_def)

theorem signature_encoding_roundtrip_witness:
  "DecodeDoubleSig 2 (EncodeDoubleSig [1, 2] [3, 4]) = Inr ([1, 2], Some [3, 4])
   \<and> DecodeSingleSig (EncodeSingleSig 1 [1, 2]) = Inr (1, [1, 2])"
  using signature_encoding_roundtrip [of "[1, 2]" 2 "[3, 4]" 1]
  by (simp add: SigType_Valid_def SigTypeRandomBeacon_def)

end
