(* ===== verification/Identity_List.thy ===== *)
theory Identity_List
  imports HotStuff_Model "HOL-Library.Multiset"
begin

text \<open>
  \<open>model/flow\<close>: node identities and lists of them, identity filters and the canonical order.

  A public key is an opaque value of the crypto library, kept here as a byte string; nil is
  \<open>None\<close>. \<open>bytes.Compare\<close> on identifiers is the order of the 256-bit words.
\<close>

section \<open>Identities\<close>

type_synonym PublicKey = bytes

record Identity =
  NodeID :: Identifier
  Address :: string
  Role :: byte
  Weight :: uint64
  Ejected :: bool
  StakingPubKey :: "PublicKey option"
  NetworkPubKey :: "PublicKey option"

type_synonym IdentityList = "Identity list"
type_synonym IdentityFilter = "Identity \<Rightarrow> bool"

text \<open>\<open>keyEquals\<close> is the method \<open>Equals\<close> of \<open>crypto.PublicKey\<close>.\<close>

definition Identity_EqualTo :: "(PublicKey \<Rightarrow> PublicKey \<Rightarrow> bool) \<Rightarrow> Identity \<Rightarrow> Identity \<Rightarrow> bool" where
  "Identity_EqualTo keyEquals iy other =
     (if NodeID iy \<noteq> NodeID other then False
      else if Address iy \<noteq> Address other then False
      else if Role iy \<noteq> Role other then False
      else if Weight iy \<noteq> Weight other then False
      else if Ejected iy \<noteq> Ejected other then False
      else if (StakingPubKey iy \<noteq> None \<and> StakingPubKey other = None)
           \<or> (StakingPubKey iy = None \<and> StakingPubKey other \<noteq> None) then False
      else if StakingPubKey iy \<noteq> None
           \<and> \<not> keyEquals (the (StakingPubKey iy)) (the (StakingPubKey other)) then False
      else if (NetworkPubKey iy \<noteq> None \<and> NetworkPubKey other = None)
           \<or> (NetworkPubKey iy = None \<and> NetworkPubKey other \<noteq> None) then False
      else if NetworkPubKey iy \<noteq> None
           \<and> \<not> keyEquals (the (NetworkPubKey iy)) (the (NetworkPubKey other)) then False
      else True)"

section \<open>Filters\<close>

definition filter_Any :: IdentityFilter where
  "filter_Any identity = True"

fun filter_And :: "IdentityFilter list \<Rightarrow> IdentityFilter" where
  "filter_And [] identity = True"
| "filter_And (f # fs) identity = (if \<not> f identity then False else filter_And fs identity)"

fun filter_Or :: "IdentityFilter list \<Rightarrow> IdentityFilter" where
  "filter_Or [] identity = False"
| "filter_Or (f # fs) identity = (if f identity then True else filter_Or fs identity)"

definition filter_Not :: "IdentityFilter \<Rightarrow> IdentityFilter" where
  "filter_Not f identity = (\<not> f identity)"

definition filter_HasNodeID :: "Identifier list \<Rightarrow> IdentityFilter" where
  "filter_HasNodeID nodeIDs identity = (NodeID identity \<in> set nodeIDs)"

definition filter_In :: "IdentityList \<Rightarrow> IdentityFilter" where
  "filter_In list = filter_HasNodeID (map NodeID list)"

definition filter_HasWeight :: "bool \<Rightarrow> IdentityFilter" where
  "filter_HasWeight hasWeight identity = ((Weight identity > 0) = hasWeight)"

definition filter_Ejected :: IdentityFilter where
  "filter_Ejected identity = Ejected identity"

definition filter_HasRole :: "byte list \<Rightarrow> IdentityFilter" where
  "filter_HasRole roles identity = (Role identity \<in> set roles)"

definition IsValidCurrentEpochParticipant :: IdentityFilter where
  "IsValidCurrentEpochParticipant = filter_And [filter_HasWeight True, filter_Not filter_Ejected]"

text \<open>\<open>flow.RoleConsensus\<close>\<close>

definition RoleConsensus :: byte where "RoleConsensus = 2"

definition IsVotingConsensusCommitteeMember :: IdentityFilter where
  "IsVotingConsensusCommitteeMember =
     filter_And [filter_HasRole [RoleConsensus], IsValidCurrentEpochParticipant]"

section \<open>Lists\<close>

fun il_Filter :: "IdentityList \<Rightarrow> IdentityFilter \<Rightarrow> IdentityList" where
  "il_Filter [] f = []"
| "il_Filter (identity # il) f =
     (if \<not> f identity then il_Filter il f else identity # il_Filter il f)"

definition il_Map :: "IdentityList \<Rightarrow> (Identity \<Rightarrow> Identity) \<Rightarrow> IdentityList" where
  "il_Map il f = map f il"

text \<open>Later entries with the same node ID overwrite earlier ones.\<close>

definition il_Lookup :: "IdentityList \<Rightarrow> (Identifier, Identity) gomap" where
  "il_Lookup il = fold (\<lambda>identity lookup. AList.update (NodeID identity) identity lookup) il []"

definition il_Selector :: "IdentityList \<Rightarrow> IdentityFilter" where
  "il_Selector il identity = (map_of (il_Lookup il) (NodeID identity) \<noteq> None)"

definition il_NodeIDs :: "IdentityList \<Rightarrow> Identifier list" where
  "il_NodeIDs il = map NodeID il"

definition il_PublicStakingKeys :: "IdentityList \<Rightarrow> PublicKey option list" where
  "il_PublicStakingKeys il = map StakingPubKey il"

definition il_TotalWeight :: "IdentityList \<Rightarrow> uint64" where
  "il_TotalWeight il = fold (\<lambda>identity total. total + Weight identity) il 0"

definition il_Count :: "IdentityList \<Rightarrow> nat" where
  "il_Count il = length il"

definition il_ByIndex :: "IdentityList \<Rightarrow> nat \<Rightarrow> Identity option" where
  "il_ByIndex il index = (if index \<ge> length il then None else Some (il ! index))"

fun il_ByNodeID :: "IdentityList \<Rightarrow> Identifier \<Rightarrow> Identity option" where
  "il_ByNodeID [] nodeID = None"
| "il_ByNodeID (identity # il) nodeID =
     (if NodeID identity = nodeID then Some identity else il_ByNodeID il nodeID)"

fun il_GetIndex :: "IdentityList \<Rightarrow> Identifier \<Rightarrow> nat option" where
  "il_GetIndex [] target = None"
| "il_GetIndex (identity # il) target =
     (if NodeID identity = target then Some 0 else map_option Suc (il_GetIndex il target))"

text \<open>
  The Fisher-Yates prefix of \<open>sample\<close>. The random source is a parameter: \<open>intn i b\<close> is the answer
  to the \<open>i\<close>-th call, made with the bound \<open>b\<close>. The loop state is \<open>dup\<close>, \<open>i\<close> runs to \<open>i + k\<close>.
\<close>

fun sampleLoop :: "(nat \<Rightarrow> nat \<Rightarrow> nat) \<Rightarrow> nat \<Rightarrow> nat \<Rightarrow> nat \<Rightarrow> 'a list \<Rightarrow> 'a list" where
  "sampleLoop intn n i 0 dup = dup"
| "sampleLoop intn n i (Suc k) dup =
     (let j = intn i (n - i) in
      sampleLoop intn n (Suc i) k (dup[i := dup ! (j + i), j + i := dup ! i]))"

definition il_sample :: "(nat \<Rightarrow> nat \<Rightarrow> nat) \<Rightarrow> IdentityList \<Rightarrow> nat \<Rightarrow> IdentityList" where
  "il_sample intn il sz =
     (let n = length il;
          sz' = (if sz > n then n else sz) in
      take sz' (sampleLoop intn n 0 sz' il))"

text \<open>The deduplicating loop of \<open>Union\<close>; \<open>seen\<close> is the keys of the map \<open>set\<close>.\<close>

fun unionLoop :: "Identifier list \<Rightarrow> IdentityList \<Rightarrow> IdentityList \<Rightarrow> IdentityList" where
  "unionLoop seen acc [] = acc"
| "unionLoop seen acc (i # ids) =
     (if NodeID i \<in> set seen then unionLoop seen acc ids
      else unionLoop (NodeID i # seen) (acc @ [i]) ids)"

definition il_Union :: "IdentityList \<Rightarrow> IdentityList \<Rightarrow> IdentityList" where
  "il_Union il other = sort_key NodeID (unionLoop [] [] (il @ other))"

definition il_EqualTo :: "(PublicKey \<Rightarrow> PublicKey \<Rightarrow> bool) \<Rightarrow> IdentityList \<Rightarrow> IdentityList \<Rightarrow> bool" where
  "il_EqualTo keyEquals il other = list_all2 (Identity_EqualTo keyEquals) il other"

section \<open>Canonical order\<close>

definition IdentifierCanonical :: "Identifier \<Rightarrow> Identifier \<Rightarrow> bool" where
  "IdentifierCanonical id1 id2 = (id1 < id2)"

definition Canonical :: "Identity \<Rightarrow> Identity \<Rightarrow> bool" where
  "Canonical identity1 identity2 = IdentifierCanonical (NodeID identity1) (NodeID identity2)"

fun canonicalLoop :: "Identifier \<Rightarrow> IdentityList \<Rightarrow> bool" where
  "canonicalLoop prev [] = True"
| "canonicalLoop prev (i # ids) =
     (if \<not> IdentifierCanonical prev (NodeID i) then False else canonicalLoop (NodeID i) ids)"

definition IdentityListCanonical :: "IdentityList \<Rightarrow> bool" where
  "IdentityListCanonical identities =
     (case identities of [] \<Rightarrow> True | i # ids \<Rightarrow> canonicalLoop (NodeID i) ids)"

section \<open>What the operations compute\<close>

lemma il_Filter_eq [simp]: "il_Filter il f = filter f il"
  by (induction il) auto

lemma filter_And_iff [simp]: "filter_And fs x \<longleftrightarrow> (\<forall>f\<in>set fs. f x)"
  by (induction fs) auto

lemma filter_Or_iff [simp]: "filter_Or fs x \<longleftrightarrow> (\<exists>f\<in>set fs. f x)"
  by (induction fs) auto

lemma votingMember_iff:
  "IsVotingConsensusCommitteeMember x \<longleftrightarrow> Role x = RoleConsensus \<and> Weight x > 0 \<and> \<not> Ejected x"
  by (simp add: IsVotingConsensusCommitteeMember_def IsValidCurrentEpochParticipant_def
      filter_HasRole_def filter_HasWeight_def filter_Not_def filter_Ejected_def)

lemma canonicalLoop_iff: "canonicalLoop p il \<longleftrightarrow> sorted_wrt (<) (p # map NodeID il)"
  by (induction p il rule: canonicalLoop.induct) (auto simp: IdentifierCanonical_def)

lemma IdentityListCanonical_iff: "IdentityListCanonical il \<longleftrightarrow> sorted_wrt (<) (map NodeID il)"
  by (cases il) (auto simp: IdentityListCanonical_def canonicalLoop_iff)

lemma canonical_distinct: "IdentityListCanonical il \<Longrightarrow> distinct (map NodeID il)"
  by (simp add: IdentityListCanonical_iff strict_sorted_iff)

lemma fold_weight: "fold (\<lambda>x t. t + Weight x) il (t :: uint64) = t + (\<Sum>x\<leftarrow>il. Weight x)"
  by (induction il arbitrary: t) (auto simp: add.assoc)

lemma il_TotalWeight_sum: "il_TotalWeight il = (\<Sum>x\<leftarrow>il. Weight x)"
  by (simp add: il_TotalWeight_def fold_weight)

lemma il_ByNodeID_Some: "il_ByNodeID il i = Some x \<Longrightarrow> x \<in> set il \<and> NodeID x = i"
  by (induction il) (auto split: if_splits)

lemma il_ByNodeID_distinct:
  "distinct (map NodeID il) \<Longrightarrow> il_ByNodeID il i = Some x \<longleftrightarrow> x \<in> set il \<and> NodeID x = i"
  by (induction il) (auto simp: image_iff)

lemma il_ByNodeID_None: "il_ByNodeID il i = None \<longleftrightarrow> i \<notin> NodeID ` set il"
  by (induction il) auto

lemma map_of_fold_update:
  "map_of (fold (\<lambda>x m. AList.update (NodeID x) x m) il m) i =
     (case find (\<lambda>x. NodeID x = i) (rev il) of Some x \<Rightarrow> Some x | None \<Rightarrow> map_of m i)"
proof (induction il arbitrary: m rule: rev_induct)
  case (snoc x xs)
  then show ?case by (simp add: update_conv')
qed simp

lemma find_SomeD: "find P xs = Some x \<Longrightarrow> x \<in> set xs \<and> P x"
  by (induction xs) (auto split: if_splits)

lemma il_Lookup_dom: "map_of (il_Lookup il) i \<noteq> None \<longleftrightarrow> i \<in> NodeID ` set il"
proof -
  have "find (\<lambda>x. NodeID x = i) (rev il) = None \<longleftrightarrow> i \<notin> NodeID ` set il"
    by (auto simp: find_None_iff)
  then show ?thesis
    by (cases "find (\<lambda>x. NodeID x = i) (rev il)") (simp_all add: il_Lookup_def map_of_fold_update)
qed

lemma il_Lookup_distinct:
  assumes "distinct (map NodeID il)"
  shows "map_of (il_Lookup il) i = il_ByNodeID il i"
proof (cases "il_ByNodeID il i")
  case None
  then have "map_of (il_Lookup il) i = None"
    using il_Lookup_dom [of il i] by (simp add: il_ByNodeID_None)
  with None show ?thesis by simp
next
  case (Some x)
  then have x: "x \<in> set il" "NodeID x = i" using il_ByNodeID_Some by auto
  then have "\<exists>y. find (\<lambda>x. NodeID x = i) (rev il) = Some y"
    by (cases "find (\<lambda>x. NodeID x = i) (rev il)") (auto simp: find_None_iff)
  then obtain y where y: "find (\<lambda>x. NodeID x = i) (rev il) = Some y" by blast
  then have "y \<in> set il" "NodeID y = i" using find_SomeD by fastforce+
  with x have "y = x" using assms by (auto simp: distinct_map inj_on_def)
  with y Some show ?thesis by (simp add: il_Lookup_def map_of_fold_update)
qed

lemma il_GetIndex_Some:
  "il_GetIndex il i = Some k \<Longrightarrow> k < length il \<and> NodeID (il ! k) = i \<and> (\<forall>j<k. NodeID (il ! j) \<noteq> i)"
proof (induction il arbitrary: k)
  case (Cons x xs)
  then show ?case by (auto simp: less_Suc_eq_0_disj split: if_splits) blast
qed simp

lemma unionLoop_spec:
  "set seen = NodeID ` set acc \<Longrightarrow> distinct (map NodeID acc) \<Longrightarrow>
   distinct (map NodeID (unionLoop seen acc ids))
   \<and> NodeID ` set (unionLoop seen acc ids) = NodeID ` (set acc \<union> set ids)
   \<and> set (unionLoop seen acc ids) \<subseteq> set acc \<union> set ids
   \<and> set acc \<subseteq> set (unionLoop seen acc ids)"
proof (induction seen acc ids rule: unionLoop.induct)
  case (2 seen acc i ids)
  show ?case
  proof (cases "NodeID i \<in> set seen")
    case True
    then have "NodeID i \<in> NodeID ` set acc" using 2(3) by simp
    then have "insert (NodeID i) (NodeID ` (set acc \<union> set ids)) = NodeID ` (set acc \<union> set ids)"
      by (auto simp: image_Un)
    with 2(1) [OF True 2(3,4)] True show ?thesis by (auto simp: image_Un)
  next
    case False
    have "set (NodeID i # seen) = NodeID ` set (acc @ [i])" "distinct (map NodeID (acc @ [i]))"
      using 2(3,4) False by auto
    with 2(2) [OF False this] False show ?thesis by (auto simp: image_Un)
  qed
qed auto

text \<open>
  C36: \<open>Union\<close> returns a list in canonical order, hence without duplicate node IDs, whose node IDs
  are exactly those of the two lists and whose entries all come from them.
\<close>

theorem il_Union_canonical:
  "IdentityListCanonical (il_Union il other)
   \<and> set (il_NodeIDs (il_Union il other)) = set (il_NodeIDs il) \<union> set (il_NodeIDs other)
   \<and> set (il_Union il other) \<subseteq> set il \<union> set other"
proof -
  have U: "distinct (map NodeID (unionLoop [] [] (il @ other)))"
    "NodeID ` set (unionLoop [] [] (il @ other)) = NodeID ` set (il @ other)"
    "set (unionLoop [] [] (il @ other)) \<subseteq> set (il @ other)"
    using unionLoop_spec [of "[]" "[]" "il @ other"] by auto
  have "sorted (map NodeID (il_Union il other))" "distinct (map NodeID (il_Union il other))"
    using U(1) by (simp_all add: il_Union_def distinct_map)
  then have "IdentityListCanonical (il_Union il other)"
    by (simp add: IdentityListCanonical_iff strict_sorted_iff)
  with U(2,3) show ?thesis by (auto simp: il_Union_def il_NodeIDs_def image_Un)
qed

section \<open>Sampling\<close>

lemma sampleLoop_mset:
  assumes "\<And>i b. 0 < b \<Longrightarrow> intn i b < b"
  shows "i + k \<le> length dup \<Longrightarrow> n = length dup \<Longrightarrow>
    mset (sampleLoop intn n i k dup) = mset dup \<and> length (sampleLoop intn n i k dup) = length dup"
proof (induction k arbitrary: i dup)
  case (Suc k)
  let ?j = "intn i (n - i)"
  have j: "?j + i < length dup" using assms [of "n - i" i] Suc.prems by simp
  let ?d = "dup[i := dup ! (?j + i), ?j + i := dup ! i]"
  have "mset ?d = mset dup" using j Suc.prems by (simp add: mset_swap)
  moreover have "mset (sampleLoop intn n (Suc i) k ?d) = mset ?d
      \<and> length (sampleLoop intn n (Suc i) k ?d) = length ?d"
    using Suc.prems by (intro Suc.IH) simp_all
  ultimately show ?case by (simp add: Let_def)
qed simp

text \<open>
  C37: with any random source that respects its bound, \<open>sample\<close> draws without replacement: the
  result has the requested length, or that of the list if it is shorter, and is a sub-multiset of
  the list.
\<close>

theorem il_sample_without_replacement:
  assumes "\<And>i b. 0 < b \<Longrightarrow> intn i b < b"
  shows "length (il_sample intn il sz) = min sz (length il)
    \<and> mset (il_sample intn il sz) \<subseteq># mset il"
proof -
  let ?s = "min sz (length il)"
  have L: "mset (sampleLoop intn (length il) 0 ?s il) = mset il"
    "length (sampleLoop intn (length il) 0 ?s il) = length il"
    using sampleLoop_mset [OF assms, of 0 ?s il "length il"] by auto
  have e: "il_sample intn il sz = take ?s (sampleLoop intn (length il) 0 ?s il)"
    by (simp add: il_sample_def Let_def min_def)
  have "mset (take k xs) \<subseteq># mset xs" for k and xs :: IdentityList
    by (metis append_take_drop_id mset_append mset_subset_eq_add_left)
  with L e show ?thesis by (metis length_take min.commute min_def)
qed

definition exampleIdentity :: "Identifier \<Rightarrow> uint64 \<Rightarrow> Identity" where
  "exampleIdentity i w = \<lparr>NodeID = i, Address = [], Role = RoleConsensus, Weight = w, Ejected = False,
     StakingPubKey = Some [ucast i], NetworkPubKey = None\<rparr>"

theorem il_sample_without_replacement_witness:
  "length (il_sample (\<lambda>i b. b - 1) [exampleIdentity 1 10, exampleIdentity 2 20, exampleIdentity 3 30] 2) = 2
   \<and> il_sample (\<lambda>i b. b - 1) [exampleIdentity 1 10, exampleIdentity 2 20, exampleIdentity 3 30] 2
     = [exampleIdentity 3 30, exampleIdentity 1 10]"
  using il_sample_without_replacement
    [of "\<lambda>i b. b - 1" "[exampleIdentity 1 10, exampleIdentity 2 20, exampleIdentity 3 30]" 2]
  by (simp add: il_sample_def Let_def numeral_2_eq_2)

end
