(* ===== verification/Committee.thy ===== *)
theory Committee
  imports Identity_List
begin

text \<open>
  \<open>consensus/hotstuff/committees\<close>: the interface \<open>hotstuff.DynamicCommittee\<close>, the weight thresholds,
  the static committee, and the pre-computed leader selection.
\<close>

section \<open>The interface\<close>

text \<open>\<open>hotstuff.DKG\<close> and \<open>hotstuff.DynamicCommittee\<close> (which includes \<open>hotstuff.Replicas\<close>).\<close>

record dkg =
  dkg_Size :: nat
  dkg_GroupKey :: "PublicKey option"
  dkg_Index :: "Identifier \<Rightarrow> nat result"
  dkg_KeyShare :: "Identifier \<Rightarrow> PublicKey option result"

record committee =
  LeaderForView :: "uint64 \<Rightarrow> Identifier result"
  QuorumThresholdForView :: "uint64 \<Rightarrow> uint64 result"
  TimeoutThresholdForView :: "uint64 \<Rightarrow> uint64 result"
  Self :: Identifier
  DKG :: "uint64 \<Rightarrow> dkg result"
  IdentitiesByEpoch :: "uint64 \<Rightarrow> IdentityList result"
  IdentityByEpoch :: "uint64 \<Rightarrow> Identifier \<Rightarrow> Identity result"
  IdentitiesByBlock :: "Identifier \<Rightarrow> IdentityList result"
  IdentityByBlock :: "Identifier \<Rightarrow> Identifier \<Rightarrow> Identity result"

section \<open>Thresholds\<close>

definition WeightThresholdToBuildQC :: "uint64 \<Rightarrow> uint64" where
  "WeightThresholdToBuildQC totalWeight =
     (let floorOneThird = totalWeight div 3;
          res = 2 * floorOneThird;
          divRemainder = totalWeight mod 3 in
      if divRemainder \<le> 1 then res + 1 else res + divRemainder)"

definition WeightThresholdToTimeout :: "uint64 \<Rightarrow> uint64" where
  "WeightThresholdToTimeout totalWeight = totalWeight div 3 + 1"

lemma unat_div3 [simp]: "unat (w div 3) = unat w div 3" for w :: uint64
  by (simp add: unat_div)

lemma unat_mod3 [simp]: "unat (w mod 3) = unat w mod 3" for w :: uint64
  by (simp add: unat_mod)

lemma unat_lt_64: "unat (w :: uint64) < 18446744073709551616"
  using unsigned_less [of w] by simp

lemma unat_WeightThresholdToBuildQC:
  "unat (WeightThresholdToBuildQC w) = 2 * (unat w div 3) + max 1 (unat w mod 3)"
proof -
  note lt = unat_lt_64 [of w]
  have two: "unat (2 * (w div 3)) = 2 * (unat w div 3)"
    using lt by (subst unat_mult_lem [THEN iffD1]) simp_all
  have one: "(w mod 3 \<le> 1) = (unat w mod 3 \<le> 1)" by (simp add: word_le_nat_alt)
  have "unat (2 * (w div 3) + 1) = 2 * (unat w div 3) + 1"
    using lt by (subst unat_add_lem [THEN iffD1]) (simp_all add: two)
  moreover have "unat (2 * (w div 3) + w mod 3) = 2 * (unat w div 3) + unat w mod 3"
    using lt by (subst unat_add_lem [THEN iffD1]) (simp_all add: two)
  moreover have "unat w mod 3 < 3" by simp
  ultimately show ?thesis
    by (auto simp: WeightThresholdToBuildQC_def Let_def one max_def)
qed

lemma unat_WeightThresholdToTimeout: "unat (WeightThresholdToTimeout w) = unat w div 3 + 1"
  using unat_lt_64 [of w]
  by (simp add: WeightThresholdToTimeout_def) (subst unat_add_lem [THEN iffD1], simp_all)

section \<open>Weighted quorums\<close>

text \<open>
  What a supermajority threshold promises, for a committee \<open>c\<close> of weighted members: more than two
  thirds (respectively one third) of the total weight, and no more than necessary.
\<close>

locale weighted_committee =
  fixes members :: "'c \<Rightarrow> 'n set"
    and weight :: "'c \<Rightarrow> 'n \<Rightarrow> nat"
    and quorumThreshold :: "'c \<Rightarrow> nat"
    and timeoutThreshold :: "'c \<Rightarrow> nat"
    and invar :: "'c \<Rightarrow> bool"
  assumes finite_members: "invar c \<Longrightarrow> finite (members c)"
    and quorum_bound: "invar c \<Longrightarrow> 2 * sum (weight c) (members c) < 3 * quorumThreshold c"
    and quorum_least: "invar c \<Longrightarrow> 3 * (quorumThreshold c - 1) \<le> 2 * sum (weight c) (members c)"
    and timeout_bound: "invar c \<Longrightarrow> sum (weight c) (members c) < 3 * timeoutThreshold c"
    and timeout_least: "invar c \<Longrightarrow> 3 * (timeoutThreshold c - 1) \<le> sum (weight c) (members c)"
begin

definition isQuorum :: "'c \<Rightarrow> 'n set \<Rightarrow> bool" where
  "isQuorum c Q \<longleftrightarrow> Q \<subseteq> members c \<and> quorumThreshold c \<le> sum (weight c) Q"

lemma quorum_intersection:
  assumes inv: "invar c" and Q: "isQuorum c Q" and R: "isQuorum c R"
  shows "sum (weight c) (members c) < 3 * sum (weight c) (Q \<inter> R)"
proof -
  have fin: "finite Q" "finite R"
    using Q R finite_members [OF inv] by (auto simp: isQuorum_def intro: finite_subset)
  have "sum (weight c) Q + sum (weight c) R = sum (weight c) (Q \<union> R) + sum (weight c) (Q \<inter> R)"
    by (rule sum.union_inter [OF fin, symmetric])
  moreover have "sum (weight c) (Q \<union> R) \<le> sum (weight c) (members c)"
    using Q R finite_members [OF inv] by (intro sum_mono2) (auto simp: isQuorum_def)
  ultimately show ?thesis
    using Q R quorum_bound [OF inv] by (simp add: isQuorum_def)
qed

text \<open>If less than a third of the weight is Byzantine, two quorums share an honest member.\<close>

lemma honest_intersection:
  assumes inv: "invar c" and Q: "isQuorum c Q" and R: "isQuorum c R"
    and byz: "3 * sum (weight c) (B \<inter> members c) \<le> sum (weight c) (members c)"
  shows "\<exists>n\<in>Q \<inter> R. n \<notin> B"
proof (rule ccontr)
  assume "\<not> ?thesis"
  then have "Q \<inter> R \<subseteq> B \<inter> members c" using Q by (auto simp: isQuorum_def)
  then have "sum (weight c) (Q \<inter> R) \<le> sum (weight c) (B \<inter> members c)"
    using finite_members [OF inv] by (intro sum_mono2) auto
  with quorum_intersection [OF inv Q R] byz show False by simp
qed

text \<open>A set that reaches the timeout threshold has an honest member.\<close>

lemma honest_timeout:
  assumes inv: "invar c" and "T \<subseteq> members c" and "timeoutThreshold c \<le> sum (weight c) T"
    and byz: "3 * sum (weight c) (B \<inter> members c) \<le> sum (weight c) (members c)"
  shows "\<exists>n\<in>T. n \<notin> B"
proof (rule ccontr)
  assume "\<not> ?thesis"
  then have "sum (weight c) T \<le> sum (weight c) (B \<inter> members c)"
    using finite_members [OF inv] assms(2) by (intro sum_mono2) auto
  with timeout_bound [OF inv] assms(3) byz show False by simp
qed

text \<open>The honest members alone are a quorum, so the thresholds do not block progress.\<close>

lemma honest_quorum:
  assumes inv: "invar c"
    and byz: "3 * sum (weight c) (B \<inter> members c) < sum (weight c) (members c)"
  shows "isQuorum c (members c - B)"
proof -
  have "sum (weight c) (members c) = sum (weight c) (members c - B) + sum (weight c) (B \<inter> members c)"
    using finite_members [OF inv] by (metis Int_commute add.commute sum.Int_Diff)
  with byz quorum_least [OF inv] show ?thesis by (simp add: isQuorum_def)
qed

end

section \<open>The static committee\<close>

record Static =
  st_participants :: IdentityList
  st_myID :: Identifier
  st_dkg :: dkg

record DKGParticipant =
  DP_Index :: nat
  DP_KeyShare :: "PublicKey option"

definition staticDKG :: "(Identifier, DKGParticipant) gomap \<Rightarrow> PublicKey option \<Rightarrow> dkg" where
  "staticDKG dkgParticipants dkgGroupKey =
     \<lparr>dkg_Size = length dkgParticipants,
      dkg_GroupKey = dkgGroupKey,
      dkg_Index = (\<lambda>nodeID. case map_of dkgParticipants nodeID of
         None \<Rightarrow> Inl (IdentityNotFoundError nodeID) | Some participant \<Rightarrow> Inr (DP_Index participant)),
      dkg_KeyShare = (\<lambda>nodeID. case map_of dkgParticipants nodeID of
         None \<Rightarrow> Inl (IdentityNotFoundError nodeID) | Some participant \<Rightarrow> Inr (DP_KeyShare participant))\<rparr>"

definition NewStaticCommitteeWithDKG :: "IdentityList \<Rightarrow> Identifier \<Rightarrow> dkg \<Rightarrow> Static result" where
  "NewStaticCommitteeWithDKG participants myID d =
     (if \<not> IdentityListCanonical participants then Inl Errorf
      else Inr \<lparr>st_participants = participants, st_myID = myID, st_dkg = d\<rparr>)"

definition NewStaticCommittee ::
  "IdentityList \<Rightarrow> Identifier \<Rightarrow> (Identifier, DKGParticipant) gomap \<Rightarrow> PublicKey option \<Rightarrow> Static result" where
  "NewStaticCommittee participants myID dkgParticipants dkgGroupKey =
     NewStaticCommitteeWithDKG participants myID (staticDKG dkgParticipants dkgGroupKey)"

definition Static_identity :: "Static \<Rightarrow> Identifier \<Rightarrow> Identity result" where
  "Static_identity s participantID =
     (case il_ByNodeID (st_participants s) participantID of
        None \<Rightarrow> Inl (InvalidSignerError Errorf)
      | Some identity \<Rightarrow> Inr identity)"

definition Static_committee :: "Static \<Rightarrow> committee" where
  "Static_committee s =
     \<lparr>LeaderForView = (\<lambda>_. Inl Errorf),
      QuorumThresholdForView = (\<lambda>_. Inr (WeightThresholdToBuildQC (il_TotalWeight (st_participants s)))),
      TimeoutThresholdForView = (\<lambda>_. Inr (WeightThresholdToTimeout (il_TotalWeight (st_participants s)))),
      Self = st_myID s,
      DKG = (\<lambda>_. Inr (st_dkg s)),
      IdentitiesByEpoch = (\<lambda>_. Inr (st_participants s)),
      IdentityByEpoch = (\<lambda>_. Static_identity s),
      IdentitiesByBlock = (\<lambda>_. Inr (st_participants s)),
      IdentityByBlock = (\<lambda>_. Static_identity s)\<rparr>"

text \<open>The weight of a member as a natural number, and a total that fits into 64 bits.\<close>

definition memberWeight :: "IdentityList \<Rightarrow> Identifier \<Rightarrow> nat" where
  "memberWeight il i = (case il_ByNodeID il i of None \<Rightarrow> 0 | Some x \<Rightarrow> unat (Weight x))"

definition weightsFit :: "IdentityList \<Rightarrow> bool" where
  "weightsFit il \<longleftrightarrow> (\<Sum>x\<leftarrow>il. unat (Weight x)) < 2 ^ 64"

definition committee_ok :: "IdentityList \<Rightarrow> bool" where
  "committee_ok il \<longleftrightarrow> IdentityListCanonical il \<and> weightsFit il"

lemma unat_sum_list:
  "(\<Sum>x\<leftarrow>xs. unat (g x)) < 2 ^ 64 \<Longrightarrow> unat (\<Sum>x\<leftarrow>xs. (g x :: uint64)) = (\<Sum>x\<leftarrow>xs. unat (g x))"
proof (induction xs)
  case (Cons x xs)
  then have IH: "unat (\<Sum>x\<leftarrow>xs. g x) = (\<Sum>x\<leftarrow>xs. unat (g x))" by simp
  with Cons.prems show ?case
    by (simp only: list.simps sum_list.Cons) (subst unat_add_lem [THEN iffD1], simp_all)
qed simp

lemma unat_TotalWeight: "weightsFit il \<Longrightarrow> unat (il_TotalWeight il) = (\<Sum>x\<leftarrow>il. unat (Weight x))"
  unfolding weightsFit_def il_TotalWeight_sum by (rule unat_sum_list)

lemma sum_memberWeight:
  assumes "distinct (map NodeID il)"
  shows "sum (memberWeight il) (set (map NodeID il)) = (\<Sum>x\<leftarrow>il. unat (Weight x))"
proof -
  have "memberWeight il (NodeID x) = unat (Weight x)" if "x \<in> set il" for x
    using il_ByNodeID_distinct [OF assms, of "NodeID x" x] that by (simp add: memberWeight_def)
  then have "(\<Sum>i\<leftarrow>map NodeID il. memberWeight il i) = (\<Sum>x\<leftarrow>il. unat (Weight x))"
    by (simp add: comp_def cong: map_cong)
  then show ?thesis using assms by (metis sum_list_distinct_conv_sum_set)
qed

lemma committee_total:
  assumes "committee_ok il"
  shows "sum (memberWeight il) (set (il_NodeIDs il)) = unat (il_TotalWeight il)"
  using assms sum_memberWeight [OF canonical_distinct] unat_TotalWeight
  by (simp add: committee_ok_def il_NodeIDs_def)

lemma quorum_arith:
  fixes w :: nat
  shows "2 * w < 3 * (2 * (w div 3) + max 1 (w mod 3))"
    and "3 * (2 * (w div 3) + max 1 (w mod 3) - 1) \<le> 2 * w"
proof -
  define q r where "q = w div 3" and "r = w mod 3"
  have "w = 3 * q + r" "r < 3" by (simp_all add: q_def r_def)
  then show "2 * w < 3 * (2 * (w div 3) + max 1 (w mod 3))"
    "3 * (2 * (w div 3) + max 1 (w mod 3) - 1) \<le> 2 * w"
    unfolding q_def [symmetric] r_def [symmetric] by (simp_all add: max_def) arith
qed

interpretation wc: weighted_committee
  "\<lambda>il. set (il_NodeIDs il)" memberWeight
  "\<lambda>il. unat (WeightThresholdToBuildQC (il_TotalWeight il))"
  "\<lambda>il. unat (WeightThresholdToTimeout (il_TotalWeight il))" committee_ok
proof (unfold_locales, goal_cases)
  case (2 il)
  show ?case
    unfolding unat_WeightThresholdToBuildQC committee_total [OF 2] by (rule quorum_arith)
next
  case (3 il)
  show ?case
    unfolding unat_WeightThresholdToBuildQC committee_total [OF 3] by (rule quorum_arith)
qed (auto simp: committee_total unat_WeightThresholdToTimeout)

text \<open>
  C33: \<open>WeightThresholdToBuildQC\<close> is the smallest weight that is more than two thirds of the total,
  \<open>WeightThresholdToTimeout\<close> the smallest that is more than one third, for every 64-bit total:
  the arithmetic never wraps around.
\<close>

theorem weight_thresholds_exact:
  "(t \<ge> unat (WeightThresholdToBuildQC w) \<longleftrightarrow> 2 * unat w < 3 * t)
   \<and> (t \<ge> unat (WeightThresholdToTimeout w) \<longleftrightarrow> unat w < 3 * t)"
  unfolding unat_WeightThresholdToBuildQC unat_WeightThresholdToTimeout
  using quorum_arith [of "unat w"] by (auto simp: max_def)


definition exampleCommittee :: IdentityList where
  "exampleCommittee = map (\<lambda>i. exampleIdentity i 100) [1, 2, 3, 4]"

definition exampleCom :: committee where
  "exampleCom = Static_committee (projr (NewStaticCommittee exampleCommittee 1 [] None))"


end
