(* ===== verification/Leader_Selection.thy ===== *)
theory Leader_Selection
  imports Committee
begin

text \<open>
  \<open>consensus/hotstuff/committees/leader\<close>: the pre-computed leader schedule of an epoch. The
  deterministic random source \<open>random.Rand\<close> is a parameter: \<open>UintN k n\<close> is the answer to its
  \<open>k\<close>-th call, made with the bound \<open>n\<close>.
\<close>

section \<open>Binary search\<close>

text \<open>
  The loop of \<open>binarySearchStrictlyBigger\<close>, one call per iteration, with the index check that Go
  makes on \<open>arr[mid]\<close>.
\<close>

function searchLoop :: "uint64 \<Rightarrow> uint64 list \<Rightarrow> nat \<Rightarrow> nat \<Rightarrow> nat \<Rightarrow> nat result" where
  "searchLoop v arr left right mid =
     (if mid \<ge> length arr then Inl Panic
      else
        let left' = (if arr ! mid \<le> v then mid + 1 else left);
            right' = (if arr ! mid \<le> v then right else mid) in
        if left' \<ge> right' then Inr left'
        else searchLoop v arr left' right' ((left' + right') div 2))"
  by pat_completeness auto
termination
proof (relation "measure (\<lambda>(v, arr, left, right, mid).
    if mid = (left + right) div 2 \<and> left < right then right - left else Suc (right + mid))", goal_cases)
  case (2 v arr left right mid left' right')
  then show ?case by (auto split: if_splits)
qed simp

declare searchLoop.simps [simp del]

definition binarySearchStrictlyBigger :: "uint64 \<Rightarrow> uint64 list \<Rightarrow> nat result" where
  "binarySearchStrictlyBigger v arr =
     searchLoop v arr 0 (length arr - 1) (length arr div 2)"

section \<open>Selecting leaders by weight\<close>

fun cumulativeSums :: "uint64 \<Rightarrow> uint64 list \<Rightarrow> uint64 list" where
  "cumulativeSums cumsum [] = []"
| "cumulativeSums cumsum (w # ws) = (cumsum + w) # cumulativeSums (cumsum + w) ws"

text \<open>The loop over the \<open>count\<close> views; \<open>k\<close> counts the calls of the random source.\<close>

fun selectLoop ::
  "(nat \<Rightarrow> uint64 \<Rightarrow> uint64) \<Rightarrow> uint64 \<Rightarrow> uint64 list \<Rightarrow> nat \<Rightarrow> nat \<Rightarrow> 16 word list result" where
  "selectLoop UintN cumsum weightSums k 0 = Inr []"
| "selectLoop UintN cumsum weightSums k (Suc n) =
     (case binarySearchStrictlyBigger (UintN k cumsum) weightSums of
        Inl e \<Rightarrow> Inl e
      | Inr leader \<Rightarrow>
          (case selectLoop UintN cumsum weightSums (Suc k) n of
             Inl e \<Rightarrow> Inl e
           | Inr leaders \<Rightarrow> Inr (of_nat leader # leaders)))"

definition weightedRandomSelection ::
  "(nat \<Rightarrow> uint64 \<Rightarrow> uint64) \<Rightarrow> nat \<Rightarrow> uint64 list \<Rightarrow> 16 word list result" where
  "weightedRandomSelection UintN cnt weights =
     (if length weights = 0 then Inl Errorf
      else if length weights \<ge> 65535 then Inl Errorf
      else
        let weightSums = cumulativeSums 0 weights;
            cumsum = last weightSums in
        if cumsum = 0 then Inl Errorf
        else selectLoop UintN cumsum weightSums 0 cnt)"

record LeaderSelection =
  ls_memberIDs :: "Identifier list"
  ls_leaderIndexes :: "16 word list"
  ls_firstView :: uint64

definition FirstView :: "LeaderSelection \<Rightarrow> uint64" where
  "FirstView l = ls_firstView l"

definition FinalView :: "LeaderSelection \<Rightarrow> uint64" where
  "FinalView l = ls_firstView l + of_nat (length (ls_leaderIndexes l)) - 1"

definition newInvalidViewError :: "LeaderSelection \<Rightarrow> uint64 \<Rightarrow> error" where
  "newInvalidViewError l view = InvalidViewError view (FirstView l) (FinalView l)"

definition LeaderSelection_LeaderForView :: "LeaderSelection \<Rightarrow> uint64 \<Rightarrow> Identifier result" where
  "LeaderSelection_LeaderForView l view =
     (if view < FirstView l then Inl (newInvalidViewError l view)
      else if view > FinalView l then Inl (newInvalidViewError l view)
      else
        let viewIndex = unat (view - ls_firstView l) in
        if viewIndex \<ge> length (ls_leaderIndexes l) then Inl Panic
        else
          let leaderIndex = unat (ls_leaderIndexes l ! viewIndex) in
          if leaderIndex \<ge> length (ls_memberIDs l) then Inl Panic
          else Inr (ls_memberIDs l ! leaderIndex))"

definition ComputeLeaderSelection ::
  "uint64 \<Rightarrow> (nat \<Rightarrow> uint64 \<Rightarrow> uint64) \<Rightarrow> int \<Rightarrow> IdentityList \<Rightarrow> LeaderSelection result" where
  "ComputeLeaderSelection firstView rng cnt identities =
     (if cnt < 1 then Inl Errorf
      else
        case weightedRandomSelection rng (nat cnt) (map Weight identities) of
          Inl e \<Rightarrow> Inl (wrapf e)
        | Inr leaders \<Rightarrow>
            Inr \<lparr>ls_memberIDs = il_NodeIDs identities, ls_leaderIndexes = leaders,
                 ls_firstView = firstView\<rparr>)"

section \<open>The search finds the first strictly bigger item\<close>

definition firstBigger :: "uint64 \<Rightarrow> uint64 list \<Rightarrow> nat \<Rightarrow> bool" where
  "firstBigger v arr k \<longleftrightarrow> k < length arr \<and> v < arr ! k \<and> (\<forall>j<k. arr ! j \<le> v)"

lemma firstBigger_unique: "firstBigger v arr j \<Longrightarrow> firstBigger v arr k \<Longrightarrow> j = k"
  unfolding firstBigger_def by (metis leD linorder_neqE_nat)

lemma searchLoop_spec:
  assumes "sorted arr"
  shows "left \<le> mid \<Longrightarrow> mid \<le> right \<Longrightarrow> right < length arr \<Longrightarrow> \<forall>j<left. arr ! j \<le> v \<Longrightarrow>
    v < arr ! right \<Longrightarrow> \<exists>k. searchLoop v arr left right mid = Inr k \<and> firstBigger v arr k"
  using assms
proof (induction v arr left right mid rule: searchLoop.induct)
  case (1 v arr left right mid)
  have mid: "\<not> mid \<ge> length arr" using "1.prems" by simp
  define l where "l = (if arr ! mid \<le> v then mid + 1 else left)"
  define r where "r = (if arr ! mid \<le> v then right else mid)"
  have below: "arr ! j \<le> v" if j: "j < l" for j
  proof (cases "arr ! mid \<le> v")
    case True
    then have "arr ! j \<le> arr ! mid"
      using j mid \<open>sorted arr\<close> by (intro sorted_nth_mono) (auto simp: l_def)
    with True show ?thesis by simp
  qed (use j "1.prems"(4) in \<open>simp add: l_def\<close>)
  have above: "v < arr ! r" "r < length arr" using "1.prems" mid by (auto simp: r_def not_le)
  have le: "l \<le> r"
  proof (cases "arr ! mid \<le> v")
    case True
    then have "mid \<noteq> right" using "1.prems"(5) by auto
    with True "1.prems"(2) show ?thesis by (simp add: l_def r_def)
  qed (use "1.prems"(1) in \<open>simp add: l_def r_def\<close>)
  have step: "searchLoop v arr left right mid
      = (if l \<ge> r then Inr l else searchLoop v arr l r ((l + r) div 2))"
    unfolding searchLoop.simps [of v arr left right mid] l_def r_def Let_def using mid by (simp only: if_False)
  show ?case
  proof (cases "l \<ge> r")
    case True
    then have "l = r" using le by simp
    with above below have "firstBigger v arr l" by (auto simp: firstBigger_def)
    with step True show ?thesis by simp
  next
    case False
    have "\<exists>k. searchLoop v arr l r ((l + r) div 2) = Inr k \<and> firstBigger v arr k"
      using False above below \<open>sorted arr\<close>
      by (intro "1.IH" [OF mid l_def r_def False]) auto
    with step False show ?thesis by simp
  qed
qed

lemma binarySearch_spec:
  assumes "sorted arr" and "arr \<noteq> []" and "v < last arr"
  shows "\<exists>k. binarySearchStrictlyBigger v arr = Inr k \<and> firstBigger v arr k"
  using assms unfolding binarySearchStrictlyBigger_def
  by (intro searchLoop_spec) (auto simp: last_conv_nth)

section \<open>Weight ranges\<close>

text \<open>The natural-number sum of the first \<open>k\<close> weights.\<close>

definition weightBelow :: "uint64 list \<Rightarrow> nat \<Rightarrow> nat" where
  "weightBelow ws k = sum_list (take k (map unat ws))"

definition totalFits :: "uint64 list \<Rightarrow> bool" where
  "totalFits ws \<longleftrightarrow> sum_list (map unat ws) < 2 ^ 64"

lemma length_cumulativeSums [simp]: "length (cumulativeSums c ws) = length ws"
  by (induction ws arbitrary: c) simp_all

lemma nth_cumulativeSums:
  "unat c + sum_list (map unat ws) < 2 ^ 64 \<Longrightarrow> k < length ws \<Longrightarrow>
   unat (cumulativeSums c ws ! k) = unat c + weightBelow ws (Suc k)"
proof (induction ws arbitrary: c k)
  case (Cons w ws)
  have cw: "unat (c + w) = unat c + unat w"
    using Cons.prems(1) by (subst unat_add_lem [THEN iffD1]) simp_all
  show ?case
  proof (cases k)
    case 0
    then show ?thesis using cw by (simp add: weightBelow_def)
  next
    case (Suc j)
    have "unat (cumulativeSums (c + w) ws ! j) = unat (c + w) + weightBelow ws (Suc j)"
      using Cons.prems Suc cw by (intro Cons.IH) simp_all
    then show ?thesis using cw Suc by (simp add: weightBelow_def)
  qed
qed simp

lemma weightBelow_Suc: "k < length ws \<Longrightarrow> weightBelow ws (Suc k) = weightBelow ws k + unat (ws ! k)"
  by (simp add: weightBelow_def take_Suc_conv_app_nth)

lemma weightBelow_le: "weightBelow ws k \<le> sum_list (map unat ws)"
proof -
  have "sum_list (map unat ws) = weightBelow ws k + sum_list (drop k (map unat ws))"
    unfolding weightBelow_def sum_list_append [symmetric] by simp
  then show ?thesis by simp
qed

lemma weightBelow_mono: "j \<le> k \<Longrightarrow> weightBelow ws j \<le> weightBelow ws k"
  by (auto simp: weightBelow_def take_add dest!: le_Suc_ex)

lemma sorted_cumulativeSums:
  assumes "totalFits ws"
  shows "sorted (cumulativeSums 0 ws)"
  unfolding sorted_iff_nth_mono
proof (intro allI impI)
  fix i j assume "i \<le> j" "j < length (cumulativeSums 0 ws)"
  with assms show "cumulativeSums 0 ws ! i \<le> cumulativeSums 0 ws ! j"
    by (simp add: word_le_nat_alt nth_cumulativeSums totalFits_def weightBelow_mono)
qed

lemma last_cumulativeSums:
  assumes "totalFits ws" and "ws \<noteq> []"
  shows "unat (last (cumulativeSums 0 ws)) = sum_list (map unat ws)"
proof -
  have ne: "cumulativeSums 0 ws \<noteq> []" using assms(2) by (cases ws) auto
  have "unat (cumulativeSums 0 ws ! (length ws - 1)) = weightBelow ws (length ws)"
    using assms nth_cumulativeSums [of 0 ws "length ws - 1"] by (cases ws) (auto simp: totalFits_def)
  with ne show ?thesis by (simp add: last_conv_nth weightBelow_def)
qed

lemma firstBigger_cumulative:
  assumes "totalFits ws"
  shows "firstBigger v (cumulativeSums 0 ws) k \<longleftrightarrow>
    k < length ws \<and> weightBelow ws k \<le> unat v \<and> unat v < weightBelow ws (Suc k)"
proof -
  have nth: "unat (cumulativeSums 0 ws ! j) = weightBelow ws (Suc j)" if "j < length ws" for j
    using nth_cumulativeSums [of 0 ws j] assms that by (simp add: totalFits_def)
  have "(\<forall>j<k. weightBelow ws (Suc j) \<le> unat v) \<longleftrightarrow> weightBelow ws k \<le> unat v"
  proof
    assume "\<forall>j<k. weightBelow ws (Suc j) \<le> unat v"
    then show "weightBelow ws k \<le> unat v" by (cases k) (auto simp: weightBelow_def)
  next
    assume "weightBelow ws k \<le> unat v"
    then show "\<forall>j<k. weightBelow ws (Suc j) \<le> unat v"
      using weightBelow_mono [of _ k ws] by (meson Suc_leI le_trans)
  qed
  then show ?thesis
    by (auto simp: firstBigger_def word_less_nat_alt word_le_nat_alt nth)
qed

lemma selected_iff:
  assumes "totalFits ws" and "ws \<noteq> []" and "unat v < sum_list (map unat ws)"
  shows "binarySearchStrictlyBigger v (cumulativeSums 0 ws) = Inr k \<longleftrightarrow>
    k < length ws \<and> weightBelow ws k \<le> unat v \<and> unat v < weightBelow ws (Suc k)"
proof -
  have "v < last (cumulativeSums 0 ws)"
    using assms last_cumulativeSums [OF assms(1,2)] by (simp add: word_less_nat_alt)
  moreover have "cumulativeSums 0 ws \<noteq> []" using assms(2) by (cases ws) auto
  ultimately obtain j where j: "binarySearchStrictlyBigger v (cumulativeSums 0 ws) = Inr j"
    "firstBigger v (cumulativeSums 0 ws) j"
    using binarySearch_spec [OF sorted_cumulativeSums [OF assms(1)]] by blast
  have "binarySearchStrictlyBigger v (cumulativeSums 0 ws) = Inr k \<longleftrightarrow>
      firstBigger v (cumulativeSums 0 ws) k"
    using j firstBigger_unique [OF j(2), of k] by (cases "j = k") auto
  then show ?thesis unfolding firstBigger_cumulative [OF assms(1)] .
qed

text \<open>
  C32: leaders are drawn in proportion to their weight: of the \<open>cumsum\<close> possible random numbers,
  exactly \<open>weights[k]\<close> many select index \<open>k\<close>; in particular a node without weight is never
  selected.
\<close>

theorem selection_proportional_to_weight:
  assumes "totalFits ws" and "k < length ws"
  shows "card {v. v < last (cumulativeSums 0 ws)
      \<and> binarySearchStrictlyBigger v (cumulativeSums 0 ws) = Inr k} = unat (ws ! k)"
proof -
  have ne: "ws \<noteq> []" using assms(2) by auto
  have tot: "weightBelow ws (Suc k) \<le> sum_list (map unat ws)" by (rule weightBelow_le)
  then have fit: "weightBelow ws (Suc k) < 2 ^ 64" using assms(1) by (simp add: totalFits_def)
  have last: "v < last (cumulativeSums 0 ws) \<longleftrightarrow> unat v < sum_list (map unat ws)" for v
    using last_cumulativeSums [OF assms(1) ne] by (simp add: word_less_nat_alt)
  have "{v. v < last (cumulativeSums 0 ws) \<and> binarySearchStrictlyBigger v (cumulativeSums 0 ws) = Inr k}
      = {v. weightBelow ws k \<le> unat v \<and> unat v < weightBelow ws (Suc k)}" (is "_ = ?S")
  proof (intro Collect_cong iffI)
    fix v assume "v < last (cumulativeSums 0 ws)
        \<and> binarySearchStrictlyBigger v (cumulativeSums 0 ws) = Inr k"
    then show "weightBelow ws k \<le> unat v \<and> unat v < weightBelow ws (Suc k)"
      using selected_iff [OF assms(1) ne] last by blast
  next
    fix v :: uint64 assume v: "weightBelow ws k \<le> unat v \<and> unat v < weightBelow ws (Suc k)"
    then have "unat v < sum_list (map unat ws)" using tot by linarith
    with v show "v < last (cumulativeSums 0 ws)
        \<and> binarySearchStrictlyBigger v (cumulativeSums 0 ws) = Inr k"
      using selected_iff [OF assms(1) ne] last assms(2) by blast
  qed
  moreover have "bij_betw unat ?S {weightBelow ws k ..< weightBelow ws (Suc k)}"
  proof (rule bij_betw_imageI)
    show "inj_on (unat :: uint64 \<Rightarrow> nat) ?S" by (simp add: inj_on_def word_unat_eq_iff)
    show "unat ` ?S = {weightBelow ws k ..< weightBelow ws (Suc k)}"
    proof (intro set_eqI iffI)
      fix n assume n: "n \<in> {weightBelow ws k ..< weightBelow ws (Suc k)}"
      then have "n < 2 ^ LENGTH(64)" using fit by simp
      then have "unat (of_nat n :: uint64) = n" by (simp add: unat_of_nat take_bit_nat_eq_self)
      with n show "n \<in> unat ` ?S" by (intro image_eqI [of _ _ "of_nat n"]) auto
    qed auto
  qed
  then have "card ?S = weightBelow ws (Suc k) - weightBelow ws k"
    using bij_betw_same_card by fastforce
  ultimately show ?thesis using weightBelow_Suc [OF assms(2)] by simp
qed

theorem selection_proportional_to_weight_witness:
  "card {v. v < last (cumulativeSums 0 [100, 0, 50])
      \<and> binarySearchStrictlyBigger v (cumulativeSums 0 [100, 0, 50]) = Inr 2} = 50"
  using selection_proportional_to_weight [of "[100, 0, 50]" 2] by (simp add: totalFits_def)

section \<open>Every view of the schedule has a leader with weight\<close>

lemma selectLoop_ok:
  assumes fit: "totalFits ws" and ne: "ws \<noteq> []" and len: "length ws < 65535"
    and rng: "\<forall>k n. 0 < n \<longrightarrow> UintN k n < n" and pos: "0 < last (cumulativeSums 0 ws)"
  shows "\<exists>ls. selectLoop UintN (last (cumulativeSums 0 ws)) (cumulativeSums 0 ws) k n = Inr ls
    \<and> length ls = n \<and> (\<forall>l\<in>set ls. unat l < length ws \<and> 0 < ws ! unat l)"
proof (induction n arbitrary: k)
  case (Suc n)
  let ?t = "last (cumulativeSums 0 ws)" and ?s = "cumulativeSums 0 ws"
  have "UintN k ?t < ?t" using rng pos by blast
  then have v: "unat (UintN k ?t) < sum_list (map unat ws)"
    using last_cumulativeSums [OF fit ne] by (simp add: word_less_nat_alt)
  have "UintN k ?t < last ?s" using \<open>UintN k ?t < ?t\<close> .
  moreover have "?s \<noteq> []" using ne by (cases ws) auto
  ultimately obtain j where j: "binarySearchStrictlyBigger (UintN k ?t) ?s = Inr j"
    using binarySearch_spec [OF sorted_cumulativeSums [OF fit]] by blast
  then have J: "j < length ws" "weightBelow ws j < weightBelow ws (Suc j)"
    using selected_iff [OF fit ne v, of j] by auto
  then have "0 < ws ! j" using weightBelow_Suc [OF J(1)] by (simp add: word_less_nat_alt)
  moreover have "unat (of_nat j :: 16 word) = j"
    using J(1) len by (simp add: unat_of_nat take_bit_nat_eq_self)
  moreover obtain ls where "selectLoop UintN ?t ?s (Suc k) n = Inr ls" "length ls = n"
    "\<forall>l\<in>set ls. unat l < length ws \<and> 0 < ws ! unat l"
    using Suc.IH by blast
  ultimately show ?case using j J(1) by simp
qed simp

lemma ComputeLeaderSelection_ok:
  assumes "totalFits (map Weight il)" and "\<exists>x\<in>set il. 0 < Weight x" and "length il < 65535"
    and rng: "\<forall>k n. 0 < n \<longrightarrow> UintN k n < n" and "1 \<le> cnt"
  shows "\<exists>l. ComputeLeaderSelection first UintN cnt il = Inr l \<and> ls_memberIDs l = map NodeID il
    \<and> ls_firstView l = first \<and> length (ls_leaderIndexes l) = nat cnt
    \<and> (\<forall>j\<in>set (ls_leaderIndexes l). unat j < length il \<and> 0 < Weight (il ! unat j))"
proof -
  let ?ws = "map Weight il"
  have ne: "?ws \<noteq> []" using assms(2) by auto
  have "0 < sum_list (map unat ?ws)"
    using assms(2) by (auto simp: word_less_nat_alt sum_list_nonneg_eq_0_iff neq0_conv [symmetric] simp del: neq0_conv)
  then have pos: "0 < last (cumulativeSums 0 ?ws)"
    using last_cumulativeSums [OF assms(1) ne] by (simp add: word_less_nat_alt)
  then have pos': "last (cumulativeSums 0 ?ws) \<noteq> 0" by auto
  obtain ls where ls: "selectLoop UintN (last (cumulativeSums 0 ?ws)) (cumulativeSums 0 ?ws) 0 (nat cnt) = Inr ls"
    "length ls = nat cnt" "\<forall>l\<in>set ls. unat l < length ?ws \<and> 0 < ?ws ! unat l"
    using selectLoop_ok [OF assms(1) ne _ rng pos, where k = 0 and n = "nat cnt"] assms(3) by auto
  then have "\<forall>l\<in>set ls. unat l < length il \<and> 0 < Weight (il ! unat l)" by auto
  with ls(1,2) ne pos' assms(3,5) show ?thesis
    by (simp add: ComputeLeaderSelection_def weightedRandomSelection_def Let_def il_NodeIDs_def)
qed

lemma view_range:
  assumes "unat first + n \<le> 2 ^ 64" and "0 < n"
  shows "unat (first + of_nat n - 1 :: uint64) = unat first + n - 1"
proof -
  obtain m where m: "n = Suc m" using assms(2) by (cases n) auto
  have "unat (of_nat m :: uint64) = m"
    using assms(1) m by (simp add: unat_of_nat take_bit_nat_eq_self)
  then have "unat (first + of_nat m) = unat first + m"
    using assms(1) m by (subst unat_add_lem [THEN iffD1]) simp_all
  then show ?thesis by (simp add: m)
qed

text \<open>
  C31: a computed schedule answers every view of its range, and exactly those, with the node ID of
  a committee member that has weight; outside of the range it returns \<open>InvalidViewError\<close>. No
  index is out of bounds.
\<close>

theorem leader_for_every_view:
  assumes "totalFits (map Weight il)" and "\<exists>x\<in>set il. 0 < Weight x" and "length il < 65535"
    and "\<forall>k n. 0 < n \<longrightarrow> UintN k n < n" and "1 \<le> cnt" and "unat first + nat cnt \<le> 2 ^ 64"
  shows "\<exists>l. ComputeLeaderSelection first UintN cnt il = Inr l
    \<and> (\<forall>view. if unat first \<le> unat view \<and> unat view < unat first + nat cnt
         then \<exists>x\<in>set il. 0 < Weight x \<and> LeaderSelection_LeaderForView l view = Inr (NodeID x)
         else LeaderSelection_LeaderForView l view
                = Inl (InvalidViewError view first (first + of_nat (nat cnt) - 1)))"
proof -
  obtain l where l: "ComputeLeaderSelection first UintN cnt il = Inr l" "ls_memberIDs l = map NodeID il"
    "ls_firstView l = first" "length (ls_leaderIndexes l) = nat cnt"
    "\<forall>j\<in>set (ls_leaderIndexes l). unat j < length il \<and> 0 < Weight (il ! unat j)"
    using ComputeLeaderSelection_ok [OF assms(1-5)] by blast
  have final: "unat (FinalView l) = unat first + nat cnt - 1"
    using view_range [OF assms(6)] assms(5) l(3,4) by (simp add: FinalView_def)
  have "if unat first \<le> unat view \<and> unat view < unat first + nat cnt
         then \<exists>x\<in>set il. 0 < Weight x \<and> LeaderSelection_LeaderForView l view = Inr (NodeID x)
         else LeaderSelection_LeaderForView l view
                = Inl (InvalidViewError view first (first + of_nat (nat cnt) - 1))" for view
  proof (cases "unat first \<le> unat view \<and> unat view < unat first + nat cnt")
    case True
    then have r: "\<not> view < first" "\<not> FinalView l < view"
      using final by (auto simp: word_less_nat_alt)
    have i: "unat (view - first) = unat view - unat first"
      using True by (simp add: unat_sub word_le_nat_alt)
    let ?j = "unat (ls_leaderIndexes l ! unat (view - first))"
    have lt: "unat (view - first) < length (ls_leaderIndexes l)" using True i l(4) by linarith
    then have j: "?j < length il" "0 < Weight (il ! ?j)" using l(5) nth_mem by blast+
    have "LeaderSelection_LeaderForView l view = Inr (NodeID (il ! ?j))"
      using r lt j(1) l(2,3) by (simp add: LeaderSelection_LeaderForView_def FirstView_def Let_def)
    with True j show ?thesis by (auto intro: nth_mem)
  next
    case False
    then have "view < first \<or> FinalView l < view"
      using final assms(5) by (auto simp: word_less_nat_alt)
    with False l(3,4) show ?thesis
      by (auto simp: LeaderSelection_LeaderForView_def newInvalidViewError_def FirstView_def FinalView_def)
  qed
  with l(1) show ?thesis by blast
qed

theorem leader_for_every_view_witness:
  "\<exists>l. ComputeLeaderSelection 10 (\<lambda>k n. if 0 < n then n - 1 else 0) 3 exampleCommittee = Inr l
    \<and> (\<exists>x\<in>set exampleCommittee. 0 < Weight x \<and> LeaderSelection_LeaderForView l 12 = Inr (NodeID x))"
proof -
  have w: "map Weight exampleCommittee = [100, 100, 100, 100]" "length exampleCommittee = 4"
    by (simp_all add: exampleCommittee_def exampleIdentity_def)
  have "\<exists>x\<in>set exampleCommittee. 0 < Weight x"
    by (simp add: exampleCommittee_def exampleIdentity_def)
  moreover have "(if 0 < n then n - 1 else 0) < n" if "0 < n" for n :: uint64
    using that by uint_arith
  ultimately obtain l where l: "ComputeLeaderSelection 10 (\<lambda>k n. if 0 < n then n - 1 else 0) 3 exampleCommittee = Inr l"
    and v: "\<And>view. if unat (10 :: uint64) \<le> unat view \<and> unat view < unat (10 :: uint64) + nat 3
         then \<exists>x\<in>set exampleCommittee. 0 < Weight x \<and> LeaderSelection_LeaderForView l view = Inr (NodeID x)
         else LeaderSelection_LeaderForView l view = Inl (InvalidViewError view 10 (10 + of_nat (nat 3) - 1))"
    using leader_for_every_view [of exampleCommittee "\<lambda>k n. if 0 < n then n - 1 else 0" 3 10] w
    by (auto simp: totalFits_def)
  from v [of 12] l show ?thesis by simp
qed

end
