(* ===== verification/Persister.thy ===== *)
theory Persister
  imports HotStuff_Model
begin

text \<open>
  \<open>consensus/hotstuff/persister\<close> over \<open>storage/badger/operation\<close>: how safety and liveness data
  reach the key-value store.

  The Badger store is outside this development. Its state is a map from keys to entities (a value
  is the entity that MsgPack decodes it to), and everything it may refuse is in the record
  \<open>badger\<close>: an error of a read, of a write, of encoding an entity, and the outcome of the
  \<open>n\<close>-th commit. A transaction whose function fails leaves the store as it was; a failed commit
  comes with whether its writes reached the disk all the same (a crash of the machine).
\<close>

section \<open>Persisted data\<close>

record SafetyData =
  LockedOneChainView :: uint64
  HighestAcknowledgedView :: uint64
  LastTimeout :: "TimeoutObject option"

record LivenessData =
  LD_CurrentView :: uint64
  LD_NewestQC :: "QuorumCertificate option"
  LD_LastViewTC :: "TimeoutCertificate option"

datatype entity = SafetyEntity SafetyData | LivenessEntity LivenessData

type_synonym badgerDB = "(bytes, entity) gomap"

record badger =
  getFault :: "bytes \<Rightarrow> error option"
  setFault :: "bytes \<Rightarrow> error option"
  marshalFault :: "entity \<Rightarrow> error option"
  commitFault :: "nat \<Rightarrow> (error \<times> bool) option"

section \<open>Operations on a transaction\<close>

definition tx_Get :: "badger \<Rightarrow> bytes \<Rightarrow> badgerDB \<Rightarrow> entity result" where
  "tx_Get bg key tx =
     (case getFault bg key of
        Some e \<Rightarrow> Inl e
      | None \<Rightarrow> (case map_of tx key of None \<Rightarrow> Inl Badger_ErrKeyNotFound | Some v \<Rightarrow> Inr v))"

definition tx_Set :: "badger \<Rightarrow> bytes \<Rightarrow> entity \<Rightarrow> badgerDB \<Rightarrow> badgerDB result" where
  "tx_Set bg key v tx =
     (case setFault bg key of Some e \<Rightarrow> Inl e | None \<Rightarrow> Inr (AList.update key v tx))"

definition makePrefix :: "byte \<Rightarrow> bytes \<Rightarrow> bytes" where
  "makePrefix code key = code # key"

definition codeSafetyData :: byte where "codeSafetyData = 10"
definition codeLivenessData :: byte where "codeLivenessData = 11"

definition op_update :: "badger \<Rightarrow> bytes \<Rightarrow> entity \<Rightarrow> badgerDB \<Rightarrow> badgerDB result" where
  "op_update bg key v tx =
     (case tx_Get bg key tx of
        Inl e \<Rightarrow>
          if errors_As (\<lambda>e. e = Badger_ErrKeyNotFound) e then Inl Storage_ErrNotFound
          else Inl (wrapf e)
      | Inr _ \<Rightarrow>
          (case marshalFault bg v of
             Some e \<Rightarrow> Inl (wrapf e)
           | None \<Rightarrow>
               (case tx_Set bg key v tx of
                  Inl e \<Rightarrow> Inl (wrapf e)
                | Inr tx' \<Rightarrow> Inr tx')))"

definition op_retrieve :: "badger \<Rightarrow> bytes \<Rightarrow> badgerDB \<Rightarrow> entity result" where
  "op_retrieve bg key tx =
     (case tx_Get bg key tx of
        Inl e \<Rightarrow>
          if errors_As (\<lambda>e. e = Badger_ErrKeyNotFound) e then Inl Storage_ErrNotFound
          else Inl (wrapf e)
      | Inr v \<Rightarrow> Inr v)"

text \<open>\<open>db.Update\<close>: run the function on a transaction, then commit; \<open>n\<close> counts the commits.\<close>

definition db_Update ::
  "badger \<Rightarrow> (badgerDB \<Rightarrow> badgerDB result) \<Rightarrow> nat \<Rightarrow> badgerDB \<Rightarrow> unit result \<times> badgerDB" where
  "db_Update bg fn n db =
     (case fn db of
        Inl e \<Rightarrow> (Inl e, db)
      | Inr db' \<Rightarrow>
          (case commitFault bg n of
             Some (e, applied) \<Rightarrow> (Inl e, if applied then db' else db)
           | None \<Rightarrow> (Inr (), db')))"

text \<open>The retry loop has no bound: \<open>None\<close> is a loop that never returns.\<close>

partial_function (option) RetryOnConflict ::
  "(nat \<Rightarrow> badgerDB \<Rightarrow> unit result \<times> badgerDB) \<Rightarrow> nat \<Rightarrow> badgerDB \<Rightarrow> (unit result \<times> badgerDB) option"
where
  "RetryOnConflict action n db =
     (case action n db of
        (Inl e, db') \<Rightarrow>
          if errors_As (\<lambda>e. e = Badger_ErrConflict) e then RetryOnConflict action (Suc n) db'
          else Some (Inl e, db')
      | (Inr u, db') \<Rightarrow> Some (Inr u, db'))"

declare RetryOnConflict.simps [code]

section \<open>The persister\<close>

definition GetSafetyData :: "badger \<Rightarrow> bytes \<Rightarrow> badgerDB \<Rightarrow> SafetyData result" where
  "GetSafetyData bg chainID db =
     (case op_retrieve bg (makePrefix codeSafetyData chainID) db of
        Inl e \<Rightarrow> Inl e
      | Inr (SafetyEntity d) \<Rightarrow> Inr d
      | Inr (LivenessEntity _) \<Rightarrow> Inl (Wrapf Errorf))"

definition GetLivenessData :: "badger \<Rightarrow> bytes \<Rightarrow> badgerDB \<Rightarrow> LivenessData result" where
  "GetLivenessData bg chainID db =
     (case op_retrieve bg (makePrefix codeLivenessData chainID) db of
        Inl e \<Rightarrow> Inl e
      | Inr (LivenessEntity d) \<Rightarrow> Inr d
      | Inr (SafetyEntity _) \<Rightarrow> Inl (Wrapf Errorf))"

definition PutSafetyData ::
  "badger \<Rightarrow> bytes \<Rightarrow> SafetyData \<Rightarrow> badgerDB \<Rightarrow> (unit result \<times> badgerDB) option" where
  "PutSafetyData bg chainID d db =
     RetryOnConflict
       (db_Update bg (op_update bg (makePrefix codeSafetyData chainID) (SafetyEntity d))) 0 db"

definition PutLivenessData ::
  "badger \<Rightarrow> bytes \<Rightarrow> LivenessData \<Rightarrow> badgerDB \<Rightarrow> (unit result \<times> badgerDB) option" where
  "PutLivenessData bg chainID d db =
     RetryOnConflict
       (db_Update bg (op_update bg (makePrefix codeLivenessData chainID) (LivenessEntity d))) 0 db"

section \<open>What is stored is what is read back\<close>

text \<open>
  Induction over the attempts: whatever conflicts came first, the store ends unchanged or with
  exactly the new value under the key, and with the new value when the call succeeds.
\<close>

lemma op_update_cases:
  "op_update bg key v db = Inr db' \<longleftrightarrow>
   getFault bg key = None \<and> map_of db key \<noteq> None \<and> marshalFault bg v = None \<and>
   setFault bg key = None \<and> db' = AList.update key v db"
  by (auto simp: op_update_def tx_Get_def tx_Set_def split: option.splits sum.splits if_splits)

lemma db_Update_stores:
  assumes "db_Update bg (op_update bg key v) n db = (r, db')"
  shows "db' = db \<or> getFault bg key = None \<and> db' = AList.update key v db"
    and "r = Inr u \<Longrightarrow> getFault bg key = None \<and> db' = AList.update key v db"
  using assms by (auto simp: db_Update_def op_update_cases split: sum.splits option.splits if_splits)

lemma alist_update_twice: "AList.update k v (AList.update k v m) = AList.update k v m"
  by (induction m) auto

lemma RetryOnConflict_stores:
  assumes "RetryOnConflict (db_Update bg (op_update bg key v)) n db = Some (r, db')"
  shows "(db' = db \<or> getFault bg key = None \<and> db' = AList.update key v db) \<and>
         (\<forall>u. r = Inr u \<longrightarrow> getFault bg key = None \<and> db' = AList.update key v db)"
  (is "?Q db r db'")
proof -
  let ?act = "db_Update bg (op_update bg key v)"
  have "?act = ?act \<longrightarrow> ?Q db (fst (r, db')) (snd (r, db'))"
    using assms
  proof (rule RetryOnConflict.raw_induct
      [where P = "\<lambda>a n d y. a = ?act \<longrightarrow> ?Q d (fst y) (snd y)", rotated])
    fix self action n0 db0 y
    assume IH: "\<And>a n d y. self a n d = Some y \<Longrightarrow> a = ?act \<longrightarrow> ?Q d (fst y) (snd y)"
      and y: "(case action n0 db0 of
          (Inl e, db') \<Rightarrow>
            if errors_As (\<lambda>e. e = Badger_ErrConflict) e then self action (Suc n0) db'
            else Some (Inl e, db')
        | (Inr u, db') \<Rightarrow> Some (Inr u, db')) = Some y"
    obtain r1 d1 where a: "action n0 db0 = (r1, d1)" by (cases "action n0 db0")
    show "action = ?act \<longrightarrow> ?Q db0 (fst y) (snd y)"
    proof
      assume act: "action = ?act"
      note st = db_Update_stores [OF a [unfolded act]]
      show "?Q db0 (fst y) (snd y)"
      proof (cases "\<exists>e. r1 = Inl e \<and> errors_As (\<lambda>e. e = Badger_ErrConflict) e")
        case True
        then have "self action (Suc n0) d1 = Some y" using y a by auto
        from IH [OF this] act have "?Q d1 (fst y) (snd y)" by blast
        then show ?thesis using st(1) by (metis alist_update_twice)
      next
        case False
        then have "y = (r1, d1)" using y a by (auto split: sum.splits)
        then show ?thesis using st by auto
      qed
    qed
  qed
  then show ?thesis by simp
qed

text \<open>
  The loop returns as soon as one attempt does not end in a conflict: a fault of the transaction
  itself is none, so the first commit that is not refused for a conflict ends it.
\<close>

definition conflict :: "error \<Rightarrow> bool" where
  "conflict e = errors_As (\<lambda>e. e = Badger_ErrConflict) e"

definition noTxConflict :: "badger \<Rightarrow> bool" where
  "noTxConflict bg \<longleftrightarrow>
     (\<forall>k e. getFault bg k = Some e \<longrightarrow> \<not> conflict e) \<and>
     (\<forall>k e. setFault bg k = Some e \<longrightarrow> \<not> conflict e) \<and>
     (\<forall>v e. marshalFault bg v = Some e \<longrightarrow> \<not> conflict e)"

lemma op_update_no_conflict:
  "\<lbrakk>noTxConflict bg; op_update bg key v db = Inl e\<rbrakk> \<Longrightarrow> \<not> conflict e"
  unfolding op_update_def tx_Get_def tx_Set_def noTxConflict_def
  by (auto simp: conflict_def wrapf_def split: option.splits sum.splits if_splits)

lemma db_Update_conflict:
  assumes "noTxConflict bg" "db_Update bg (op_update bg key v) n db = (Inl e, db')" "conflict e"
  shows "\<exists>b. commitFault bg n = Some (e, b)"
  using assms op_update_no_conflict [OF assms(1)]
  by (auto simp: db_Update_def split: sum.splits option.splits if_splits)

lemma RetryOnConflict_returns:
  assumes "noTxConflict bg" "\<not> (\<exists>e b. commitFault bg m = Some (e, b) \<and> conflict e)" "n \<le> m"
  shows "\<exists>y. RetryOnConflict (db_Update bg (op_update bg key v)) n db = Some y"
  using assms(3)
proof (induction "m - n" arbitrary: n db)
  case 0
  obtain r d where a: "db_Update bg (op_update bg key v) n db = (r, d)" by (cases "db_Update bg (op_update bg key v) n db")
  then show ?case
    using 0 assms(1,2) db_Update_conflict [OF assms(1)]
    by (subst RetryOnConflict.simps) (fastforce simp: conflict_def split: sum.splits)
next
  case (Suc k)
  obtain r d where a: "db_Update bg (op_update bg key v) n db = (r, d)" by (cases "db_Update bg (op_update bg key v) n db")
  have "\<exists>y. RetryOnConflict (db_Update bg (op_update bg key v)) (Suc n) d = Some y"
    using Suc by simp
  then show ?case
    using a by (subst RetryOnConflict.simps) (auto split: sum.splits)
qed

section \<open>The contract of a persister\<close>

text \<open>
  What the users of the interface \<open>hotstuff.Persister\<close> rely on. \<open>get\<close> is the stored data; \<open>gets\<close> and
  \<open>puts\<close> are the ways in which a call of the persister may turn out, with faults that differ from
  call to call. A read that succeeds returns the stored data; after a successful write the written
  data is stored, also for a new process; after a failed one the old or the new data is.
\<close>

locale persister =
  fixes get :: "'db \<Rightarrow> 'd result"
    and gets :: "('db \<Rightarrow> 'd result) set"
    and puts :: "('d \<Rightarrow> 'db \<Rightarrow> unit result \<times> 'db) set"
  assumes get_ok: "\<lbrakk>g \<in> gets; g db = Inr d\<rbrakk> \<Longrightarrow> get db = Inr d"
    and put_ok: "\<lbrakk>put \<in> puts; put d db = (Inr u, db')\<rbrakk> \<Longrightarrow> get db' = Inr d"
    and put_err: "\<lbrakk>put \<in> puts; put d db = (Inl e, db')\<rbrakk> \<Longrightarrow> get db' = get db \<or> get db' = Inr d"
begin

lemma put_cases:
  assumes "put \<in> puts" "put d db = (r, db')"
  shows "get db' = Inr d \<or> get db' = get db \<and> (\<exists>e. r = Inl e)"
  using assms put_ok put_err by (cases r) blast+

end

text \<open>A call that never returns leaves its caller without an answer, which is a failure here.\<close>

definition putSafety :: "badger \<Rightarrow> bytes \<Rightarrow> SafetyData \<Rightarrow> badgerDB \<Rightarrow> unit result \<times> badgerDB" where
  "putSafety bg chainID d db =
     (case PutSafetyData bg chainID d db of Some y \<Rightarrow> y | None \<Rightarrow> (Inl Panic, db))"

definition putLiveness :: "badger \<Rightarrow> bytes \<Rightarrow> LivenessData \<Rightarrow> badgerDB \<Rightarrow> unit result \<times> badgerDB" where
  "putLiveness bg chainID d db =
     (case PutLivenessData bg chainID d db of Some y \<Rightarrow> y | None \<Rightarrow> (Inl Panic, db))"

lemma op_retrieve_update:
  "getFault bg key = None \<Longrightarrow> op_retrieve bg key (AList.update key v db) = Inr v"
  by (simp add: op_retrieve_def tx_Get_def update_conv')

lemma op_retrieve_other:
  "key' \<noteq> key \<Longrightarrow> op_retrieve bg key' (AList.update key v db) = op_retrieve bg key' db"
proof -
  assume "key' \<noteq> key"
  then have "map_of (AList.update key v db) key' = map_of db key'" by (simp add: update_conv')
  then show ?thesis unfolding op_retrieve_def tx_Get_def by (rule ssubst) (rule refl)
qed

lemmas get_data_defs =
  GetSafetyData_def GetLivenessData_def op_retrieve_update op_retrieve_other

text \<open>The stored data, read without faults; and the calls, with arbitrary faults.\<close>

definition noFaults :: badger where
  "noFaults = \<lparr>getFault = \<lambda>_. None, setFault = \<lambda>_. None, marshalFault = \<lambda>_. None, commitFault = \<lambda>_. None\<rparr>"

definition storedSafety :: "bytes \<Rightarrow> badgerDB \<Rightarrow> SafetyData result" where
  "storedSafety chainID = GetSafetyData noFaults chainID"

definition storedLiveness :: "bytes \<Rightarrow> badgerDB \<Rightarrow> LivenessData result" where
  "storedLiveness chainID = GetLivenessData noFaults chainID"

lemma getFault_noFaults [simp]: "getFault noFaults k = None"
  by (simp add: noFaults_def)

lemma op_retrieve_noFaults: "op_retrieve bg key db = Inr v \<Longrightarrow> op_retrieve noFaults key db = Inr v"
  by (auto simp: op_retrieve_def tx_Get_def split: option.splits if_splits)

lemma put_stores:
  "putSafety bg c d db = (r, db') \<Longrightarrow>
     (db' = db \<or> db' = AList.update (makePrefix codeSafetyData c) (SafetyEntity d) db)
     \<and> (r = Inr () \<longrightarrow> db' = AList.update (makePrefix codeSafetyData c) (SafetyEntity d) db)"
  "putLiveness bg c l db = (r, db') \<Longrightarrow>
     (db' = db \<or> db' = AList.update (makePrefix codeLivenessData c) (LivenessEntity l) db)
     \<and> (r = Inr () \<longrightarrow> db' = AList.update (makePrefix codeLivenessData c) (LivenessEntity l) db)"
  using RetryOnConflict_stores [of bg "makePrefix codeSafetyData c" "SafetyEntity d" 0 db r db']
    RetryOnConflict_stores [of bg "makePrefix codeLivenessData c" "LivenessEntity l" 0 db r db']
  by (auto simp: putSafety_def PutSafetyData_def putLiveness_def PutLivenessData_def split: option.splits)

interpretation sd: persister "storedSafety c" "range (\<lambda>bg. GetSafetyData bg c)" "range (\<lambda>bg. putSafety bg c)" for c
proof
  show "storedSafety c db = Inr d" if "g \<in> range (\<lambda>bg. GetSafetyData bg c)" "g db = Inr d" for g db d
    using that op_retrieve_noFaults
    by (fastforce simp: storedSafety_def GetSafetyData_def split: sum.splits entity.splits)
  show "storedSafety c db' = Inr d" if "put \<in> range (\<lambda>bg. putSafety bg c)" "put d db = (Inr u, db')"
    for put d db u db'
  proof -
    have "\<exists>bg. putSafety bg c d db = (Inr (), db')" using that by auto
    then obtain bg where "putSafety bg c d db = (Inr (), db')" by blast
    from put_stores(1) [OF this] show ?thesis by (simp add: storedSafety_def get_data_defs)
  qed
  show "storedSafety c db' = storedSafety c db \<or> storedSafety c db' = Inr d"
    if "put \<in> range (\<lambda>bg. putSafety bg c)" "put d db = (Inl e, db')" for put d db e db'
    using that put_stores(1) by (fastforce simp: storedSafety_def get_data_defs)
qed

interpretation ld: persister "storedLiveness c" "range (\<lambda>bg. GetLivenessData bg c)" "range (\<lambda>bg. putLiveness bg c)"
  for c
proof
  show "storedLiveness c db = Inr d" if "g \<in> range (\<lambda>bg. GetLivenessData bg c)" "g db = Inr d" for g db d
    using that op_retrieve_noFaults
    by (fastforce simp: storedLiveness_def GetLivenessData_def split: sum.splits entity.splits)
  show "storedLiveness c db' = Inr d" if "put \<in> range (\<lambda>bg. putLiveness bg c)" "put d db = (Inr u, db')"
    for put d db u db'
  proof -
    have "\<exists>bg. putLiveness bg c d db = (Inr (), db')" using that by auto
    then obtain bg where "putLiveness bg c d db = (Inr (), db')" by blast
    from put_stores(2) [OF this] show ?thesis by (simp add: storedLiveness_def get_data_defs)
  qed
  show "storedLiveness c db' = storedLiveness c db \<or> storedLiveness c db' = Inr d"
    if "put \<in> range (\<lambda>bg. putLiveness bg c)" "put d db = (Inl e, db')" for put d db e db'
    using that put_stores(2) by (fastforce simp: storedLiveness_def get_data_defs)
qed

text \<open>
  C26: persisting safety data terminates once one commit is not refused for a conflict, whatever
  conflicts came before. When it reports success, the data read back is the data written, and no
  other chain's safety data and nobody's liveness data has changed.
\<close>

theorem safety_data_roundtrip:
  assumes "noTxConflict bg" "\<not> (\<exists>e b. commitFault bg m = Some (e, b) \<and> conflict e)"
  shows "\<exists>r db'. PutSafetyData bg chainID d db = Some (r, db') \<and>
           (r = Inr () \<longrightarrow> GetSafetyData bg chainID db' = Inr d) \<and>
           (\<forall>c. c \<noteq> chainID \<longrightarrow> GetSafetyData bg c db' = GetSafetyData bg c db) \<and>
           (\<forall>c. GetLivenessData bg c db' = GetLivenessData bg c db)"
proof -
  obtain r db' where p: "PutSafetyData bg chainID d db = Some (r, db')"
    using RetryOnConflict_returns [OF assms, of 0] unfolding PutSafetyData_def by fastforce
  note st = RetryOnConflict_stores [OF p [unfolded PutSafetyData_def]]
  have "GetSafetyData bg chainID db' = Inr d" if "r = Inr ()"
    using st that by (auto simp: get_data_defs)
  moreover have "GetSafetyData bg c db' = GetSafetyData bg c db" if "c \<noteq> chainID" for c
    using st that by (auto simp: get_data_defs makePrefix_def)
  moreover have "GetLivenessData bg c db' = GetLivenessData bg c db" for c
    using st
    by (auto simp: get_data_defs makePrefix_def codeSafetyData_def codeLivenessData_def)
  ultimately show ?thesis using p by blast
qed

definition exampleBadger :: badger where
  "exampleBadger =
     \<lparr> getFault = \<lambda>_. None, setFault = \<lambda>_. None, marshalFault = \<lambda>_. None,
       commitFault = \<lambda>n. if n = 0 then Some (Badger_ErrConflict, False) else None \<rparr>"

definition exampleSafetyData :: SafetyData where
  "exampleSafetyData = \<lparr> LockedOneChainView = 3, HighestAcknowledgedView = 5, LastTimeout = None \<rparr>"

definition exampleDB :: badgerDB where
  "exampleDB = [([10, 7], SafetyEntity \<lparr> LockedOneChainView = 0, HighestAcknowledgedView = 0, LastTimeout = None \<rparr>)]"

theorem safety_data_roundtrip_witness:
  "\<exists>r db'. PutSafetyData exampleBadger [7] exampleSafetyData exampleDB = Some (r, db') \<and>
     (r = Inr () \<longrightarrow> GetSafetyData exampleBadger [7] db' = Inr exampleSafetyData) \<and>
     (\<forall>c. c \<noteq> [7] \<longrightarrow> GetSafetyData exampleBadger c db' = GetSafetyData exampleBadger c exampleDB) \<and>
     (\<forall>c. GetLivenessData exampleBadger c db' = GetLivenessData exampleBadger c exampleDB)"
  by (rule safety_data_roundtrip [of _ 1]) (simp_all add: exampleBadger_def noTxConflict_def)

end
