(* ===== verification/Safety_Rules.thy ===== *)
theory Safety_Rules
  imports Signers Committee Persister
begin

text \<open>
  \<open>consensus/hotstuff/safetyrules\<close>: the component that decides what a replica may sign.

  The state is the safety data in memory together with the database that the persister writes.
  The signer, the committee and the persister are the interfaces of \<open>Signers\<close>, \<open>Committee\<close> and
  \<open>Persister\<close>. As in the code, the data in memory is updated before it is persisted, so a failed
  write leaves a new value in memory and the old or the new one on disk.
\<close>

section \<open>State and operations\<close>

record 'db SafetyRules =
  safetyData :: SafetyData
  sr_db :: 'db

definition New_SafetyRules :: "('db \<Rightarrow> SafetyData result) \<Rightarrow> 'db \<Rightarrow> 'db SafetyRules result" where
  "New_SafetyRules get db =
     (case get db of
        Inl e \<Rightarrow> Inl (wrapf e)
      | Inr d \<Rightarrow> Inr \<lparr>safetyData = d, sr_db = db\<rparr>)"

definition validateEvidenceForEnteringView ::
  "uint64 \<Rightarrow> QuorumCertificate option \<Rightarrow> TimeoutCertificate option \<Rightarrow> unit result" where
  "validateEvidenceForEnteringView view newestQC lastViewTC =
     (case newestQC of
        None \<Rightarrow> Inl Errorf
      | Some qc \<Rightarrow>
          if QC_View qc + 1 = view
          then (if lastViewTC \<noteq> None then Inl Errorf else Inr ())
          else (case lastViewTC of
                  None \<Rightarrow> Inl Errorf
                | Some tc \<Rightarrow>
                    if TC_View tc + 1 \<noteq> view then Inl Errorf
                    else if QC_View qc \<ge> view then Inl Errorf
                    else (case TC_NewestQC tc of
                            None \<Rightarrow> Inl Panic
                          | Some tcqc \<Rightarrow>
                              if QC_View qc < QC_View tcqc then Inl Errorf else Inr ())))"

definition IsSafeToVote :: "Proposal \<Rightarrow> SafetyData \<Rightarrow> unit result" where
  "IsSafeToVote proposal d =
     (let blockView = B_View (P_Block proposal) in
      case validateEvidenceForEnteringView blockView (B_QC (P_Block proposal)) (P_LastViewTC proposal) of
        Inl e \<Rightarrow> Inl (plainf e)
      | Inr _ \<Rightarrow>
          let acView = HighestAcknowledgedView d in
          if blockView = acView then Inl (NoVoteError Errorf)
          else if blockView < acView then Inl Errorf
          else Inr ())"

definition IsSafeToTimeout ::
  "uint64 \<Rightarrow> QuorumCertificate option \<Rightarrow> TimeoutCertificate option \<Rightarrow> SafetyData \<Rightarrow> unit result" where
  "IsSafeToTimeout curView newestQC lastViewTC d =
     (case validateEvidenceForEnteringView curView newestQC lastViewTC of
        Inl e \<Rightarrow> Inl (wrapf e)
      | Inr _ \<Rightarrow>
          (case newestQC of
             None \<Rightarrow> Inl Panic
           | Some qc \<Rightarrow>
               if QC_View qc < LockedOneChainView d then Inl Errorf
               else if curView + 1 \<le> HighestAcknowledgedView d then Inl Errorf
               else Inr ()))"

text \<open>Write the data to memory and to disk; the answer is that of the persister.\<close>

definition persistData ::
  "(SafetyData \<Rightarrow> 'db \<Rightarrow> unit result \<times> 'db) \<Rightarrow> SafetyData \<Rightarrow> 'a \<Rightarrow> 'db SafetyRules
    \<Rightarrow> 'a result \<times> 'db SafetyRules" where
  "persistData put d x r =
     (case put d (sr_db r) of
        (Inl e, db') \<Rightarrow> (Inl (wrapf e), \<lparr>safetyData = d, sr_db = db'\<rparr>)
      | (Inr _, db') \<Rightarrow> (Inr x, \<lparr>safetyData = d, sr_db = db'\<rparr>))"

definition ProduceVote ::
  "signer \<Rightarrow> committee \<Rightarrow> (SafetyData \<Rightarrow> 'db \<Rightarrow> unit result \<times> 'db) \<Rightarrow> Proposal \<Rightarrow> uint64
    \<Rightarrow> 'db SafetyRules \<Rightarrow> Vote result \<times> 'db SafetyRules" where
  "ProduceVote sg com put proposal curView r =
     (let block = P_Block proposal; d = safetyData r in
      if curView \<noteq> B_View block then (Inl Errorf, r)
      else case IsSafeToVote proposal d of
        Inl e \<Rightarrow> (Inl (wrapf e), r)
      | Inr _ \<Rightarrow>
      (case IdentityByBlock com (B_BlockID block) (B_ProposerID block) of
        Inl e \<Rightarrow>
          if IsInvalidSignerError e then (Inl (NoVoteError (wrapf e)), r) else (Inl (wrapf e), r)
      | Inr _ \<Rightarrow>
      (case IdentityByBlock com (B_BlockID block) (Self com) of
        Inl e \<Rightarrow>
          if IsInvalidSignerError e then (Inl (NoVoteError (wrapf e)), r) else (Inl (wrapf e), r)
      | Inr _ \<Rightarrow>
      (case CreateVote sg block of
        Inl e \<Rightarrow> (Inl (wrapf e), r)
      | Inr vote \<Rightarrow>
          let d1 = d\<lparr>HighestAcknowledgedView := curView\<rparr> in
          (case B_QC block of
             None \<Rightarrow> (Inl Panic, r\<lparr>safetyData := d1\<rparr>)
           | Some qc \<Rightarrow>
               let d2 = (if LockedOneChainView d1 < QC_View qc
                         then d1\<lparr>LockedOneChainView := QC_View qc\<rparr> else d1) in
               persistData put d2 vote r)))))"

definition ProduceTimeout ::
  "signer \<Rightarrow> committee \<Rightarrow> (SafetyData \<Rightarrow> 'db \<Rightarrow> unit result \<times> 'db) \<Rightarrow> uint64 \<Rightarrow> QuorumCertificate option
    \<Rightarrow> TimeoutCertificate option \<Rightarrow> 'db SafetyRules \<Rightarrow> TimeoutObject result \<times> 'db SafetyRules" where
  "ProduceTimeout sg com put curView newestQC lastViewTC r =
     (let d = safetyData r;
          fresh =
            (case IsSafeToTimeout curView newestQC lastViewTC d of
               Inl e \<Rightarrow> (Inl (wrapf e), r)
             | Inr _ \<Rightarrow>
             (case IdentityByEpoch com curView (Self com) of
               Inl e \<Rightarrow>
                 if IsInvalidSignerError e then (Inl (NoTimeoutError (wrapf e)), r)
                 else (Inl (wrapf e), r)
             | Inr _ \<Rightarrow>
             (case CreateTimeout sg curView newestQC lastViewTC of
               Inl e \<Rightarrow> (Inl (wrapf e), r)
             | Inr timeout \<Rightarrow>
                 persistData put
                   (d\<lparr>HighestAcknowledgedView := curView, LastTimeout := Some timeout\<rparr>) timeout r)))
      in case LastTimeout d of
           None \<Rightarrow> fresh
         | Some lastTimeout \<Rightarrow>
             if TO_View lastTimeout = curView
             then (let updatedTimeout = lastTimeout\<lparr>TO_TimeoutTick := TO_TimeoutTick lastTimeout + 1\<rparr>
                   in persistData put (d\<lparr>LastTimeout := Some updatedTimeout\<rparr>) updatedTimeout r)
             else fresh)"

section \<open>Runs with crashes\<close>

text \<open>
  Everything a replica signs over its lifetime, the newest first: an arbitrary interleaving of
  calls, failed calls, restarts from whatever is on disk, and writes of other components to the
  same database. \<open>gets\<close> and \<open>puts\<close> are the possible outcomes of the persister's calls; each step uses
  one of them.
\<close>

datatype signed = SignedVote Proposal Vote | SignedTimeout TimeoutObject

inductive sr_run ::
  "signer \<Rightarrow> committee \<Rightarrow> ('db \<Rightarrow> SafetyData result) \<Rightarrow> ('db \<Rightarrow> SafetyData result) set
    \<Rightarrow> (SafetyData \<Rightarrow> 'db \<Rightarrow> unit result \<times> 'db) set \<Rightarrow> 'db \<Rightarrow> 'db SafetyRules \<Rightarrow> signed list \<Rightarrow> bool"
  for sg com get gets puts db0
where
  start: "\<lbrakk>g \<in> gets; New_SafetyRules g db0 = Inr r\<rbrakk> \<Longrightarrow> sr_run sg com get gets puts db0 r []"
| vote: "\<lbrakk>sr_run sg com get gets puts db0 r os; put \<in> puts; ProduceVote sg com put p v r = (Inr vt, r')\<rbrakk>
    \<Longrightarrow> sr_run sg com get gets puts db0 r' (SignedVote p vt # os)"
| vote_error: "\<lbrakk>sr_run sg com get gets puts db0 r os; put \<in> puts; ProduceVote sg com put p v r = (Inl e, r')\<rbrakk>
    \<Longrightarrow> sr_run sg com get gets puts db0 r' os"
| timeout: "\<lbrakk>sr_run sg com get gets puts db0 r os; put \<in> puts;
      ProduceTimeout sg com put v qc tc r = (Inr t, r')\<rbrakk>
    \<Longrightarrow> sr_run sg com get gets puts db0 r' (SignedTimeout t # os)"
| timeout_error: "\<lbrakk>sr_run sg com get gets puts db0 r os; put \<in> puts;
      ProduceTimeout sg com put v qc tc r = (Inl e, r')\<rbrakk>
    \<Longrightarrow> sr_run sg com get gets puts db0 r' os"
| restart: "\<lbrakk>sr_run sg com get gets puts db0 r os; g \<in> gets; New_SafetyRules g (sr_db r) = Inr r'\<rbrakk>
    \<Longrightarrow> sr_run sg com get gets puts db0 r' os"
| other_write: "\<lbrakk>sr_run sg com get gets puts db0 r os; get db' = get (sr_db r)\<rbrakk>
    \<Longrightarrow> sr_run sg com get gets puts db0 (r\<lparr>sr_db := db'\<rparr>) os"

definition signedView :: "signed \<Rightarrow> uint64" where
  "signedView s = (case s of SignedVote p _ \<Rightarrow> B_View (P_Block p) | SignedTimeout t \<Rightarrow> TO_View t)"

section \<open>What a single call does\<close>

text \<open>The evidence conditions of the code's documentation, for certificates as given.\<close>

definition evidence :: "uint64 \<Rightarrow> QuorumCertificate option \<Rightarrow> TimeoutCertificate option \<Rightarrow> bool" where
  "evidence view qc tc \<longleftrightarrow>
     (\<exists>q. qc = Some q \<and>
        (QC_View q + 1 = view \<and> tc = None \<or>
         (\<exists>t tq. tc = Some t \<and> TC_NewestQC t = Some tq \<and> TC_View t + 1 = view \<and>
            QC_View q < view \<and> QC_View q + 1 \<noteq> view \<and> QC_View tq \<le> QC_View q)))"

lemma validateEvidence_ok:
  "validateEvidenceForEnteringView view qc tc = Inr () \<longleftrightarrow> evidence view qc tc"
  by (auto simp: validateEvidenceForEnteringView_def evidence_def not_le not_less
      split: option.splits if_splits)

lemma IsSafeToVote_ok:
  "IsSafeToVote p d = Inr u \<longleftrightarrow>
   evidence (B_View (P_Block p)) (B_QC (P_Block p)) (P_LastViewTC p) \<and>
   HighestAcknowledgedView d < B_View (P_Block p)"
  by (auto simp: IsSafeToVote_def Let_def validateEvidence_ok [symmetric] not_less_iff_gr_or_eq
      split: sum.splits if_splits)

lemma next_view_not_past:
  fixes v a :: uint64
  assumes "\<not> v + 1 \<le> a"
  shows "a \<le> v"
proof -
  have "v + 1 = 0 \<or> v < v + 1" by (rule word_add_one_cases)
  with assms show ?thesis by (auto simp: not_le) (metis inc_le leD leI)
qed

lemma IsSafeToTimeout_ok:
  assumes "IsSafeToTimeout v qc tc d = Inr u"
  shows "evidence v qc tc \<and> LockedOneChainView d \<le> qcView qc \<and> HighestAcknowledgedView d \<le> v"
  using assms
  by (auto simp: IsSafeToTimeout_def validateEvidence_ok [symmetric] qcView_def not_less
      intro: next_view_not_past split: sum.splits option.splits if_splits)

text \<open>What a call leaves in memory and on disk, whether it succeeded or not.\<close>

definition voteUpdate :: "Proposal \<Rightarrow> SafetyData \<Rightarrow> SafetyData" where
  "voteUpdate p d = d\<lparr>HighestAcknowledgedView := B_View (P_Block p),
     LockedOneChainView := max (LockedOneChainView d) (qcView (B_QC (P_Block p)))\<rparr>"

lemma voteUpdate_eq:
  assumes "B_QC (P_Block p) = Some q" "v = B_View (P_Block p)"
  shows "voteUpdate p d =
    (let d1 = d\<lparr>HighestAcknowledgedView := v\<rparr>
     in if LockedOneChainView d1 < QC_View q then d1\<lparr>LockedOneChainView := QC_View q\<rparr> else d1)"
  using assms by (cases d) (auto simp: voteUpdate_def qcView_def max_def Let_def)

lemma persistData_cases:
  assumes "persistData put d x r = (a, r')"
  obtains res where "put d (sr_db r) = (res, sr_db r')" "safetyData r' = d"
    "\<forall>y. a = Inr y \<longrightarrow> y = x \<and> res = Inr ()"
  using assms by (cases "put d (sr_db r)") (fastforce simp: persistData_def split: sum.splits)

lemma persistData_ok:
  assumes "persistData put d x r = (Inr y, r')"
  shows "y = x" "safetyData r' = d" "put d (sr_db r) = (Inr (), sr_db r')"
  using assms by (auto simp: persistData_def split: sum.splits prod.splits)

lemma evidence_qc: "evidence v qc tc \<Longrightarrow> \<exists>q. qc = Some q"
  by (auto simp: evidence_def)

text \<open>A vote call either changes nothing, or all checks passed and the updated data is written.\<close>

lemma ProduceVote_cases:
  assumes "ProduceVote sg com put p v r = (a, r')"
  obtains e where "a = Inl e" "r' = r"
  | vt where "v = B_View (P_Block p)" "evidence v (B_QC (P_Block p)) (P_LastViewTC p)"
      "HighestAcknowledgedView (safetyData r) < v" "CreateVote sg (P_Block p) = Inr vt"
      "persistData put (voteUpdate p (safetyData r)) vt r = (a, r')"
proof (cases "\<exists>vt. v = B_View (P_Block p) \<and> IsSafeToVote p (safetyData r) = Inr ()
    \<and> CreateVote sg (P_Block p) = Inr vt
    \<and> (\<exists>x. IdentityByBlock com (B_BlockID (P_Block p)) (B_ProposerID (P_Block p)) = Inr x)
    \<and> (\<exists>x. IdentityByBlock com (B_BlockID (P_Block p)) (Self com) = Inr x)")
  case True
  then obtain vt where c: "v = B_View (P_Block p)" "IsSafeToVote p (safetyData r) = Inr ()"
    "CreateVote sg (P_Block p) = Inr vt"
    "\<exists>x. IdentityByBlock com (B_BlockID (P_Block p)) (B_ProposerID (P_Block p)) = Inr x"
    "\<exists>x. IdentityByBlock com (B_BlockID (P_Block p)) (Self com) = Inr x" by blast
  then obtain q where q: "B_QC (P_Block p) = Some q" by (auto simp: IsSafeToVote_ok dest: evidence_qc)
  have "persistData put (voteUpdate p (safetyData r)) vt r = (a, r')"
    unfolding voteUpdate_eq [OF q c(1)] using assms c q by (auto simp: ProduceVote_def Let_def)
  with c that(2) show ?thesis by (auto simp: IsSafeToVote_ok)
next
  case False
  then have "\<exists>e. a = Inl e \<and> r' = r"
    using assms by (auto simp: ProduceVote_def Let_def split: if_splits sum.splits)
  then show ?thesis using that(1) by blast
qed

text \<open>A timeout call changes nothing, repeats the cached timeout, or makes a new one.\<close>

definition tickUp :: "TimeoutObject \<Rightarrow> TimeoutObject" where
  "tickUp t = t\<lparr>TO_TimeoutTick := TO_TimeoutTick t + 1\<rparr>"

lemma ProduceTimeout_cases:
  assumes "ProduceTimeout sg com put v qc tc r = (a, r')"
  obtains e where "a = Inl e" "r' = r"
  | t where "LastTimeout (safetyData r) = Some t" "TO_View t = v"
      "persistData put ((safetyData r)\<lparr>LastTimeout := Some (tickUp t)\<rparr>) (tickUp t) r = (a, r')"
  | t where "evidence v qc tc" "LockedOneChainView (safetyData r) \<le> qcView qc"
      "HighestAcknowledgedView (safetyData r) \<le> v" "CreateTimeout sg v qc tc = Inr t"
      "persistData put ((safetyData r)\<lparr>HighestAcknowledgedView := v, LastTimeout := Some t\<rparr>) t r = (a, r')"
proof (cases "\<exists>t. LastTimeout (safetyData r) = Some t \<and> TO_View t = v")
  case True
  then show ?thesis using assms that(2) by (auto simp: ProduceTimeout_def Let_def tickUp_def)
next
  case False
  then have a: "(case IsSafeToTimeout v qc tc (safetyData r) of
               Inl e \<Rightarrow> (Inl (wrapf e), r)
             | Inr _ \<Rightarrow>
             (case IdentityByEpoch com v (Self com) of
               Inl e \<Rightarrow>
                 if IsInvalidSignerError e then (Inl (NoTimeoutError (wrapf e)), r)
                 else (Inl (wrapf e), r)
             | Inr _ \<Rightarrow>
             (case CreateTimeout sg v qc tc of
               Inl e \<Rightarrow> (Inl (wrapf e), r)
             | Inr timeout \<Rightarrow>
                 persistData put ((safetyData r)\<lparr>HighestAcknowledgedView := v, LastTimeout := Some timeout\<rparr>)
                   timeout r))) = (a, r')"
    using assms by (auto simp: ProduceTimeout_def Let_def split: option.splits if_splits)
  show ?thesis
  proof (cases "IsSafeToTimeout v qc tc (safetyData r)")
    case (Inl e)
    with a that(1) show ?thesis by auto
  next
    case (Inr u)
    from IsSafeToTimeout_ok [OF this] a Inr that(1,3) show ?thesis
      by (auto split: sum.splits if_splits)
  qed
qed

section \<open>The invariant of a run\<close>

text \<open>
  Relative to everything signed so far, safety data is sound if its highest acknowledged view is
  not below any signed view, its lock is not below the QC of any block voted for, and its cached
  timeout is one that may be sent: it is not above the acknowledged view, has evidence, and its
  QC is not older than that of any block voted for up to its view.
\<close>

definition cachedOk :: "signed list \<Rightarrow> SafetyData \<Rightarrow> TimeoutObject \<Rightarrow> bool" where
  "cachedOk os d t \<longleftrightarrow>
     TO_View t \<le> HighestAcknowledgedView d \<and>
     evidence (TO_View t) (TO_NewestQC t) (TO_LastViewTC t) \<and>
     (\<forall>p vt. SignedVote p vt \<in> set os \<and> B_View (P_Block p) \<le> TO_View t
        \<longrightarrow> qcView (B_QC (P_Block p)) \<le> qcView (TO_NewestQC t))"

definition soundFor :: "signed list \<Rightarrow> SafetyData \<Rightarrow> bool" where
  "soundFor os d \<longleftrightarrow>
     (\<forall>s\<in>set os. signedView s \<le> HighestAcknowledgedView d) \<and>
     (\<forall>p vt. SignedVote p vt \<in> set os \<longrightarrow> qcView (B_QC (P_Block p)) \<le> LockedOneChainView d) \<and>
     (\<forall>t. LastTimeout d = Some t \<longrightarrow> cachedOk os d t)"

lemma soundFor_vote:
  assumes "soundFor os d" "HighestAcknowledgedView d < B_View (P_Block p)"
  shows "soundFor os (voteUpdate p d)" "soundFor (SignedVote p vt # os) (voteUpdate p d)"
  using assms unfolding soundFor_def cachedOk_def voteUpdate_def signedView_def
  by (fastforce simp: max_def)+

lemma soundFor_fresh_timeout:
  assumes "soundFor os d" "LockedOneChainView d \<le> qcView qc" "HighestAcknowledgedView d \<le> v"
    and "evidence v qc tc" "TO_View t = v" "TO_NewestQC t = qc" "TO_LastViewTC t = tc"
  defines "d' \<equiv> d\<lparr>HighestAcknowledgedView := v, LastTimeout := Some t\<rparr>"
  shows "soundFor os d'" "soundFor (SignedTimeout t # os) d'"
  using assms(1-7) unfolding soundFor_def cachedOk_def d'_def signedView_def
  by (auto 0 4 intro: order_trans)

lemma soundFor_repeated_timeout:
  assumes "soundFor os d" "LastTimeout d = Some t"
  defines "d' \<equiv> d\<lparr>LastTimeout := Some (tickUp t)\<rparr>"
  shows "soundFor os d'" "soundFor (SignedTimeout (tickUp t) # os) d'"
  using assms(1,2) unfolding soundFor_def cachedOk_def d'_def signedView_def tickUp_def
  by auto

text \<open>What the history of a run satisfies, step by step.\<close>

fun historyOk :: "Identifier \<Rightarrow> signed list \<Rightarrow> bool" where
  "historyOk self [] \<longleftrightarrow> True"
| "historyOk self (SignedVote p vt # os) \<longleftrightarrow>
     historyOk self os \<and> evidence (B_View (P_Block p)) (B_QC (P_Block p)) (P_LastViewTC p) \<and>
     V_View vt = B_View (P_Block p) \<and> V_BlockID vt = B_BlockID (P_Block p) \<and> V_SignerID vt = self \<and>
     (\<forall>s\<in>set os. signedView s < B_View (P_Block p))"
| "historyOk self (SignedTimeout t # os) \<longleftrightarrow>
     historyOk self os \<and> evidence (TO_View t) (TO_NewestQC t) (TO_LastViewTC t) \<and>
     (\<forall>p vt. SignedVote p vt \<in> set os \<and> B_View (P_Block p) \<le> TO_View t
        \<longrightarrow> qcView (B_QC (P_Block p)) \<le> qcView (TO_NewestQC t))"

definition dbSound :: "('db \<Rightarrow> SafetyData result) \<Rightarrow> signed list \<Rightarrow> 'db \<Rightarrow> bool" where
  "dbSound get os db \<longleftrightarrow> (\<forall>d. get db = Inr d \<longrightarrow> soundFor os d)"

definition runInv :: "('db \<Rightarrow> SafetyData result) \<Rightarrow> Identifier \<Rightarrow> 'db SafetyRules \<Rightarrow> signed list \<Rightarrow> bool" where
  "runInv get self r os \<longleftrightarrow>
     soundFor os (safetyData r) \<and> dbSound get os (sr_db r) \<and> historyOk self os"

text \<open>
  Replicas start with the view of the root block as acknowledged view; then all votes are above it.
\<close>

definition aboveFloor ::
  "('db \<Rightarrow> SafetyData result) \<Rightarrow> uint64 \<Rightarrow> 'db SafetyRules \<Rightarrow> signed list \<Rightarrow> bool" where
  "aboveFloor get R r os \<longleftrightarrow>
     R \<le> HighestAcknowledgedView (safetyData r)
     \<and> (\<forall>d. get (sr_db r) = Inr d \<longrightarrow> R \<le> HighestAcknowledgedView d)
     \<and> (\<forall>p vt. SignedVote p vt \<in> set os \<longrightarrow> R < B_View (P_Block p))"

locale safety_rules_env =
  signer_contract sg self + persister get gets puts
  for sg :: signer and self :: Identifier
  and get :: "'db \<Rightarrow> SafetyData result" and gets :: "('db \<Rightarrow> SafetyData result) set"
  and puts :: "(SafetyData \<Rightarrow> 'db \<Rightarrow> unit result \<times> 'db) set"
begin

lemma persist_inv:
  assumes "put \<in> puts" "persistData put d x r = (a, r')" "runInv get self r os" "soundFor os d"
  shows "runInv get self r' os"
    and "\<lbrakk>a = Inr y; soundFor (s # os) d; historyOk self (s # os)\<rbrakk> \<Longrightarrow> runInv get self r' (s # os)"
proof -
  obtain res where res: "put d (sr_db r) = (res, sr_db r')" "safetyData r' = d"
    "\<forall>y. a = Inr y \<longrightarrow> y = x \<and> res = Inr ()" using assms(2) by (rule persistData_cases)
  from put_cases [OF assms(1) res(1)] assms(3,4) res(2) show "runInv get self r' os"
    by (auto simp: runInv_def dbSound_def)
  show "runInv get self r' (s # os)"
    if "a = Inr y" "soundFor (s # os) d" "historyOk self (s # os)"
    using put_ok [OF assms(1), of d "sr_db r" "()" "sr_db r'"] res that by (auto simp: runInv_def dbSound_def)
qed

lemma vote_inv:
  assumes "runInv get self r os" "ProduceVote sg com put p v r = (a, r')" "put \<in> puts"
  shows "(\<forall>e. a = Inl e \<longrightarrow> runInv get self r' os) \<and>
         (\<forall>vt. a = Inr vt \<longrightarrow> runInv get self r' (SignedVote p vt # os))"
  using assms(2)
proof (cases rule: ProduceVote_cases)
  case (1 e)
  with assms show ?thesis by simp
next
  case (2 vt)
  have s: "soundFor os (safetyData r)" and h: "historyOk self os"
    using assms(1) by (auto simp: runInv_def)
  note sv = soundFor_vote [OF s 2(3) [unfolded 2(1)]]
  have "\<forall>x\<in>set os. signedView x < B_View (P_Block p)"
    using s 2(1,3) unfolding soundFor_def by (meson order_le_less_trans)
  then have hist: "historyOk self (SignedVote p vt # os)"
    using h 2(1,2) vote_fields [OF 2(4)] by simp
  have "vt' = vt" if "a = Inr vt'" for vt'
    using persistData_ok(1) [of put _ vt r vt' r'] 2(5) that by simp
  then show ?thesis
    using persist_inv(1) [OF assms(3) 2(5) assms(1) sv(1)] persist_inv(2) [OF assms(3) 2(5) assms(1) sv(1) _ sv(2) hist]
    by blast
qed

lemma timeout_inv:
  assumes "runInv get self r os" "ProduceTimeout sg com put v qc tc r = (a, r')" "put \<in> puts"
  shows "(\<forall>e. a = Inl e \<longrightarrow> runInv get self r' os) \<and>
         (\<forall>t. a = Inr t \<longrightarrow> runInv get self r' (SignedTimeout t # os))"
proof -
  have s: "soundFor os (safetyData r)" and h: "historyOk self os"
    using assms(1) by (auto simp: runInv_def)
  show ?thesis
    using assms(2)
  proof (cases rule: ProduceTimeout_cases)
    case (1 e)
    with assms show ?thesis by simp
  next
    case (2 t)
    note sr = soundFor_repeated_timeout [OF s 2(1)]
    have hist: "historyOk self (SignedTimeout (tickUp t) # os)"
      using h sr(2) by (auto simp: soundFor_def cachedOk_def)
    have "t' = tickUp t" if "a = Inr t'" for t'
      using persistData_ok(1) [of put _ "tickUp t" r t' r'] 2(3) that by simp
    then show ?thesis
      using persist_inv(1) [OF assms(3) 2(3) assms(1) sr(1)] persist_inv(2) [OF assms(3) 2(3) assms(1) sr(1) _ sr(2) hist]
      by blast
  next
    case (3 t)
    note tf = timeout_fields [OF 3(4)]
    note sr = soundFor_fresh_timeout [OF s 3(2,3,1), of t]
    have hist: "historyOk self (SignedTimeout t # os)"
      using h sr(2) tf by (auto simp: soundFor_def cachedOk_def)
    have "t' = t" if "a = Inr t'" for t'
      using persistData_ok(1) [of put _ t r t' r'] 3(5) that by simp
    then show ?thesis
      using persist_inv(1) [OF assms(3) 3(5) assms(1)] persist_inv(2) [OF assms(3) 3(5) assms(1)] sr tf hist
      by blast
  qed
qed

lemma New_inv:
  assumes "g \<in> gets" "New_SafetyRules g db = Inr r" "dbSound get os db" "historyOk self os"
  shows "runInv get self r os"
  using assms get_ok [of g db] by (auto simp: New_SafetyRules_def runInv_def dbSound_def split: sum.splits)

lemma run_inv:
  assumes "sr_run sg com get gets puts db0 r os" "dbSound get [] db0"
  shows "runInv get self r os"
  using assms
proof (induction rule: sr_run.induct)
  case (start g r)
  then show ?case using New_inv by simp
next
  case (restart r os g r')
  then show ?case using New_inv by (simp add: runInv_def)
next
  case (vote r os put p v vt r')
  then show ?case using vote_inv by blast
next
  case (vote_error r os put p v e r')
  then show ?case using vote_inv by blast
next
  case (timeout r os put v qc tc t r')
  then show ?case using timeout_inv by blast
next
  case (timeout_error r os put v qc tc e r')
  then show ?case using timeout_inv by blast
next
  case (other_write r os db')
  then show ?case by (simp add: runInv_def dbSound_def)
qed

lemma persist_floor:
  assumes "put \<in> puts" "persistData put d x r = (a, r')" "aboveFloor get R r os" "R \<le> HighestAcknowledgedView d"
  shows "aboveFloor get R r' os"
proof -
  obtain res where res: "put d (sr_db r) = (res, sr_db r')" "safetyData r' = d"
    using assms(2) by (rule persistData_cases)
  from put_cases [OF assms(1) res(1)] assms(3,4) res(2) show ?thesis by (auto simp: aboveFloor_def)
qed

lemma vote_floor:
  assumes "put \<in> puts" "ProduceVote sg com put p v r = (a, r')" "aboveFloor get R r os"
  shows "aboveFloor get R r' os \<and> (\<forall>vt. a = Inr vt \<longrightarrow> aboveFloor get R r' (SignedVote p vt # os))"
  using assms(2)
proof (cases rule: ProduceVote_cases)
  case (2 vt)
  have "R < v" using assms(3) 2(3) by (auto simp: aboveFloor_def)
  then have "R \<le> HighestAcknowledgedView (voteUpdate p (safetyData r))"
    using 2(1) by (simp add: voteUpdate_def)
  from persist_floor [OF assms(1) 2(5) assms(3) this] \<open>R < v\<close> 2(1) show ?thesis
    by (auto simp: aboveFloor_def)
qed (use assms(3) in simp)

lemma timeout_floor:
  assumes "put \<in> puts" "ProduceTimeout sg com put v qc tc r = (a, r')" "aboveFloor get R r os"
  shows "aboveFloor get R r' os \<and> aboveFloor get R r' (SignedTimeout t # os)"
proof -
  have "aboveFloor get R r' os"
    using assms(2)
  proof (cases rule: ProduceTimeout_cases)
    case (2 lt)
    have "R \<le> HighestAcknowledgedView ((safetyData r)\<lparr>LastTimeout := Some (tickUp lt)\<rparr>)"
      using assms(3) by (simp add: aboveFloor_def)
    from persist_floor [OF assms(1) 2(3) assms(3) this] show ?thesis .
  next
    case (3 nt)
    have "R \<le> v" using assms(3) 3(3) by (auto simp: aboveFloor_def)
    then show ?thesis using persist_floor [OF assms(1) 3(5) assms(3)] by simp
  qed (use assms(3) in simp)
  then show ?thesis by (simp add: aboveFloor_def)
qed

lemma run_floor:
  assumes "sr_run sg com get gets puts db0 r os" "\<forall>d. get db0 = Inr d \<longrightarrow> R \<le> HighestAcknowledgedView d"
  shows "aboveFloor get R r os"
  using assms
proof (induction rule: sr_run.induct)
  case (start g r)
  then show ?case using get_ok [of g db0] by (auto simp: New_SafetyRules_def aboveFloor_def split: sum.splits)
next
  case (restart r os g r')
  then show ?case using get_ok [of g "sr_db r"] by (auto simp: New_SafetyRules_def aboveFloor_def split: sum.splits)
next
  case (vote r os put p v vt r')
  then show ?case using vote_floor by blast
next
  case (vote_error r os put p v e r')
  then show ?case using vote_floor by blast
next
  case (timeout r os put v qc tc t r')
  then show ?case using timeout_floor by blast
next
  case (timeout_error r os put v qc tc e r')
  then show ?case using timeout_floor by blast
next
  case (other_write r os db')
  then show ?case by (simp add: aboveFloor_def)
qed

end

section \<open>Guarantees for every signer and the Badger persister\<close>

lemma historyOk_append: "historyOk self (xs @ ys) \<Longrightarrow> historyOk self ys"
proof (induction xs)
  case (Cons x xs)
  then show ?case by (cases x) auto
qed simp

lemma historyOk_timeout_covers:
  assumes "historyOk self os" "SignedVote p vt \<in> set os" "SignedTimeout t \<in> set os"
    and "B_View (P_Block p) \<le> TO_View t"
  shows "qcView (B_QC (P_Block p)) \<le> qcView (TO_NewestQC t)"
  using assms
proof (induction os)
  case (Cons x os)
  show ?case
  proof (cases "SignedVote p vt \<in> set os \<and> SignedTimeout t \<in> set os")
    case True
    with Cons show ?thesis by (cases x) auto
  next
    case False
    then show ?thesis
      using Cons.prems by (fastforce simp: signedView_def)
  qed
qed simp

interpretation srStaking:
  safety_rules_env "NewStakingSigner me" "me_NodeID me" "storedSafety c"
    "range (\<lambda>bg. GetSafetyData bg c)" "range (\<lambda>bg. putSafety bg c)" for me c ..

interpretation srCombined:
  safety_rules_env "NewCombinedSigner me keys" "me_NodeID me" "storedSafety c"
    "range (\<lambda>bg. GetSafetyData bg c)" "range (\<lambda>bg. putSafety bg c)" for me keys c ..

interpretation srCombinedV3:
  safety_rules_env "NewCombinedSignerV3 me keys" "me_NodeID me" "storedSafety c"
    "range (\<lambda>bg. GetSafetyData bg c)" "range (\<lambda>bg. putSafety bg c)" for me keys c ..

definition flowSigner :: "local_node \<Rightarrow> signer \<Rightarrow> bool" where
  "flowSigner me sg \<longleftrightarrow>
     sg = NewStakingSigner me \<or>
     (\<exists>keys. sg = NewCombinedSigner me keys \<or> sg = NewCombinedSignerV3 me keys)"

definition sr_runs ::
  "signer \<Rightarrow> committee \<Rightarrow> bytes \<Rightarrow> badgerDB \<Rightarrow> badgerDB SafetyRules \<Rightarrow> signed list \<Rightarrow> bool" where
  "sr_runs sg com c db0 r os =
     sr_run sg com (storedSafety c) (range (\<lambda>bg. GetSafetyData bg c)) (range (\<lambda>bg. putSafety bg c)) db0 r os"

lemma sr_runs_inv:
  assumes "flowSigner me sg" "sr_runs sg com c db0 r os" "dbSound (storedSafety c) [] db0"
  shows "runInv (storedSafety c) (me_NodeID me) r os"
  using assms unfolding flowSigner_def sr_runs_def
  by (auto dest: srStaking.run_inv srCombined.run_inv srCombinedV3.run_inv)

lemma sr_runs_floor:
  assumes "flowSigner me sg" "sr_runs sg com c db0 r os"
    and "\<forall>d. storedSafety c db0 = Inr d \<longrightarrow> R \<le> HighestAcknowledgedView d" "SignedVote p vt \<in> set os"
  shows "R < B_View (P_Block p)"
proof -
  have "aboveFloor (storedSafety c) R r os"
    using assms(1-3) unfolding flowSigner_def sr_runs_def
    by (auto dest: srStaking.run_floor srCombined.run_floor srCombinedV3.run_floor)
  with assms(4) show ?thesis by (auto simp: aboveFloor_def)
qed

text \<open>
  C4: over the whole lifetime of a replica, with failed calls, failed database writes and restarts
  at any point, each vote is for a view strictly above the view of every vote and timeout signed
  before. So a replica never votes twice in a view and never votes in a view it has timed out of.
  Each vote names its block and the replica, and its proposal proves the right to enter the view.
\<close>

theorem votes_strictly_increase:
  assumes "flowSigner me sg" "dbSound (storedSafety c) [] db0"
    and "sr_runs sg com c db0 r (later @ SignedVote p vt # earlier)"
  shows "(\<forall>s\<in>set earlier. signedView s < V_View vt)
    \<and> V_View vt = B_View (P_Block p) \<and> V_BlockID vt = B_BlockID (P_Block p) \<and> V_SignerID vt = me_NodeID me
    \<and> evidence (B_View (P_Block p)) (B_QC (P_Block p)) (P_LastViewTC p)"
proof -
  have "historyOk (me_NodeID me) (later @ SignedVote p vt # earlier)"
    using sr_runs_inv [OF assms(1,3,2)] by (simp add: runInv_def)
  from historyOk_append [OF this] show ?thesis by auto
qed

text \<open>
  C5: whatever a replica signs over its lifetime, a timeout for a view reports a QC that is at
  least as new as the QC of every block the replica has voted for in this or an earlier view, no
  matter in which order the two were sent, and it proves the right to enter its view.
\<close>

theorem timeouts_cover_votes:
  assumes "flowSigner me sg" "dbSound (storedSafety c) [] db0" "sr_runs sg com c db0 r os"
    and "SignedTimeout t \<in> set os" "SignedVote p vt \<in> set os" "B_View (P_Block p) \<le> TO_View t"
  shows "qcView (B_QC (P_Block p)) \<le> qcView (TO_NewestQC t)
    \<and> evidence (TO_View t) (TO_NewestQC t) (TO_LastViewTC t)"
proof
  have h: "historyOk (me_NodeID me) os"
    using sr_runs_inv [OF assms(1,3,2)] by (simp add: runInv_def)
  from historyOk_timeout_covers [OF h assms(5,4,6)]
  show "qcView (B_QC (P_Block p)) \<le> qcView (TO_NewestQC t)" .
  show "evidence (TO_View t) (TO_NewestQC t) (TO_LastViewTC t)"
    using h assms(4)
  proof (induction os)
    case (Cons x os)
    then show ?case by (cases x) auto
  qed simp
qed


text \<open>
  An example run: a vote in view 6 with a commit that is retried, a restart, a timeout of view 7
  and a vote in view 8.
\<close>

definition exampleMe :: local_node where
  "exampleMe = \<lparr>me_NodeID = 1, me_Sign = \<lambda>msg _. Inr (take 4 msg)\<rparr>"

definition exampleSR0 :: "badgerDB SafetyRules" where
  "exampleSR0 = projr (New_SafetyRules (GetSafetyData exampleBadger [7]) exampleDB)"

definition exampleSR1 :: "Vote result \<times> badgerDB SafetyRules" where
  "exampleSR1 = ProduceVote (NewStakingSigner exampleMe) exampleCom (putSafety exampleBadger [7])
     (exampleProposal 6 66 (Some (exampleQC 5 55))) 6 exampleSR0"

definition exampleSR2 :: "badgerDB SafetyRules" where
  "exampleSR2 = projr (New_SafetyRules (GetSafetyData exampleBadger [7]) (sr_db (snd exampleSR1)))"

definition exampleSR3 :: "TimeoutObject result \<times> badgerDB SafetyRules" where
  "exampleSR3 = ProduceTimeout (NewStakingSigner exampleMe) exampleCom (putSafety exampleBadger [7])
     7 (Some (exampleQC 5 55)) (Some (exampleTC 6 (exampleQC 4 44))) exampleSR2"

definition exampleSR4 :: "Vote result \<times> badgerDB SafetyRules" where
  "exampleSR4 = ProduceVote (NewStakingSigner exampleMe) exampleCom (putSafety exampleBadger [7])
     (exampleProposal 8 88 (Some (exampleQC 7 77))) 8 (snd exampleSR3)"

lemma example_steps:
  "New_SafetyRules (GetSafetyData exampleBadger [7]) exampleDB = Inr exampleSR0"
  "exampleSR1 = (Inr (projr (fst exampleSR1)), snd exampleSR1)"
  "New_SafetyRules (GetSafetyData exampleBadger [7]) (sr_db (snd exampleSR1)) = Inr exampleSR2"
  "exampleSR3 = (Inr (projr (fst exampleSR3)), snd exampleSR3)"
  "exampleSR4 = (Inr (projr (fst exampleSR4)), snd exampleSR4)"
  by code_simp+

definition exampleVote1 :: signed where
  "exampleVote1 = SignedVote (exampleProposal 6 66 (Some (exampleQC 5 55))) (projr (fst exampleSR1))"

definition exampleTimeout2 :: signed where
  "exampleTimeout2 = SignedTimeout (projr (fst exampleSR3))"

definition exampleVote3 :: signed where
  "exampleVote3 = SignedVote (exampleProposal 8 88 (Some (exampleQC 7 77))) (projr (fst exampleSR4))"

lemma example_run:
  "sr_runs (NewStakingSigner exampleMe) exampleCom [7] exampleDB (snd exampleSR4)
     [exampleVote3, exampleTimeout2, exampleVote1]"
  unfolding sr_runs_def exampleVote1_def exampleTimeout2_def exampleVote3_def
proof (rule sr_run.vote [OF sr_run.timeout [OF sr_run.restart [OF sr_run.vote [OF sr_run.start]]]])
  show "ProduceVote (NewStakingSigner exampleMe) exampleCom (putSafety exampleBadger [7])
     (exampleProposal 8 88 (Some (exampleQC 7 77))) 8 (snd exampleSR3)
     = (Inr (projr (fst exampleSR4)), snd exampleSR4)"
    using example_steps(5) by (simp add: exampleSR4_def)
  show "ProduceTimeout (NewStakingSigner exampleMe) exampleCom (putSafety exampleBadger [7])
     7 (Some (exampleQC 5 55)) (Some (exampleTC 6 (exampleQC 4 44))) exampleSR2
     = (Inr (projr (fst exampleSR3)), snd exampleSR3)"
    using example_steps(4) by (simp add: exampleSR3_def)
  show "ProduceVote (NewStakingSigner exampleMe) exampleCom (putSafety exampleBadger [7])
     (exampleProposal 6 66 (Some (exampleQC 5 55))) 6 exampleSR0
     = (Inr (projr (fst exampleSR1)), snd exampleSR1)"
    using example_steps(2) by (simp add: exampleSR1_def)
  show "New_SafetyRules (GetSafetyData exampleBadger [7]) (sr_db (snd exampleSR1)) = Inr exampleSR2"
    "New_SafetyRules (GetSafetyData exampleBadger [7]) exampleDB = Inr exampleSR0"
    by (rule example_steps(3) example_steps(1))+
qed blast+

lemma example_db_sound: "dbSound (storedSafety [7]) [] exampleDB"
proof -
  have "storedSafety [7] exampleDB
      = Inr \<lparr>LockedOneChainView = 0, HighestAcknowledgedView = 0, LastTimeout = None\<rparr>"
    by code_simp
  then show ?thesis by (simp add: dbSound_def soundFor_def)
qed

theorem votes_strictly_increase_witness:
  "signedView exampleTimeout2 < V_View (projr (fst exampleSR4))
   \<and> signedView exampleVote1 < V_View (projr (fst exampleSR4))
   \<and> V_SignerID (projr (fst exampleSR4)) = 1"
proof -
  have f: "flowSigner exampleMe (NewStakingSigner exampleMe)" by (simp add: flowSigner_def)
  have "sr_runs (NewStakingSigner exampleMe) exampleCom [7] exampleDB (snd exampleSR4)
     ([] @ SignedVote (exampleProposal 8 88 (Some (exampleQC 7 77))) (projr (fst exampleSR4))
       # [exampleTimeout2, exampleVote1])"
    using example_run by (simp add: exampleVote3_def)
  note inc = votes_strictly_increase [OF f example_db_sound this]
  have "me_NodeID exampleMe = 1" by (simp add: exampleMe_def)
  with inc show ?thesis by (metis list.set_intros)
qed

theorem timeouts_cover_votes_witness:
  "qcView (Some (exampleQC 5 55)) \<le> qcView (TO_NewestQC (projr (fst exampleSR3)))"
proof -
  have "6 \<le> TO_View (projr (fst exampleSR3))" by code_simp
  then show ?thesis
    using timeouts_cover_votes [OF _ example_db_sound example_run, of exampleMe "projr (fst exampleSR3)"
        "exampleProposal 6 66 (Some (exampleQC 5 55))" "projr (fst exampleSR1)"]
    by (simp add: flowSigner_def exampleTimeout2_def exampleVote1_def)
       (simp add: exampleProposal_def exampleBlock_def)
qed


end
