(* ===== verification/Timeout_Control.thy ===== *)
theory Timeout_Control
  imports HotStuff_Model Complex_Main
begin

text \<open>
  \<open>consensus/hotstuff/pacemaker/timeout\<close>: the truncated exponential back-off of view durations.

  A \<open>float64\<close> is a real number here, so rounding is not modelled. A \<open>time.Duration\<close> is its number
  of nanoseconds. The goroutine that delivers the ticks (\<open>tickAfterTimeout\<close>) is not modelled; the
  clock reading of \<open>StartTimeout\<close> is a parameter.
\<close>

section \<open>Configuration\<close>

record Config =
  MinReplicaTimeout :: real
  MaxReplicaTimeout :: real
  TimeoutAdjustmentFactor :: real
  HappyPathMaxRoundFailures :: uint64
  BlockRateDelayMS :: real
  MaxTimeoutObjectRebroadcastInterval :: real

definition Milliseconds :: "int \<Rightarrow> int" where
  "Milliseconds d = (if 0 \<le> d then d div 1000000 else - ((- d) div 1000000))"

definition validBlockRateDelay :: "int \<Rightarrow> unit result" where
  "validBlockRateDelay blockRateDelay =
     (if blockRateDelay < 0 then Inl (ConfigurationError Errorf) else Inr ())"

definition NewConfig :: "int \<Rightarrow> int \<Rightarrow> real \<Rightarrow> uint64 \<Rightarrow> int \<Rightarrow> int \<Rightarrow> Config result" where
  "NewConfig minReplicaTimeout maxReplicaTimeout timeoutAdjustmentFactor happyPathMaxRoundFailures
     blockRateDelay maxRebroadcastInterval =
     (if minReplicaTimeout \<le> 0 then Inl (ConfigurationError Errorf)
      else if maxReplicaTimeout < minReplicaTimeout then Inl (ConfigurationError Errorf)
      else if timeoutAdjustmentFactor \<le> 1 then Inl (ConfigurationError Errorf)
      else case validBlockRateDelay blockRateDelay of
        Inl e \<Rightarrow> Inl e
      | Inr _ \<Rightarrow>
          if maxRebroadcastInterval \<le> 0 then Inl (ConfigurationError Errorf)
          else Inr
            \<lparr>MinReplicaTimeout = of_int (Milliseconds minReplicaTimeout),
             MaxReplicaTimeout = of_int (Milliseconds maxReplicaTimeout),
             TimeoutAdjustmentFactor = timeoutAdjustmentFactor,
             HappyPathMaxRoundFailures = happyPathMaxRoundFailures,
             BlockRateDelayMS = of_int (Milliseconds blockRateDelay),
             MaxTimeoutObjectRebroadcastInterval = of_int (Milliseconds maxRebroadcastInterval)\<rparr>)"

definition NewDefaultConfig :: "Config result" where
  "NewDefaultConfig =
     (let minReplicaTimeout = 3 * 1000000000; maxReplicaTimeout = 60 * 1000000000;
          blockRateDelay = 0 * 1000000; maxRebroadcastInterval = 5 * 1000000000 in
      case NewConfig (minReplicaTimeout + blockRateDelay) maxReplicaTimeout (12 / 10) 6 blockRateDelay
             maxRebroadcastInterval of
        Inl _ \<Rightarrow> Inl Panic
      | Inr conf \<Rightarrow> Inr conf)"

definition GetBlockRateDelay :: "Config \<Rightarrow> int" where
  "GetBlockRateDelay c = 1000000 * \<lfloor>BlockRateDelayMS c\<rfloor>"

text \<open>
  \<open>SetBlockRateDelay\<close>: a \<open>ValidationError\<close> of \<open>module/updatable_configs\<close> wraps its cause, as
  \<open>Wrapf\<close> does here.
\<close>

definition SetBlockRateDelay :: "int \<Rightarrow> Config \<Rightarrow> unit result \<times> Config" where
  "SetBlockRateDelay delay c =
     (case validBlockRateDelay delay of
        Inl e \<Rightarrow> (Inl (Wrapf e), c)
      | Inr _ \<Rightarrow> (Inr (), c\<lparr>BlockRateDelayMS := of_int (Milliseconds delay)\<rparr>))"

section \<open>The controller\<close>

record Controller =
  cfg :: Config
  maxExponent :: real
  failedRounds :: uint64

record TimerInfo =
  TI_View :: uint64
  TI_StartTime :: int
  TI_Duration :: int

definition NewController :: "Config \<Rightarrow> Controller" where
  "NewController timeoutConfig =
     \<lparr>cfg = timeoutConfig,
      maxExponent = ln (MaxReplicaTimeout timeoutConfig / MinReplicaTimeout timeoutConfig)
                    / ln (TimeoutAdjustmentFactor timeoutConfig),
      failedRounds = 0\<rparr>"

definition replicaTimeout :: "Controller \<Rightarrow> real" where
  "replicaTimeout t =
     (if failedRounds t \<le> HappyPathMaxRoundFailures (cfg t) then MinReplicaTimeout (cfg t)
      else
        let r = unat (failedRounds t - HappyPathMaxRoundFailures (cfg t)) in
        if real r \<ge> maxExponent t then MaxReplicaTimeout (cfg t)
        else MinReplicaTimeout (cfg t) * TimeoutAdjustmentFactor (cfg t) ^ r)"

text \<open>\<open>time.Duration(durationMs) * time.Millisecond\<close> truncates the (non-negative) milliseconds.\<close>

definition StartTimeout :: "int \<Rightarrow> uint64 \<Rightarrow> Controller \<Rightarrow> TimerInfo" where
  "StartTimeout now view t =
     \<lparr>TI_View = view, TI_StartTime = now, TI_Duration = \<lfloor>replicaTimeout t\<rfloor> * 1000000\<rparr>"

definition OnTimeout :: "Controller \<Rightarrow> Controller" where
  "OnTimeout t =
     (if real (unat (failedRounds t)) \<ge> maxExponent t + real (unat (HappyPathMaxRoundFailures (cfg t)))
      then t else t\<lparr>failedRounds := failedRounds t + 1\<rparr>)"

definition OnProgressBeforeTimeout :: "Controller \<Rightarrow> Controller" where
  "OnProgressBeforeTimeout t =
     (if failedRounds t > 0 then t\<lparr>failedRounds := failedRounds t - 1\<rparr> else t)"

definition BlockRateDelay :: "Controller \<Rightarrow> int" where
  "BlockRateDelay t = \<lfloor>BlockRateDelayMS (cfg t) * 1000000\<rfloor>"

section \<open>Durations stay in their bounds\<close>

definition configOk :: "Config \<Rightarrow> bool" where
  "configOk c \<longleftrightarrow>
     0 < MinReplicaTimeout c \<and> MinReplicaTimeout c \<le> MaxReplicaTimeout c \<and> 1 < TimeoutAdjustmentFactor c"

lemma Milliseconds_mono: "\<lbrakk>0 \<le> a; a \<le> b\<rbrakk> \<Longrightarrow> Milliseconds a \<le> Milliseconds b"
  by (simp add: Milliseconds_def zdiv_mono1)

lemma NewConfig_ok:
  assumes "NewConfig mn mx f k d i = Inr c" "1000000 \<le> mn"
  shows "configOk c"
proof -
  have "1 \<le> Milliseconds mn" using assms(2) by (simp add: Milliseconds_def)
  moreover have "Milliseconds mn \<le> Milliseconds mx" if "mn \<le> mx"
    using that assms(2) by (simp add: Milliseconds_mono)
  ultimately show ?thesis
    using assms(1) by (auto simp: NewConfig_def configOk_def split: if_splits sum.splits)
qed

text \<open>The controllers that occur: the counter goes up and down from a new controller.\<close>

inductive controller_reachable :: "Config \<Rightarrow> Controller \<Rightarrow> bool" for c where
  init: "controller_reachable c (NewController c)"
| timeout: "controller_reachable c t \<Longrightarrow> controller_reachable c (OnTimeout t)"
| progress: "controller_reachable c t \<Longrightarrow> controller_reachable c (OnProgressBeforeTimeout t)"

lemma controller_frame:
  assumes "controller_reachable c t"
  shows "cfg t = c \<and> maxExponent t = maxExponent (NewController c)"
  using assms
  by induction (auto simp: NewController_def OnTimeout_def OnProgressBeforeTimeout_def)

lemma maxExponent_le_iff:
  assumes "configOk c"
  shows "maxExponent (NewController c) \<le> real n \<longleftrightarrow>
    MaxReplicaTimeout c \<le> MinReplicaTimeout c * TimeoutAdjustmentFactor c ^ n"
proof -
  let ?q = "MaxReplicaTimeout c / MinReplicaTimeout c" and ?b = "TimeoutAdjustmentFactor c"
  have q: "0 < ?q" and b: "1 < ?b" "0 < ln ?b" using assms by (auto simp: configOk_def)
  have "maxExponent (NewController c) \<le> real n \<longleftrightarrow> ln ?q \<le> real n * ln ?b"
    using b by (simp add: NewController_def pos_divide_le_eq)
  also have "\<dots> \<longleftrightarrow> ln ?q \<le> ln (?b ^ n)" using b by (simp add: ln_realpow)
  also have "\<dots> \<longleftrightarrow> ?q \<le> ?b ^ n" using q b by (subst ln_le_cancel_iff) auto
  also have "\<dots> \<longleftrightarrow> MaxReplicaTimeout c \<le> MinReplicaTimeout c * ?b ^ n"
    using assms by (simp add: configOk_def divide_le_eq mult.commute)
  finally show ?thesis .
qed

text \<open>
  The optimised computation (comparison with a pre-computed exponent) against the formula
  \<open>min(t_max, t_min * b ^ max(r - k, 0))\<close> of the documentation.
\<close>

definition backoff :: "Config \<Rightarrow> nat \<Rightarrow> real" where
  "backoff c n =
     min (MaxReplicaTimeout c)
       (MinReplicaTimeout c * TimeoutAdjustmentFactor c ^ (n - unat (HappyPathMaxRoundFailures c)))"

lemma unat_diff_view: "k < r \<Longrightarrow> unat (r - k :: uint64) = unat r - unat k"
  by (simp add: unat_sub less_imp_le)

lemma replicaTimeout_backoff:
  assumes "configOk c" "cfg t = c" "maxExponent t = maxExponent (NewController c)"
  shows "replicaTimeout t = backoff c (unat (failedRounds t))"
proof (cases "failedRounds t \<le> HappyPathMaxRoundFailures c")
  case True
  then show ?thesis
    using assms by (simp add: replicaTimeout_def backoff_def word_le_nat_alt configOk_def min_def)
next
  case False
  let ?n = "unat (failedRounds t) - unat (HappyPathMaxRoundFailures c)"
  have "unat (failedRounds t - HappyPathMaxRoundFailures c) = ?n"
    using False by (simp add: unat_diff_view)
  then show ?thesis
    using False assms maxExponent_le_iff [OF assms(1), of ?n]
    by (auto simp: replicaTimeout_def backoff_def Let_def min_def not_le)
qed

lemma backoff_mono: "\<lbrakk>configOk c; m \<le> n\<rbrakk> \<Longrightarrow> backoff c m \<le> backoff c n"
  unfolding backoff_def configOk_def
  by (intro min.mono mult_left_mono power_increasing) auto

lemma backoff_bounds:
  assumes "configOk c"
  shows "MinReplicaTimeout c \<le> backoff c n \<and> backoff c n \<le> MaxReplicaTimeout c"
  using assms one_le_power [of "TimeoutAdjustmentFactor c" "n - unat (HappyPathMaxRoundFailures c)"]
  by (auto simp: backoff_def configOk_def)

lemma OnTimeout_rounds:
  assumes "maxExponent t + real (unat (HappyPathMaxRoundFailures (cfg t))) < 2 ^ 64 - 1"
  shows "unat (failedRounds t) \<le> unat (failedRounds (OnTimeout t))"
proof (cases "real (unat (failedRounds t)) \<ge> maxExponent t + real (unat (HappyPathMaxRoundFailures (cfg t)))")
  case False
  then have "real (unat (failedRounds t)) < 2 ^ 64 - 1" using assms by linarith
  also have "(2 ^ 64 - 1 :: real) = real (2 ^ 64 - 1)" by simp
  finally have "unat (failedRounds t) < 2 ^ 64 - 1" by (simp only: of_nat_less_iff)
  then have "unat (failedRounds t) + unat (1 :: uint64) < 2 ^ LENGTH(64)" by simp
  then have "unat (failedRounds t + 1) = unat (failedRounds t) + unat (1 :: uint64)"
    by (rule unat_add_lem [THEN iffD1])
  then show ?thesis using False by (simp add: OnTimeout_def)
qed (simp add: OnTimeout_def)


definition exampleConfig :: Config where
  "exampleConfig =
     \<lparr>MinReplicaTimeout = 1000, MaxReplicaTimeout = 2000, TimeoutAdjustmentFactor = 2,
      HappyPathMaxRoundFailures = 1, BlockRateDelayMS = 0, MaxTimeoutObjectRebroadcastInterval = 500\<rparr>"


end
