(* ===== verification/Pacemaker.thy ===== *)
theory Pacemaker
  imports Persister Timeout_Control
begin

text \<open>
  \<open>consensus/hotstuff/pacemaker\<close>: the active pacemaker, which tracks the current view and the
  newest certificates, persists them and restarts the view timer.

  The state is the liveness data in memory, the database, the timeout controller and the log of
  notifications. As in the code, data in memory changes before it is persisted. The clock reading
  \<open>now\<close> of the timer is a parameter of each call.
\<close>

section \<open>State and operations\<close>

datatype pm_event =
    OnQcTriggeredViewChange uint64 uint64 QuorumCertificate
  | OnTcTriggeredViewChange uint64 uint64 TimeoutCertificate
  | OnViewChange uint64 uint64
  | OnStartingTimeout TimerInfo

record 'db PaceMaker =
  livenessData :: LivenessData
  pm_db :: 'db
  timeoutControl :: Controller
  started :: bool
  pm_events :: "pm_event list"

definition New_PaceMaker :: "('db \<Rightarrow> LivenessData result) \<Rightarrow> Controller \<Rightarrow> 'db \<Rightarrow> 'db PaceMaker result" where
  "New_PaceMaker get ctl db =
     (case get db of
        Inl e \<Rightarrow> Inl (wrapf e)
      | Inr d \<Rightarrow>
          if LD_CurrentView d < 1 then Inl (ConfigurationError Errorf)
          else Inr \<lparr>livenessData = d, pm_db = db, timeoutControl = ctl, started = False, pm_events = []\<rparr>)"

definition CurView :: "'db PaceMaker \<Rightarrow> uint64" where
  "CurView p = LD_CurrentView (livenessData p)"

definition NewestQC :: "'db PaceMaker \<Rightarrow> QuorumCertificate option" where
  "NewestQC p = LD_NewestQC (livenessData p)"

definition LastViewTC :: "'db PaceMaker \<Rightarrow> TimeoutCertificate option" where
  "LastViewTC p = LD_LastViewTC (livenessData p)"

definition storeLiveness ::
  "(LivenessData \<Rightarrow> 'db \<Rightarrow> unit result \<times> 'db) \<Rightarrow> LivenessData \<Rightarrow> 'db PaceMaker \<Rightarrow> unit result \<times> 'db PaceMaker" where
  "storeLiveness put d p =
     (case put d (pm_db p) of
        (Inl e, db') \<Rightarrow> (Inl (wrapf e), p\<lparr>livenessData := d, pm_db := db'\<rparr>)
      | (Inr _, db') \<Rightarrow> (Inr (), p\<lparr>livenessData := d, pm_db := db'\<rparr>))"

definition updateLivenessData ::
  "(LivenessData \<Rightarrow> 'db \<Rightarrow> unit result \<times> 'db) \<Rightarrow> uint64 \<Rightarrow> QuorumCertificate option \<Rightarrow> TimeoutCertificate option
    \<Rightarrow> 'db PaceMaker \<Rightarrow> unit result \<times> 'db PaceMaker" where
  "updateLivenessData put newView qc tc p =
     (let d = livenessData p in
      if newView \<le> LD_CurrentView d then (Inl Errorf, p)
      else
        let d1 = d\<lparr>LD_CurrentView := newView\<rparr> in
        case (LD_NewestQC d1, qc) of
          (Some newest, Some q) \<Rightarrow>
            let d2 = (if QC_View newest < QC_View q then d1\<lparr>LD_NewestQC := qc\<rparr> else d1);
                d3 = d2\<lparr>LD_LastViewTC := tc\<rparr> in
            storeLiveness put d3 p
        | _ \<Rightarrow> (Inl Panic, p\<lparr>livenessData := d1\<rparr>))"

definition updateNewestQC ::
  "(LivenessData \<Rightarrow> 'db \<Rightarrow> unit result \<times> 'db) \<Rightarrow> QuorumCertificate option \<Rightarrow> 'db PaceMaker
    \<Rightarrow> unit result \<times> 'db PaceMaker" where
  "updateNewestQC put qc p =
     (let d = livenessData p in
      case (LD_NewestQC d, qc) of
        (Some newest, Some q) \<Rightarrow>
          if QC_View newest \<ge> QC_View q then (Inr (), p)
          else storeLiveness put (d\<lparr>LD_NewestQC := qc\<rparr>) p
      | _ \<Rightarrow> (Inl Panic, p))"

text \<open>The common tail of \<open>ProcessQC\<close> and \<open>ProcessTC\<close>: notify, start the timer, return the event.\<close>

definition enterView :: "int \<Rightarrow> pm_event \<Rightarrow> uint64 \<Rightarrow> uint64 \<Rightarrow> 'db PaceMaker \<Rightarrow> TimerInfo option result \<times> 'db PaceMaker" where
  "enterView now trigger oldView newView p =
     (let timerInfo = StartTimeout now newView (timeoutControl p) in
      (Inr (Some timerInfo),
       p\<lparr>pm_events := pm_events p @ [trigger, OnViewChange oldView newView, OnStartingTimeout timerInfo]\<rparr>))"

definition ProcessQC ::
  "(LivenessData \<Rightarrow> 'db \<Rightarrow> unit result \<times> 'db) \<Rightarrow> int \<Rightarrow> QuorumCertificate option \<Rightarrow> 'db PaceMaker
    \<Rightarrow> TimerInfo option result \<times> 'db PaceMaker" where
  "ProcessQC put now qc p =
     (case qc of
        None \<Rightarrow> (Inl Panic, p)
      | Some q \<Rightarrow>
          let oldView = CurView p in
          if QC_View q < oldView
          then (case updateNewestQC put qc p of
                  (Inl e, p') \<Rightarrow> (Inl (wrapf e), p')
                | (Inr _, p') \<Rightarrow> (Inr None, p'))
          else
            let p1 = p\<lparr>timeoutControl := OnProgressBeforeTimeout (timeoutControl p)\<rparr>;
                newView = QC_View q + 1 in
            (case updateLivenessData put newView qc None p1 of
               (Inl e, p') \<Rightarrow> (Inl e, p')
             | (Inr _, p') \<Rightarrow>
                 enterView now (OnQcTriggeredViewChange oldView newView q) oldView newView p'))"

definition ProcessTC ::
  "(LivenessData \<Rightarrow> 'db \<Rightarrow> unit result \<times> 'db) \<Rightarrow> int \<Rightarrow> TimeoutCertificate option \<Rightarrow> 'db PaceMaker
    \<Rightarrow> TimerInfo option result \<times> 'db PaceMaker" where
  "ProcessTC put now tc p =
     (case tc of
        None \<Rightarrow> (Inr None, p)
      | Some t \<Rightarrow>
          let oldView = CurView p in
          if TC_View t < oldView
          then (case updateNewestQC put (TC_NewestQC t) p of
                  (Inl e, p') \<Rightarrow> (Inl (wrapf e), p')
                | (Inr _, p') \<Rightarrow> (Inr None, p'))
          else
            let p1 = p\<lparr>timeoutControl := OnTimeout (timeoutControl p)\<rparr>;
                newView = TC_View t + 1 in
            (case updateLivenessData put newView (TC_NewestQC t) tc p1 of
               (Inl e, p') \<Rightarrow> (Inl e, p')
             | (Inr _, p') \<Rightarrow>
                 enterView now (OnTcTriggeredViewChange oldView newView t) oldView newView p'))"

definition Start_PaceMaker :: "int \<Rightarrow> 'db PaceMaker \<Rightarrow> 'db PaceMaker" where
  "Start_PaceMaker now p =
     (if started p then p
      else p\<lparr>started := True,
             pm_events := pm_events p @ [OnStartingTimeout (StartTimeout now (CurView p) (timeoutControl p))]\<rparr>)"

section \<open>Runs with crashes\<close>

text \<open>
  A certificate as the pacemaker receives it, after validation: the newest QC of a TC is not from
  a later view than the TC.
\<close>

datatype cert = CertQC QuorumCertificate | CertTC TimeoutCertificate

definition tcOk :: "TimeoutCertificate \<Rightarrow> bool" where
  "tcOk t \<longleftrightarrow> (\<exists>q. TC_NewestQC t = Some q \<and> QC_View q \<le> TC_View t)"

definition processCert ::
  "(LivenessData \<Rightarrow> 'db \<Rightarrow> unit result \<times> 'db) \<Rightarrow> int \<Rightarrow> cert \<Rightarrow> 'db PaceMaker \<Rightarrow> TimerInfo option result \<times> 'db PaceMaker" where
  "processCert put now c p =
     (case c of CertQC q \<Rightarrow> ProcessQC put now (Some q) p | CertTC t \<Rightarrow> ProcessTC put now (Some t) p)"

definition certOk :: "cert \<Rightarrow> bool" where
  "certOk c \<longleftrightarrow> (case c of CertQC q \<Rightarrow> True | CertTC t \<Rightarrow> tcOk t)"

text \<open>
  The certificates a replica has processed successfully over its lifetime, the newest first, with
  restarts from the database at any point, and with writes of other components to the same
  database. An error of a call is fatal for the process, as the callers treat it, so a failing call
  is followed by a restart. \<open>gets\<close> and \<open>puts\<close> are the possible outcomes of the persister's calls.
\<close>

inductive pm_run ::
  "('db \<Rightarrow> LivenessData result) \<Rightarrow> ('db \<Rightarrow> LivenessData result) set
    \<Rightarrow> (LivenessData \<Rightarrow> 'db \<Rightarrow> unit result \<times> 'db) set \<Rightarrow> 'db \<Rightarrow> 'db PaceMaker \<Rightarrow> cert list \<Rightarrow> bool"
  for get gets puts db0
where
  pm_start: "\<lbrakk>g \<in> gets; New_PaceMaker g ctl db0 = Inr p\<rbrakk> \<Longrightarrow> pm_run get gets puts db0 p []"
| pm_ok: "\<lbrakk>pm_run get gets puts db0 p cs; put \<in> puts; certOk c; processCert put now c p = (Inr ev, p')\<rbrakk>
    \<Longrightarrow> pm_run get gets puts db0 p' (c # cs)"
| pm_error: "\<lbrakk>pm_run get gets puts db0 p cs; put \<in> puts; certOk c; processCert put now c p = (Inl e, p1);
      g \<in> gets; New_PaceMaker g ctl (pm_db p1) = Inr p'\<rbrakk>
    \<Longrightarrow> pm_run get gets puts db0 p' cs"
| pm_timer: "pm_run get gets puts db0 p cs \<Longrightarrow> pm_run get gets puts db0 (Start_PaceMaker now p) cs"
| pm_restart: "\<lbrakk>pm_run get gets puts db0 p cs; g \<in> gets; New_PaceMaker g ctl (pm_db p) = Inr p'\<rbrakk>
    \<Longrightarrow> pm_run get gets puts db0 p' cs"
| pm_other_write: "\<lbrakk>pm_run get gets puts db0 p cs; get db' = get (pm_db p)\<rbrakk>
    \<Longrightarrow> pm_run get gets puts db0 (p\<lparr>pm_db := db'\<rparr>) cs"

text \<open>
  Liveness data is coherent if the newest QC is from an earlier view, and the current view was
  entered either by that QC or by the recorded TC, whose QC is not newer than the newest one.
\<close>

definition ldOk :: "LivenessData \<Rightarrow> bool" where
  "ldOk d \<longleftrightarrow>
     (\<exists>q. LD_NewestQC d = Some q \<and> QC_View q < LD_CurrentView d \<and>
        (case LD_LastViewTC d of
           None \<Rightarrow> QC_View q + 1 = LD_CurrentView d
         | Some t \<Rightarrow> TC_View t + 1 = LD_CurrentView d \<and>
             (\<exists>tq. TC_NewestQC t = Some tq \<and> QC_View tq \<le> QC_View q)))"

lemma storeLiveness_cases:
  assumes "storeLiveness put d p = (a, p')"
  obtains res where "put d (pm_db p) = (res, pm_db p')" "livenessData p' = d"
    "a = Inr () \<longleftrightarrow> res = Inr ()"
  using assms by (cases "put d (pm_db p)") (fastforce simp: storeLiveness_def split: sum.splits)

text \<open>The liveness data that a certificate asks for.\<close>

definition newer :: "QuorumCertificate option \<Rightarrow> QuorumCertificate option \<Rightarrow> QuorumCertificate option" where
  "newer old new = (case (old, new) of (Some o', Some n) \<Rightarrow> if QC_View o' < QC_View n then new else old | _ \<Rightarrow> old)"

definition certView :: "cert \<Rightarrow> uint64" where
  "certView c = (case c of CertQC q \<Rightarrow> QC_View q | CertTC t \<Rightarrow> TC_View t)"

definition certQC :: "cert \<Rightarrow> QuorumCertificate option" where
  "certQC c = (case c of CertQC q \<Rightarrow> Some q | CertTC t \<Rightarrow> TC_NewestQC t)"

definition certTC :: "cert \<Rightarrow> TimeoutCertificate option" where
  "certTC c = (case c of CertQC q \<Rightarrow> None | CertTC t \<Rightarrow> Some t)"

definition withCert :: "cert \<Rightarrow> LivenessData \<Rightarrow> LivenessData" where
  "withCert c d =
     (if certView c < LD_CurrentView d then d\<lparr>LD_NewestQC := newer (LD_NewestQC d) (certQC c)\<rparr>
      else if certView c + 1 = 0 then d
      else \<lparr>LD_CurrentView = certView c + 1, LD_NewestQC = newer (LD_NewestQC d) (certQC c),
            LD_LastViewTC = certTC c\<rparr>)"

lemma cert_simps:
  "certView (CertQC q) = QC_View q" "certQC (CertQC q) = Some q" "certTC (CertQC q) = None"
  "certView (CertTC t) = TC_View t" "certQC (CertTC t) = TC_NewestQC t" "certTC (CertTC t) = Some t"
  by (simp_all add: certView_def certQC_def certTC_def)

lemma certOk_QC: "certOk c \<Longrightarrow> \<exists>q. certQC c = Some q \<and> QC_View q \<le> certView c"
  by (auto simp: certOk_def certQC_def certView_def tcOk_def split: cert.splits)

lemma certTC_cases: "certTC c = None \<and> certQC c = Some q \<and> QC_View q = certView c
    \<or> (\<exists>t. certTC c = Some t \<and> TC_View t = certView c \<and> TC_NewestQC t = certQC c)"
  if "certQC c = Some q"
  using that by (auto simp: certTC_def certQC_def certView_def split: cert.splits)

text \<open>\<open>ProcessQC\<close> and \<open>ProcessTC\<close> share one shape.\<close>

lemma processCert_eq:
  "\<exists>ctl tr. processCert put now c p =
     (if certView c < CurView p
      then (case updateNewestQC put (certQC c) p of
              (Inl e, p') \<Rightarrow> (Inl (wrapf e), p')
            | (Inr _, p') \<Rightarrow> (Inr None, p'))
      else (case updateLivenessData put (certView c + 1) (certQC c) (certTC c) (p\<lparr>timeoutControl := ctl\<rparr>) of
              (Inl e, p') \<Rightarrow> (Inl e, p')
            | (Inr _, p') \<Rightarrow> enterView now tr (CurView p) (certView c + 1) p'))"
proof (cases c)
  case (CertQC q)
  show ?thesis
    unfolding CertQC cert_simps processCert_def ProcessQC_def Let_def cert.case option.case by blast
next
  case (CertTC t)
  show ?thesis
    unfolding CertTC cert_simps processCert_def ProcessTC_def Let_def cert.case option.case by blast
qed

lemma newer_Some: "newer (Some x) (Some y) = Some (if QC_View x < QC_View y then y else x)"
  by (simp add: newer_def)

lemma ldOk_withCert:
  assumes "ldOk d" "certOk c"
  shows "ldOk (withCert c d)"
proof -
  obtain q where q: "LD_NewestQC d = Some q" "QC_View q < LD_CurrentView d"
    and tc: "case LD_LastViewTC d of
           None \<Rightarrow> QC_View q + 1 = LD_CurrentView d
         | Some t \<Rightarrow> TC_View t + 1 = LD_CurrentView d \<and>
             (\<exists>tq. TC_NewestQC t = Some tq \<and> QC_View tq \<le> QC_View q)"
    using assms(1) by (auto simp: ldOk_def)
  have stale: "ldOk (d\<lparr>LD_NewestQC := newer (LD_NewestQC d) (Some x)\<rparr>)"
    if lt: "QC_View x < LD_CurrentView d" for x
  proof (cases "QC_View q < QC_View x")
    case True
    then obtain t tq where "LD_LastViewTC d = Some t" "TC_View t + 1 = LD_CurrentView d"
      "TC_NewestQC t = Some tq" "QC_View tq \<le> QC_View q"
      using tc word_add_one_le [OF True] lt by (auto split: option.splits)
    then show ?thesis using True q that by (auto simp: ldOk_def newer_Some)
  next
    case False
    then have "d\<lparr>LD_NewestQC := newer (LD_NewestQC d) (Some x)\<rparr> = d" using q by (simp add: newer_Some)
    with assms(1) show ?thesis by simp
  qed
  obtain x where x: "certQC c = Some x" "QC_View x \<le> certView c" using certOk_QC [OF assms(2)] by blast
  show ?thesis
  proof (cases "certView c < LD_CurrentView d \<or> certView c + 1 = 0")
    case True
    then show ?thesis using stale [of x] x assms(1) by (auto simp: withCert_def)
  next
    case False
    then have "certView c < certView c + 1" "QC_View q < certView c"
      using word_add_one_cases [of "certView c"] q by auto
    then show ?thesis
      using certTC_cases [OF x(1)] False q x by (auto simp: withCert_def ldOk_def newer_Some)
  qed
qed

text \<open>What processing a certificate leaves behind, whatever the database does.\<close>

lemma updateNewestQC_effect:
  assumes "updateNewestQC put (Some q) p = (a, p')" "LD_NewestQC (livenessData p) = Some x"
  defines "d' \<equiv> (livenessData p)\<lparr>LD_NewestQC := newer (LD_NewestQC (livenessData p)) (Some q)\<rparr>"
  shows "livenessData p' = d'
    \<and> (p' = p \<and> d' = livenessData p \<and> a = Inr () \<or> (\<exists>r. put d' (pm_db p) = (r, pm_db p') \<and> (a = Inr () \<longleftrightarrow> r = Inr ())))"
proof (cases "QC_View x < QC_View q")
  case True
  then have "storeLiveness put d' p = (a, p')"
    using assms(1,2) unfolding d'_def by (simp add: updateNewestQC_def newer_Some Let_def not_le [symmetric])
  then show ?thesis by (auto elim!: storeLiveness_cases)
next
  case False
  then show ?thesis
    using assms(1,2) unfolding d'_def by (simp add: updateNewestQC_def newer_Some Let_def not_less)
qed

lemma updateLivenessData_effect:
  assumes "updateLivenessData put v (Some q) tc p = (a, p')" "LD_NewestQC (livenessData p) = Some x"
    and "LD_CurrentView (livenessData p) < v"
  defines "d' \<equiv> \<lparr>LD_CurrentView = v, LD_NewestQC = newer (LD_NewestQC (livenessData p)) (Some q), LD_LastViewTC = tc\<rparr>"
  shows "livenessData p' = d' \<and> (\<exists>r. put d' (pm_db p) = (r, pm_db p') \<and> (a = Inr () \<longleftrightarrow> r = Inr ()))"
proof -
  have "storeLiveness put d' p = (a, p')"
    using assms(1-3) unfolding d'_def
    by (cases "livenessData p") (auto simp: updateLivenessData_def newer_Some Let_def split: if_splits)
  then show ?thesis by (auto elim!: storeLiveness_cases)
qed

text \<open>
  The functional contract of the pacemaker: the liveness data in memory is exactly what the
  certificate asks for; it is on disk if the call succeeds; the call announces a new view exactly
  if the view changed.
\<close>

definition processed :: "(LivenessData \<Rightarrow> 'db \<Rightarrow> unit result \<times> 'db) \<Rightarrow> cert \<Rightarrow> 'db PaceMaker \<Rightarrow> TimerInfo option result \<Rightarrow> 'db PaceMaker \<Rightarrow> bool" where
  "processed put c p a p' \<longleftrightarrow>
     livenessData p' = withCert c (livenessData p) \<and>
     (pm_db p' = pm_db p \<and> livenessData p' = livenessData p \<and> (certView c + 1 = 0 \<or> (\<exists>ev. a = Inr ev)) \<or>
      (\<exists>r. put (livenessData p') (pm_db p) = (r, pm_db p') \<and> ((\<exists>ev. a = Inr ev) \<longleftrightarrow> r = Inr ()))) \<and>
     (\<forall>ev. a = Inr ev \<longrightarrow> certView c < CurView p' \<and> (case ev of
        None \<Rightarrow> CurView p' = CurView p
      | Some i \<Rightarrow> CurView p < CurView p' \<and> TI_View i = CurView p'))"

lemma view_succ_cases:
  fixes v w :: uint64
  assumes "w \<le> v"
  shows "v + 1 = 0 \<or> w < v + 1"
  using word_le_add_oneD [OF assms] by blast

lemma processCert_effect:
  assumes "ldOk (livenessData p)" "certOk c" "processCert put now c p = (a, p')"
  shows "processed put c p a p'"
proof -
  obtain x where x: "LD_NewestQC (livenessData p) = Some x" using assms(1) by (auto simp: ldOk_def)
  obtain q where q: "certQC c = Some q" using certOk_QC [OF assms(2)] by blast
  obtain ctl tr where eq: "processCert put now c p =
     (if certView c < CurView p
      then (case updateNewestQC put (certQC c) p of
              (Inl e, p') \<Rightarrow> (Inl (wrapf e), p')
            | (Inr _, p') \<Rightarrow> (Inr None, p'))
      else (case updateLivenessData put (certView c + 1) (certQC c) (certTC c) (p\<lparr>timeoutControl := ctl\<rparr>) of
              (Inl e, p') \<Rightarrow> (Inl e, p')
            | (Inr _, p') \<Rightarrow> enterView now tr (CurView p) (certView c + 1) p'))"
    using processCert_eq by blast
  show ?thesis
  proof (cases "certView c < CurView p")
    case True
    then obtain b where "updateNewestQC put (Some q) p = (b, p')"
      "a = (case b of Inl e \<Rightarrow> Inl (wrapf e) | Inr _ \<Rightarrow> Inr None)"
      using assms(3) eq q by (auto split: prod.splits sum.splits)
    with updateNewestQC_effect [OF this(1) x] True q show ?thesis
      by (cases b) (auto simp: processed_def withCert_def CurView_def)
  next
    case False
    obtain b p1 where u: "updateLivenessData put (certView c + 1) (Some q) (certTC c) (p\<lparr>timeoutControl := ctl\<rparr>) = (b, p1)"
      by (cases "updateLivenessData put (certView c + 1) (Some q) (certTC c) (p\<lparr>timeoutControl := ctl\<rparr>)")
    have a: "(a, p') = (case b of Inl e \<Rightarrow> (Inl e, p1) | Inr _ \<Rightarrow> enterView now tr (CurView p) (certView c + 1) p1)"
      using assms(3) eq q u False by (auto split: sum.splits)
    show ?thesis
    proof (cases "certView c + 1 = 0")
      case True
      then show ?thesis using u a False
        by (auto simp: updateLivenessData_def processed_def withCert_def CurView_def)
    next
      case nz: False
      then have "CurView p < certView c + 1" "certView c < certView c + 1"
        using view_succ_cases [of "CurView p" "certView c"] view_succ_cases [of "certView c" "certView c"] False
        by auto
      then show ?thesis
        using updateLivenessData_effect [OF u, of x] x a nz False q
        by (cases b) (auto simp: processed_def withCert_def CurView_def enterView_def StartTimeout_def Let_def)
    qed
  qed
qed

section \<open>The invariant of a run\<close>

text \<open>Liveness data covers a list of certificates if it is past their views and knows QCs as new.\<close>

definition covers :: "cert list \<Rightarrow> LivenessData \<Rightarrow> bool" where
  "covers cs d \<longleftrightarrow>
     (\<forall>c\<in>set cs. certView c < LD_CurrentView d \<and> qcView (certQC c) \<le> qcView (LD_NewestQC d))"

lemma qcView_newer:
  "\<lbrakk>old = Some x; new = Some y\<rbrakk> \<Longrightarrow> qcView (newer old new) = max (qcView old) (qcView new)"
  by (auto simp: newer_Some qcView_def max_def)

lemma withCert_grows:
  assumes "ldOk d" "certOk c"
  shows "LD_CurrentView d \<le> LD_CurrentView (withCert c d)
    \<and> qcView (LD_NewestQC d) \<le> qcView (LD_NewestQC (withCert c d))
    \<and> (certView c < LD_CurrentView (withCert c d) \<longrightarrow> qcView (certQC c) \<le> qcView (LD_NewestQC (withCert c d)))"
proof -
  obtain x y where xy: "LD_NewestQC d = Some x" "certQC c = Some y"
    using assms(1) certOk_QC [OF assms(2)] by (auto simp: ldOk_def)
  show ?thesis
    using qcView_newer [OF xy] view_succ_cases [of "LD_CurrentView d" "certView c"]
    by (auto simp: withCert_def not_less)
qed

lemma covers_withCert:
  assumes "ldOk d" "certOk c" "covers cs d"
  shows "covers cs (withCert c d)"
    and "certView c < LD_CurrentView (withCert c d) \<Longrightarrow> covers (c # cs) (withCert c d)"
  using assms(3) withCert_grows [OF assms(1,2)] unfolding covers_def by force+

definition pmInv :: "('db \<Rightarrow> LivenessData result) \<Rightarrow> 'db PaceMaker \<Rightarrow> cert list \<Rightarrow> bool" where
  "pmInv get p cs \<longleftrightarrow>
     get (pm_db p) = Inr (livenessData p) \<and> ldOk (livenessData p) \<and> covers cs (livenessData p)"

lemma New_PaceMaker_ok:
  "New_PaceMaker get ctl db = Inr p \<Longrightarrow> pm_db p = db \<and> get db = Inr (livenessData p)"
  by (auto simp: New_PaceMaker_def split: sum.splits if_splits)

locale pacemaker_env =
  persister get gets puts
  for get :: "'db \<Rightarrow> LivenessData result" and gets :: "('db \<Rightarrow> LivenessData result) set"
  and puts :: "(LivenessData \<Rightarrow> 'db \<Rightarrow> unit result \<times> 'db) set"
begin

lemma cert_inv:
  assumes "pmInv get p cs" "certOk c" "processCert put now c p = (a, p')" "put \<in> puts"
  shows "a = Inr ev \<Longrightarrow> pmInv get p' (c # cs)"
    and "get (pm_db p') = Inr d \<Longrightarrow> ldOk d \<and> covers cs d"
proof -
  have d: "ldOk (livenessData p)" "covers cs (livenessData p)"
    and disk: "get (pm_db p) = Inr (livenessData p)"
    using assms(1) by (auto simp: pmInv_def)
  have pr: "processed put c p a p'" using processCert_effect [OF d(1) assms(2,3)] .
  note ok = ldOk_withCert [OF d(1) assms(2)] and cv = covers_withCert [OF d(1) assms(2) d(2)]
  have mem: "livenessData p' = withCert c (livenessData p)" using pr by (simp add: processed_def)
  show "pmInv get p' (c # cs)" if "a = Inr ev"
  proof -
    have "certView c < LD_CurrentView (livenessData p')"
      using pr that by (auto simp: processed_def CurView_def)
    moreover have "get (pm_db p') = Inr (livenessData p')"
      using pr that disk put_ok [OF assms(4)] unfolding processed_def by metis
    ultimately show ?thesis using ok cv(2) mem by (simp add: pmInv_def)
  qed
  show "ldOk d \<and> covers cs d" if "get (pm_db p') = Inr d"
  proof -
    have "d = livenessData p' \<or> d = livenessData p"
      using pr that disk put_cases [OF assms(4)] unfolding processed_def by (metis sum.inject(2))
    then show ?thesis using ok cv(1) mem d by auto
  qed
qed

lemma New_ok:
  assumes "g \<in> gets" "New_PaceMaker g ctl db = Inr p"
  shows "pm_db p = db \<and> get db = Inr (livenessData p)"
  using New_PaceMaker_ok [OF assms(2)] get_ok [OF assms(1)] by simp

lemma pm_run_inv:
  assumes "pm_run get gets puts db0 p cs" "\<forall>d. get db0 = Inr d \<longrightarrow> ldOk d"
  shows "pmInv get p cs"
  using assms
proof (induction rule: pm_run.induct)
  case (pm_start g ctl p)
  from New_ok [OF pm_start.hyps] pm_start.prems show ?case by (simp add: pmInv_def covers_def)
next
  case (pm_ok p cs put c now ev p')
  then show ?case using cert_inv(1) by blast
next
  case (pm_error p cs put c now e p1 g ctl p')
  from pm_error.IH pm_error.prems have "pmInv get p cs" by blast
  from cert_inv(2) [OF this pm_error.hyps(3,4,2)] New_ok [OF pm_error.hyps(5,6)]
  show ?case by (simp add: pmInv_def)
next
  case (pm_timer p cs now)
  then show ?case by (simp add: pmInv_def Start_PaceMaker_def)
next
  case (pm_restart p cs g ctl p')
  from pm_restart.IH pm_restart.prems have "pmInv get p cs" by blast
  with New_ok [OF pm_restart.hyps(2,3)] show ?case by (simp add: pmInv_def)
next
  case (pm_other_write p cs db')
  then show ?case by (simp add: pmInv_def)
qed

end

interpretation pmBadger: pacemaker_env "storedLiveness c" "range (\<lambda>bg. GetLivenessData bg c)"
  "range (\<lambda>bg. putLiveness bg c)" for c ..

section \<open>Guarantees with the Badger persister\<close>

text \<open>
  C6: over the lifetime of a replica, with crashes and failed writes at any point, the pacemaker
  never falls behind a certificate it has processed: its view is above the certificate's view and
  its newest QC is at least as new. The newest QC is always from an earlier view, and the current
  view was entered by that QC or by the recorded TC for the directly preceding view.
\<close>

theorem pacemaker_keeps_certificates:
  assumes "pm_run (storedLiveness ch) (range (\<lambda>bg. GetLivenessData bg ch)) (range (\<lambda>bg. putLiveness bg ch)) db0 p cs"
    and "\<forall>d. storedLiveness ch db0 = Inr d \<longrightarrow> ldOk d"
  shows "(\<forall>c\<in>set cs. certView c < CurView p \<and> qcView (certQC c) \<le> qcView (NewestQC p))
    \<and> (\<exists>q. NewestQC p = Some q \<and> QC_View q < CurView p
         \<and> (case LastViewTC p of
              None \<Rightarrow> QC_View q + 1 = CurView p
            | Some t \<Rightarrow> TC_View t + 1 = CurView p \<and> (\<exists>tq. TC_NewestQC t = Some tq \<and> QC_View tq \<le> QC_View q)))"
proof
  have inv: "pmInv (storedLiveness ch) p cs" by (rule pmBadger.pm_run_inv [OF assms])
  then show "\<forall>c\<in>set cs. certView c < CurView p \<and> qcView (certQC c) \<le> qcView (NewestQC p)"
    by (simp add: pmInv_def covers_def CurView_def NewestQC_def)
  from inv have "ldOk (livenessData p)" by (simp add: pmInv_def)
  then show "\<exists>q. NewestQC p = Some q \<and> QC_View q < CurView p
         \<and> (case LastViewTC p of
              None \<Rightarrow> QC_View q + 1 = CurView p
            | Some t \<Rightarrow> TC_View t + 1 = CurView p \<and> (\<exists>tq. TC_NewestQC t = Some tq \<and> QC_View tq \<le> QC_View q))"
    unfolding ldOk_def CurView_def NewestQC_def LastViewTC_def .
qed

text \<open>
  C18: processing a certificate whose view is not the last 64-bit number, with a working database,
  succeeds. It moves to the view after the certificate's unless the pacemaker is already past it,
  keeps the newer QC, and announces a new view exactly if the view changed.
\<close>

theorem certificate_advances_view:
  assumes "ldOk (livenessData p)" "certOk c" "certView c + 1 \<noteq> 0"
    and "putLiveness bg ch (withCert c (livenessData p)) (pm_db p) = (Inr (), db')"
  shows "\<exists>ev p'. processCert (putLiveness bg ch) now c p = (Inr ev, p')
    \<and> unat (CurView p') = max (unat (CurView p)) (unat (certView c) + 1)
    \<and> qcView (NewestQC p') = max (qcView (NewestQC p)) (qcView (certQC c))
    \<and> (ev = None \<longleftrightarrow> CurView p' = CurView p)"
proof -
  obtain a p' where pc: "processCert (putLiveness bg ch) now c p = (a, p')"
    by (cases "processCert (putLiveness bg ch) now c p")
  note pr = processCert_effect [OF assms(1,2) pc]
  obtain ev where ev: "a = Inr ev" using pr assms(3,4) by (auto simp: processed_def)
  obtain x y where xy: "LD_NewestQC (livenessData p) = Some x" "certQC c = Some y"
    using assms(1) certOk_QC [OF assms(2)] by (auto simp: ldOk_def)
  have mem: "livenessData p' = withCert c (livenessData p)" using pr by (simp add: processed_def)
  have "unat (certView c + 1) = unat (certView c) + 1"
    using word_add_one_cases [of "certView c"] assms(3) word_add_one_unat by blast
  then have "unat (CurView p') = max (unat (CurView p)) (unat (certView c) + 1)"
    using assms(3) by (auto simp: CurView_def mem withCert_def word_less_nat_alt max_def)
  moreover have "qcView (NewestQC p') = max (qcView (NewestQC p)) (qcView (certQC c))"
    using assms(3) qcView_newer [OF xy] by (simp add: NewestQC_def mem withCert_def)
  moreover have "ev = None \<longleftrightarrow> CurView p' = CurView p"
    using pr ev by (auto simp: processed_def split: option.splits)
  ultimately show ?thesis using pc ev by blast
qed

text \<open>An example: in view 6, entered by a QC for view 5, a TC for view 6 is processed.\<close>

definition exampleController :: Controller where
  "exampleController = \<lparr>cfg = exampleConfig, maxExponent = 1, failedRounds = 0\<rparr>"

definition exampleLiveness :: LivenessData where
  "exampleLiveness = \<lparr>LD_CurrentView = 6, LD_NewestQC = Some (exampleQC 5 55), LD_LastViewTC = None\<rparr>"

definition exampleLDB :: badgerDB where
  "exampleLDB = [([11, 7], LivenessEntity exampleLiveness)]"

definition examplePM :: "badgerDB PaceMaker" where
  "examplePM = projr (New_PaceMaker (GetLivenessData exampleBadger [7]) exampleController exampleLDB)"

definition exampleCert :: cert where
  "exampleCert = CertTC (exampleTC 6 (exampleQC 4 44))"

lemma example_pm_start:
  "New_PaceMaker (GetLivenessData exampleBadger [7]) exampleController exampleLDB = Inr examplePM"
  "livenessData examplePM = exampleLiveness" "pm_db examplePM = exampleLDB"
  by (simp_all add: examplePM_def New_PaceMaker_def GetLivenessData_def op_retrieve_def tx_Get_def
      exampleBadger_def exampleLDB_def makePrefix_def codeLivenessData_def exampleLiveness_def)

lemma example_ldOk: "ldOk exampleLiveness" "certOk exampleCert" "certView exampleCert + 1 \<noteq> 0"
  by (simp_all add: ldOk_def exampleLiveness_def exampleQC_def certOk_def exampleCert_def tcOk_def
      exampleTC_def certView_def)

lemma example_pm_put:
  "\<exists>db'. putLiveness exampleBadger [7] (withCert exampleCert exampleLiveness) exampleLDB = (Inr (), db')"
proof -
  have "fst (putLiveness exampleBadger [7] (withCert exampleCert exampleLiveness) exampleLDB) = Inr ()"
    by code_simp
  then show ?thesis by (cases "putLiveness exampleBadger [7] (withCert exampleCert exampleLiveness) exampleLDB") simp
qed

theorem certificate_advances_view_witness:
  "\<exists>ev p'. processCert (putLiveness exampleBadger [7]) 0 exampleCert examplePM = (Inr ev, p')
     \<and> unat (CurView p') = 7"
proof -
  obtain db' where "putLiveness exampleBadger [7] (withCert exampleCert exampleLiveness) exampleLDB = (Inr (), db')"
    using example_pm_put by blast
  moreover have "CurView examplePM = 6" by (simp add: CurView_def example_pm_start exampleLiveness_def)
  moreover have "certView exampleCert = 6" by (simp add: certView_def exampleCert_def exampleTC_def)
  ultimately show ?thesis
    using certificate_advances_view [of examplePM exampleCert exampleBadger "[7]" _ 0]
      example_ldOk example_pm_start by force
qed

theorem pacemaker_keeps_certificates_witness:
  "\<exists>p'. snd (processCert (putLiveness exampleBadger [7]) 0 exampleCert examplePM) = p'
     \<and> 6 < CurView p' \<and> qcView (Some (exampleQC 4 44)) \<le> qcView (NewestQC p')"
proof -
  obtain a p' where pc: "processCert (putLiveness exampleBadger [7]) 0 exampleCert examplePM = (a, p')"
    by (cases "processCert (putLiveness exampleBadger [7]) 0 exampleCert examplePM")
  have "\<exists>ev. a = Inr ev"
    using processCert_effect [OF _ example_ldOk(2) pc] example_pm_put example_ldOk example_pm_start
    by (auto simp: processed_def)
  then obtain ev where ev: "processCert (putLiveness exampleBadger [7]) 0 exampleCert examplePM = (Inr ev, p')"
    using pc by blast
  have g: "GetLivenessData exampleBadger [7] \<in> range (\<lambda>bg. GetLivenessData bg [7])"
    "putLiveness exampleBadger [7] \<in> range (\<lambda>bg. putLiveness bg [7])" by (rule rangeI)+
  have run: "pm_run (storedLiveness [7]) (range (\<lambda>bg. GetLivenessData bg [7]))
      (range (\<lambda>bg. putLiveness bg [7])) exampleLDB p' [exampleCert]"
    by (rule pm_run.pm_ok [OF pm_run.pm_start [OF g(1) example_pm_start(1)] g(2) example_ldOk(2) ev])
  have "\<forall>d. storedLiveness [7] exampleLDB = Inr d \<longrightarrow> ldOk d"
    using example_pm_start example_ldOk(1) pmBadger.New_ok [OF g(1) example_pm_start(1)] by simp
  from pacemaker_keeps_certificates [OF run this] pc show ?thesis
    by (simp add: certView_def certQC_def exampleCert_def exampleTC_def)
qed

end
