(* ===== verification/Bit_Utils.thy ===== *)
theory Bit_Utils
  imports HotStuff_Model
begin

text \<open>
  \<open>ledger/common/bitutils\<close>: bit vectors in byte slices, most significant bit first. An index
  outside of the slice panics.
\<close>

unbundle bit_operations_syntax

section \<open>Operations\<close>

definition ReadBit :: "bytes \<Rightarrow> nat \<Rightarrow> int result" where
  "ReadBit b idx =
     (if drop_bit 3 idx < length b
      then let byteValue = uint (b ! drop_bit 3 idx); idx' = idx AND 7 in
           Inr (drop_bit (7 - idx') byteValue AND 1)
      else Inl Panic)"

definition SetBit :: "bytes \<Rightarrow> nat \<Rightarrow> bytes result" where
  "SetBit b i =
     (let byteIndex = drop_bit 3 i; i' = i AND 7; mask = push_bit (7 - i') (1 :: byte) in
      if byteIndex < length b then Inr (b[byteIndex := b ! byteIndex OR mask]) else Inl Panic)"

definition ClearBit :: "bytes \<Rightarrow> nat \<Rightarrow> bytes result" where
  "ClearBit b i =
     (let byteIndex = drop_bit 3 i; i' = i AND 7; mask = push_bit (7 - i') (1 :: byte) in
      if byteIndex < length b then Inr (b[byteIndex := b ! byteIndex AND NOT mask]) else Inl Panic)"

definition WriteBit :: "bytes \<Rightarrow> nat \<Rightarrow> int \<Rightarrow> bytes result" where
  "WriteBit b i v = (if v = 0 then ClearBit b i else SetBit b i)"

definition MinimalByteSliceLength :: "nat \<Rightarrow> nat" where
  "MinimalByteSliceLength n = drop_bit 3 (n + 7)"

definition MakeBitVector :: "nat \<Rightarrow> bytes" where
  "MakeBitVector numberBits = replicate (MinimalByteSliceLength numberBits) 0"

section \<open>Byte slices as bit vectors\<close>

text \<open>The bit that \<open>ReadBit\<close> reads, and the vectors as functions on positions.\<close>

definition bitAt :: "bytes \<Rightarrow> nat \<Rightarrow> bool" where
  "bitAt b i \<longleftrightarrow> bit (b ! (i div 8)) (7 - i mod 8)"

lemma drop_bit_3: "drop_bit 3 (n :: nat) = n div 8"
  by (simp add: drop_bit_eq_div)

lemma and_7: "(n :: nat) AND 7 = n mod 8"
  using take_bit_eq_mask [of 3 n] by (simp add: take_bit_eq_mod mask_eq_exp_minus_1)

lemmas bit_index_simps = drop_bit_3 and_7

lemma div8_less: "i div 8 < n \<longleftrightarrow> i < 8 * n" for i n :: nat
  by (simp add: div_less_iff_less_mult mult.commute)

lemma MinimalByteSliceLength_eq: "MinimalByteSliceLength n = (n + 7) div 8"
  by (simp add: MinimalByteSliceLength_def drop_bit_3)

lemma MinimalByteSliceLength_bounds:
  "n \<le> 8 * MinimalByteSliceLength n" "8 * MinimalByteSliceLength n < n + 8"
  unfolding MinimalByteSliceLength_eq by linarith+

lemma length_MakeBitVector [simp]: "length (MakeBitVector n) = MinimalByteSliceLength n"
  by (simp add: MakeBitVector_def)

lemma bitAt_MakeBitVector: "i < 8 * MinimalByteSliceLength n \<Longrightarrow> \<not> bitAt (MakeBitVector n) i"
  by (simp add: bitAt_def MakeBitVector_def div8_less)

lemma ReadBit_eq:
  "ReadBit b i = (if i < 8 * length b then Inr (of_bool (bitAt b i)) else Inl Panic)"
proof -
  have "drop_bit k (uint (w :: byte)) AND 1 = of_bool (bit w k)" for k w
    using bit_imp_le_length [of w k]
    by (auto simp: and_one_eq even_drop_bit_iff_not_bit bit_uint_iff mod2_eq_if)
  then show ?thesis by (simp add: ReadBit_def bit_index_simps div8_less bitAt_def Let_def)
qed

lemma same_bit_index:
  fixes i j :: nat
  assumes "j div 8 = i div 8"
  shows "7 - j mod 8 = 7 - i mod 8 \<longleftrightarrow> j = i"
proof -
  have "j mod 8 < 8" "i mod 8 < 8" by simp_all
  then have "7 - j mod 8 = 7 - i mod 8 \<longleftrightarrow> j mod 8 = i mod 8" by linarith
  then show ?thesis using assms div_mult_mod_eq [of i 8] div_mult_mod_eq [of j 8] by metis
qed

lemma bit_mask: "m < 8 \<Longrightarrow> bit (2 ^ m :: byte) n \<longleftrightarrow> n = m"
  by (auto simp: bit_exp_iff)

lemma bitAt_update:
  "i div 8 < length b \<Longrightarrow>
   bitAt (b[i div 8 := w]) j = (if j div 8 = i div 8 then bit w (7 - j mod 8) else bitAt b j)"
  by (auto simp: bitAt_def nth_list_update')

lemma SetBit_spec:
  assumes "i < 8 * length b"
  shows "\<exists>b'. SetBit b i = Inr b' \<and> length b' = length b \<and> (\<forall>j. bitAt b' j \<longleftrightarrow> j = i \<or> bitAt b j)"
proof (intro exI conjI allI)
  let ?b = "b[i div 8 := b ! (i div 8) OR push_bit (7 - i mod 8) 1]"
  have l: "i div 8 < length b" using assms by (simp add: div8_less)
  then show "SetBit b i = Inr ?b" by (simp add: SetBit_def bit_index_simps Let_def)
  show "length ?b = length b" by simp
  show "bitAt ?b j \<longleftrightarrow> j = i \<or> bitAt b j" for j
    unfolding bitAt_update [OF l]
    by (cases "j div 8 = i div 8") (auto simp: bit_or_iff bit_mask same_bit_index bitAt_def)
qed

lemma ClearBit_spec:
  assumes "i < 8 * length b"
  shows "\<exists>b'. ClearBit b i = Inr b' \<and> length b' = length b \<and> (\<forall>j. bitAt b' j \<longleftrightarrow> j \<noteq> i \<and> bitAt b j)"
proof (intro exI conjI allI)
  let ?b = "b[i div 8 := b ! (i div 8) AND NOT (push_bit (7 - i mod 8) 1)]"
  have l: "i div 8 < length b" using assms by (simp add: div8_less)
  then show "ClearBit b i = Inr ?b" by (simp add: ClearBit_def bit_index_simps Let_def)
  show "length ?b = length b" by simp
  show "bitAt ?b j \<longleftrightarrow> j \<noteq> i \<and> bitAt b j" for j
    unfolding bitAt_update [OF l]
    by (cases "j div 8 = i div 8")
       (auto simp: bit_and_iff bit_not_iff bit_mask same_bit_index bitAt_def dest: bit_imp_le_length)
qed

lemma bytes_eqI:
  assumes "length b = length b'" "\<And>i. i < 8 * length b \<Longrightarrow> bitAt b i = bitAt b' i"
  shows "b = b'"
proof (rule nth_equalityI [OF assms(1)])
  fix k assume k: "k < length b"
  show "b ! k = b' ! k"
  proof (rule bit_word_eqI)
    fix n assume "n < LENGTH(8)"
    then have n: "n < 8" by simp
    define m where "m = 7 - n"
    then have m: "m < 8" "7 - m = n" using n by simp_all
    have "bitAt b (8 * k + m) = bitAt b' (8 * k + m)"
      using assms(2) [of "8 * k + m"] k m(1) by simp
    then show "bit (b ! k) n = bit (b' ! k) n" using m by (simp add: bitAt_def)
  qed
qed

text \<open>
  C20: \<open>WriteBit\<close> then \<open>ReadBit\<close>: in range, writing succeeds, the written bit reads back as 0 or 1
  and every other bit of the slice is unchanged; out of range both panic.
\<close>

theorem WriteBit_ReadBit:
  "(if i < 8 * length b
    then \<exists>b'. WriteBit b i v = Inr b' \<and> length b' = length b
      \<and> (\<forall>j. ReadBit b' j = (if j = i then Inr (of_bool (v \<noteq> 0)) else ReadBit b j))
    else WriteBit b i v = Inl Panic \<and> ReadBit b i = Inl Panic)"
proof (cases "i < 8 * length b")
  case True
  obtain b' where b': "WriteBit b i v = Inr b'" "length b' = length b"
    "\<And>j. bitAt b' j \<longleftrightarrow> (if j = i then v \<noteq> 0 else bitAt b j)"
  proof (cases "v = 0")
    case zero: True
    obtain b' where "ClearBit b i = Inr b'" "length b' = length b" "\<forall>j. bitAt b' j \<longleftrightarrow> j \<noteq> i \<and> bitAt b j"
      using ClearBit_spec [OF True] by blast
    with zero that [of b'] show ?thesis by (simp add: WriteBit_def)
  next
    case one: False
    obtain b' where "SetBit b i = Inr b'" "length b' = length b" "\<forall>j. bitAt b' j \<longleftrightarrow> j = i \<or> bitAt b j"
      using SetBit_spec [OF True] by blast
    with one that [of b'] show ?thesis by (simp add: WriteBit_def)
  qed
  have "\<forall>j. ReadBit b' j = (if j = i then Inr (of_bool (v \<noteq> 0)) else ReadBit b j)"
    using True b'(2,3) by (simp add: ReadBit_eq)
  with True b'(1,2) show ?thesis by simp
next
  case False
  then show ?thesis
    by (simp add: ReadBit_eq WriteBit_def SetBit_def ClearBit_def bit_index_simps div8_less Let_def)
qed

end
