(* ===== verification/Signer_Indices.thy ===== *)
theory Signer_Indices
  imports Bit_Utils Identity_List
begin

text \<open>
  \<open>module/signature/signer_indices.go\<close> and \<open>checksum.go\<close>: sets of signers as bit vectors over the
  canonical list of the committee, prefixed with a checksum of that list.

  \<open>crc32.ChecksumIEEE\<close> of the standard library is defined bit by bit. The lookup maps of the code
  are lists of their keys.
\<close>

unbundle bit_operations_syntax

section \<open>Checksum\<close>

definition crcStep :: "32 word \<Rightarrow> 32 word" where
  "crcStep c = (if bit c 0 then drop_bit 1 c XOR 0xEDB88320 else drop_bit 1 c)"

definition crcByte :: "byte \<Rightarrow> 32 word \<Rightarrow> 32 word" where
  "crcByte b c = (crcStep ^^ 8) (c XOR ucast b)"

definition ChecksumIEEE :: "bytes \<Rightarrow> 32 word" where
  "ChecksumIEEE data = NOT (fold crcByte data (NOT 0))"

definition CheckSumLen :: nat where "CheckSumLen = 4"

definition checksum :: "bytes \<Rightarrow> bytes" where
  "checksum data = be_bytes CheckSumLen (ChecksumIEEE data)"

definition EncodeIdentities :: "Identifier list \<Rightarrow> bytes" where
  "EncodeIdentities identities = concat (map (be_bytes 32) identities)"

definition CheckSumFromIdentities :: "Identifier list \<Rightarrow> bytes" where
  "CheckSumFromIdentities identities = checksum (EncodeIdentities identities)"

definition PrefixCheckSum :: "Identifier list \<Rightarrow> bytes \<Rightarrow> bytes" where
  "PrefixCheckSum canonicalList signerIndices = CheckSumFromIdentities canonicalList @ signerIndices"

definition SplitCheckSum :: "bytes \<Rightarrow> (bytes \<times> bytes) result" where
  "SplitCheckSum prefixed =
     (if length prefixed < CheckSumLen then Inl (Wrapf ErrInvalidChecksum)
      else Inr (take CheckSumLen prefixed, drop CheckSumLen prefixed))"

definition CompareAndExtract :: "Identifier list \<Rightarrow> bytes \<Rightarrow> bytes result" where
  "CompareAndExtract canonicalList prefixed =
     (case SplitCheckSum prefixed of
        Inl e \<Rightarrow> Inl (wrapf e)
      | Inr (encoderChecksum, signerIndices) \<Rightarrow>
          if encoderChecksum \<noteq> CheckSumFromIdentities canonicalList then Inl (Wrapf ErrInvalidChecksum)
          else Inr signerIndices)"

section \<open>Encoding\<close>

fun encodeLoop :: "Identifier list \<Rightarrow> nat \<Rightarrow> Identifier list \<Rightarrow> bytes \<Rightarrow> (Identifier list \<times> bytes) result" where
  "encodeLoop [] canonicalIdx signersLookup signerIndices = Inr (signersLookup, signerIndices)"
| "encodeLoop (member # rest) canonicalIdx signersLookup signerIndices =
     (if member \<in> set signersLookup
      then (case SetBit signerIndices canonicalIdx of
              Inl e \<Rightarrow> Inl e
            | Inr signerIndices' \<Rightarrow>
                encodeLoop rest (Suc canonicalIdx) (removeAll member signersLookup) signerIndices')
      else encodeLoop rest (Suc canonicalIdx) signersLookup signerIndices)"

definition EncodeSignersToIndices :: "Identifier list \<Rightarrow> Identifier list \<Rightarrow> bytes result" where
  "EncodeSignersToIndices canonicalIdentifiers signerIDs =
     (let signersLookup = remdups signerIDs in
      if length signersLookup \<noteq> length signerIDs then Inl Errorf
      else case encodeLoop canonicalIdentifiers 0 signersLookup
                  (MakeBitVector (length canonicalIdentifiers)) of
        Inl e \<Rightarrow> Inl e
      | Inr (unknown, signerIndices) \<Rightarrow>
          if length unknown > 0 then Inl Errorf
          else Inr (PrefixCheckSum canonicalIdentifiers signerIndices))"

record typeLoopState =
  stakingSignersLookup :: "Identifier list"
  beaconSignersLookup :: "Identifier list"
  tl_signerIndices :: bytes
  tl_sigTypes :: bytes
  signerCounter :: nat

definition encodeMember :: "nat \<Rightarrow> Identifier \<Rightarrow> typeLoopState \<Rightarrow> typeLoopState result" where
  "encodeMember canonicalIdx member s =
     (if member \<in> set (stakingSignersLookup s)
      then (case SetBit (tl_signerIndices s) canonicalIdx of
              Inl e \<Rightarrow> Inl e
            | Inr si \<Rightarrow>
                Inr (s\<lparr>tl_signerIndices := si,
                       stakingSignersLookup := removeAll member (stakingSignersLookup s),
                       signerCounter := signerCounter s + 1\<rparr>))
      else if member \<in> set (beaconSignersLookup s)
      then (case SetBit (tl_signerIndices s) canonicalIdx of
              Inl e \<Rightarrow> Inl e
            | Inr si \<Rightarrow>
                (case SetBit (tl_sigTypes s) (signerCounter s) of
                   Inl e \<Rightarrow> Inl e
                 | Inr st \<Rightarrow>
                     Inr (s\<lparr>tl_signerIndices := si, tl_sigTypes := st,
                            beaconSignersLookup := removeAll member (beaconSignersLookup s),
                            signerCounter := signerCounter s + 1\<rparr>)))
      else Inr s)"

fun encodeTypeLoop :: "Identifier list \<Rightarrow> nat \<Rightarrow> typeLoopState \<Rightarrow> typeLoopState result" where
  "encodeTypeLoop [] canonicalIdx s = Inr s"
| "encodeTypeLoop (member # rest) canonicalIdx s =
     (case encodeMember canonicalIdx member s of
        Inl e \<Rightarrow> Inl e
      | Inr s' \<Rightarrow> encodeTypeLoop rest (Suc canonicalIdx) s')"

definition EncodeSignerToIndicesAndSigType ::
  "Identifier list \<Rightarrow> Identifier list \<Rightarrow> Identifier list \<Rightarrow> (bytes \<times> bytes) result" where
  "EncodeSignerToIndicesAndSigType canonicalIdentifiers stakingSigners beaconSigners =
     (let stakingLookup = remdups stakingSigners; beaconLookup = remdups beaconSigners in
      if length stakingLookup \<noteq> length stakingSigners then Inl Errorf
      else if length beaconLookup \<noteq> length beaconSigners then Inl Errorf
      else case encodeTypeLoop canonicalIdentifiers 0
                  \<lparr>stakingSignersLookup = stakingLookup, beaconSignersLookup = beaconLookup,
                   tl_signerIndices = MakeBitVector (length canonicalIdentifiers),
                   tl_sigTypes = MakeBitVector (length stakingSigners + length beaconSigners),
                   signerCounter = 0\<rparr> of
        Inl e \<Rightarrow> Inl e
      | Inr s \<Rightarrow>
          if length (stakingSignersLookup s) > 0 then Inl Errorf
          else if length (beaconSignersLookup s) > 0 then Inl Errorf
          else Inr (PrefixCheckSum canonicalIdentifiers (tl_signerIndices s), tl_sigTypes s))"

section \<open>Decoding\<close>

definition validPadding :: "bytes \<Rightarrow> nat \<Rightarrow> unit result" where
  "validPadding bitVector numUsedBits =
     (let l = length bitVector in
      if l \<noteq> MinimalByteSliceLength numUsedBits then Inl (Wrapf ErrIncompatibleBitVectorLength)
      else if numUsedBits AND 7 = 0 then Inr ()
      else if l = 0 then Inl Panic
      else let lastByte = bitVector ! (l - 1) in
        if push_bit (numUsedBits AND 7) lastByte \<noteq> 0 then Inl (Wrapf ErrIllegallyPaddedBitVector)
        else Inr ())"

definition paddingError :: "error \<Rightarrow> bool" where
  "paddingError e \<longleftrightarrow>
     errors_As (\<lambda>e. e = ErrIncompatibleBitVectorLength) e \<or> errors_As (\<lambda>e. e = ErrIllegallyPaddedBitVector) e"

fun typeSplitLoop :: "IdentityList \<Rightarrow> nat \<Rightarrow> bytes \<Rightarrow> (IdentityList \<times> IdentityList) result" where
  "typeSplitLoop [] i sigType = Inr ([], [])"
| "typeSplitLoop (signer # rest) i sigType =
     (case ReadBit sigType i of
        Inl e \<Rightarrow> Inl e
      | Inr v \<Rightarrow>
          (case typeSplitLoop rest (Suc i) sigType of
             Inl e \<Rightarrow> Inl e
           | Inr (staking, beacon) \<Rightarrow>
               if v = 0 then Inr (signer # staking, beacon) else Inr (staking, signer # beacon)))"

definition DecodeSigTypeToStakingAndBeaconSigners ::
  "IdentityList \<Rightarrow> bytes \<Rightarrow> (IdentityList \<times> IdentityList) result" where
  "DecodeSigTypeToStakingAndBeaconSigners signers sigType =
     (case validPadding sigType (length signers) of
        Inl e \<Rightarrow> if paddingError e then Inl (InvalidSigTypesError (wrapf e)) else Inl (wrapf e)
      | Inr _ \<Rightarrow> typeSplitLoop signers 0 sigType)"

fun readLoop :: "bytes \<Rightarrow> nat list \<Rightarrow> nat list result" where
  "readLoop signerIndices [] = Inr []"
| "readLoop signerIndices (i # rest) =
     (case ReadBit signerIndices i of
        Inl e \<Rightarrow> Inl e
      | Inr v \<Rightarrow>
          (case readLoop signerIndices rest of
             Inl e \<Rightarrow> Inl e
           | Inr indices \<Rightarrow> Inr (if v = 1 then i # indices else indices)))"

definition decodeSignerIndices :: "Identifier list \<Rightarrow> bytes \<Rightarrow> nat list result" where
  "decodeSignerIndices canonicalIdentifiers prefixed =
     (case CompareAndExtract canonicalIdentifiers prefixed of
        Inl e \<Rightarrow>
          if errors_As (\<lambda>e. e = ErrInvalidChecksum) e then Inl (InvalidSignerIndicesError (wrapf e))
          else Inl (wrapf e)
      | Inr signerIndices \<Rightarrow>
          let numberCanonicalNodes = length canonicalIdentifiers in
          (case validPadding signerIndices numberCanonicalNodes of
             Inl e \<Rightarrow>
               if paddingError e then Inl (InvalidSignerIndicesError (wrapf e)) else Inl (wrapf e)
           | Inr _ \<Rightarrow> readLoop signerIndices [0..<numberCanonicalNodes]))"

definition DecodeSignerIndicesToIdentifiers :: "Identifier list \<Rightarrow> bytes \<Rightarrow> Identifier list result" where
  "DecodeSignerIndicesToIdentifiers canonicalIdentifiers prefixed =
     (case decodeSignerIndices canonicalIdentifiers prefixed of
        Inl e \<Rightarrow> Inl e
      | Inr indices \<Rightarrow> Inr (map (\<lambda>index. canonicalIdentifiers ! index) indices))"

definition DecodeSignerIndicesToIdentities :: "IdentityList \<Rightarrow> bytes \<Rightarrow> IdentityList result" where
  "DecodeSignerIndicesToIdentities canonicalIdentities prefixed =
     (case decodeSignerIndices (il_NodeIDs canonicalIdentities) prefixed of
        Inl e \<Rightarrow> Inl e
      | Inr indices \<Rightarrow> Inr (map (\<lambda>index. canonicalIdentities ! index) indices))"

section \<open>Loops as sets of positions\<close>

text \<open>Position \<open>j\<close> of a list that starts at position \<open>k\<close>.\<close>

definition at :: "'a list \<Rightarrow> nat \<Rightarrow> nat \<Rightarrow> 'a set \<Rightarrow> bool" where
  "at xs k j S \<longleftrightarrow> k \<le> j \<and> j < k + length xs \<and> xs ! (j - k) \<in> S"

lemma at_Cons: "at (x # xs) k j S \<longleftrightarrow> j = k \<and> x \<in> S \<or> at xs (Suc k) j S"
  by (cases "j = k") (auto simp: at_def nth_Cons' Suc_diff_Suc le_less_Suc_eq)

lemma at_Nil: "\<not> at [] k j S"
  by (simp add: at_def)

lemma at_remove: "x \<notin> set xs \<Longrightarrow> at xs k j (S - {x}) = at xs k j S"
  using nth_mem [of "j - k" xs] by (auto simp: at_def)

lemma encodeLoop_spec:
  assumes "distinct ms" "k + length ms \<le> 8 * length v"
  shows "\<exists>v'. encodeLoop ms k lk v = Inr (filter (\<lambda>x. x \<notin> set ms) lk, v') \<and> length v' = length v
    \<and> (\<forall>j. bitAt v' j \<longleftrightarrow> bitAt v j \<or> at ms k j (set lk))"
  using assms
proof (induction ms arbitrary: k lk v)
  case (Cons m ms)
  show ?case
  proof (cases "m \<in> set lk")
    case True
    obtain v1 where v1: "SetBit v k = Inr v1" "length v1 = length v" "\<forall>j. bitAt v1 j \<longleftrightarrow> j = k \<or> bitAt v j"
      using SetBit_spec [of k v] Cons.prems by auto
    obtain v' where "encodeLoop ms (Suc k) (removeAll m lk) v1 = Inr (filter (\<lambda>x. x \<notin> set ms) (removeAll m lk), v')"
      "length v' = length v1"
      "\<forall>j. bitAt v' j \<longleftrightarrow> bitAt v1 j \<or> at ms (Suc k) j (set (removeAll m lk))"
      using Cons.IH [of "Suc k" v1 "removeAll m lk"] Cons.prems v1(2) by auto
    moreover have "filter (\<lambda>x. x \<notin> set ms) (removeAll m lk) = filter (\<lambda>x. x \<notin> set (m # ms)) lk"
      by (induction lk) auto
    ultimately show ?thesis
      using True v1 Cons.prems(1) by (auto simp: at_Cons at_remove)
  next
    case False
    obtain v' where "encodeLoop ms (Suc k) lk v = Inr (filter (\<lambda>x. x \<notin> set ms) lk, v')"
      "length v' = length v" "\<forall>j. bitAt v' j \<longleftrightarrow> bitAt v j \<or> at ms (Suc k) j (set lk)"
      using Cons.IH [of "Suc k" v lk] Cons.prems by auto
    moreover have "filter (\<lambda>x. x \<notin> set ms) lk = filter (\<lambda>x. x \<notin> set (m # ms)) lk"
      using False by (auto intro: filter_cong)
    ultimately show ?thesis using False by (auto simp: at_Cons)
  qed
qed (simp add: at_Nil)

text \<open>
  The loop with signature types: \<open>typeLoopPost ms k s s'\<close> relates the states before and after the
  members \<open>ms\<close>, the first of which has index \<open>k\<close>.
\<close>

definition signersOf :: "typeLoopState \<Rightarrow> Identifier list \<Rightarrow> Identifier list" where
  "signersOf s = filter (\<lambda>x. x \<in> set (stakingSignersLookup s) \<union> set (beaconSignersLookup s))"

definition typeLoopPost :: "Identifier list \<Rightarrow> nat \<Rightarrow> typeLoopState \<Rightarrow> typeLoopState \<Rightarrow> bool" where
  "typeLoopPost ms k s s' \<longleftrightarrow>
     set (stakingSignersLookup s') = set (stakingSignersLookup s) - set ms \<and>
     set (beaconSignersLookup s') = set (beaconSignersLookup s) - set ms \<and>
     length (tl_signerIndices s') = length (tl_signerIndices s) \<and>
     length (tl_sigTypes s') = length (tl_sigTypes s) \<and>
     signerCounter s' = signerCounter s + length (signersOf s ms) \<and>
     (\<forall>j. bitAt (tl_signerIndices s') j \<longleftrightarrow> bitAt (tl_signerIndices s) j \<or>
        at ms k j (set (stakingSignersLookup s) \<union> set (beaconSignersLookup s))) \<and>
     (\<forall>j. bitAt (tl_sigTypes s') j \<longleftrightarrow> bitAt (tl_sigTypes s) j \<or>
        at (signersOf s ms) (signerCounter s) j (set (beaconSignersLookup s)))"

lemma encodeMember_spec:
  assumes "set (stakingSignersLookup s) \<inter> set (beaconSignersLookup s) = {}"
    and "k < 8 * length (tl_signerIndices s)"
    and "signerCounter s + length (signersOf s [m]) \<le> 8 * length (tl_sigTypes s)"
  shows "\<exists>s'. encodeMember k m s = Inr s' \<and> typeLoopPost [m] k s s'"
proof -
  consider (st) "m \<in> set (stakingSignersLookup s)" "m \<notin> set (beaconSignersLookup s)"
    | (bc) "m \<notin> set (stakingSignersLookup s)" "m \<in> set (beaconSignersLookup s)"
    | (no) "m \<notin> set (stakingSignersLookup s)" "m \<notin> set (beaconSignersLookup s)"
    using assms(1) by blast
  then show ?thesis
  proof cases
    case st
    obtain v where "SetBit (tl_signerIndices s) k = Inr v" "length v = length (tl_signerIndices s)"
      "\<forall>j. bitAt v j \<longleftrightarrow> j = k \<or> bitAt (tl_signerIndices s) j" using SetBit_spec [OF assms(2)] by blast
    with st show ?thesis
      by (auto simp: encodeMember_def typeLoopPost_def signersOf_def at_Cons at_Nil)
  next
    case bc
    obtain v where v: "SetBit (tl_signerIndices s) k = Inr v" "length v = length (tl_signerIndices s)"
      "\<forall>j. bitAt v j \<longleftrightarrow> j = k \<or> bitAt (tl_signerIndices s) j" using SetBit_spec [OF assms(2)] by blast
    have "signerCounter s < 8 * length (tl_sigTypes s)" using assms(3) bc by (simp add: signersOf_def)
    then obtain w where "SetBit (tl_sigTypes s) (signerCounter s) = Inr w" "length w = length (tl_sigTypes s)"
      "\<forall>j. bitAt w j \<longleftrightarrow> j = signerCounter s \<or> bitAt (tl_sigTypes s) j" using SetBit_spec by blast
    with bc v show ?thesis
      by (auto simp: encodeMember_def typeLoopPost_def signersOf_def at_Cons at_Nil)
  next
    case no
    then show ?thesis by (auto simp: encodeMember_def typeLoopPost_def signersOf_def at_Cons at_Nil)
  qed
qed

lemma encodeTypeLoop_spec:
  assumes "distinct ms" "set (stakingSignersLookup s) \<inter> set (beaconSignersLookup s) = {}"
    and "k + length ms \<le> 8 * length (tl_signerIndices s)"
    and "signerCounter s + length (signersOf s ms) \<le> 8 * length (tl_sigTypes s)"
  shows "\<exists>s'. encodeTypeLoop ms k s = Inr s' \<and> typeLoopPost ms k s s'"
  using assms
proof (induction ms arbitrary: k s)
  case Nil
  then show ?case by (simp add: typeLoopPost_def signersOf_def at_Nil)
next
  case (Cons m ms)
  have sp: "signersOf s (m # ms) = signersOf s [m] @ signersOf s ms" by (simp add: signersOf_def)
  obtain s1 where s1: "encodeMember k m s = Inr s1" "typeLoopPost [m] k s s1"
    using encodeMember_spec [OF Cons.prems(2), of k m] Cons.prems(3,4) sp by auto
  have lk: "set (stakingSignersLookup s1) = set (stakingSignersLookup s) - {m}"
    "set (beaconSignersLookup s1) = set (beaconSignersLookup s) - {m}"
    using s1(2) by (auto simp: typeLoopPost_def)
  have so: "signersOf s1 ms = signersOf s ms"
    using Cons.prems(1) unfolding signersOf_def lk by (intro filter_cong) auto
  have "set (stakingSignersLookup s1) \<inter> set (beaconSignersLookup s1) = {}" using lk Cons.prems(2) by blast
  moreover have "Suc k + length ms \<le> 8 * length (tl_signerIndices s1)"
    using Cons.prems(3) s1(2) by (simp add: typeLoopPost_def)
  moreover have "signerCounter s1 + length (signersOf s1 ms) \<le> 8 * length (tl_sigTypes s1)"
    using Cons.prems(4) s1(2) by (simp add: typeLoopPost_def so sp)
  ultimately obtain s' where s': "encodeTypeLoop ms (Suc k) s1 = Inr s'" "typeLoopPost ms (Suc k) s1 s'"
    using Cons.IH Cons.prems(1) by (meson distinct.simps(2))
  have m: "m \<notin> set ms" "m \<notin> set (signersOf s ms)" using Cons.prems(1) by (auto simp: signersOf_def)
  have un: "set (stakingSignersLookup s) - {m} \<union> (set (beaconSignersLookup s) - {m})
      = (set (stakingSignersLookup s) \<union> set (beaconSignersLookup s)) - {m}" by blast
  have one: "signersOf s [m] = (if m \<in> set (stakingSignersLookup s) \<union> set (beaconSignersLookup s) then [m] else [])"
    by (simp add: signersOf_def)
  have "typeLoopPost (m # ms) k s s'"
    using s1(2) s'(2) Cons.prems(2) m
    by (cases "m \<in> set (stakingSignersLookup s) \<union> set (beaconSignersLookup s)")
       (auto simp: typeLoopPost_def so sp lk un at_Cons at_Nil at_remove one)
  then show ?case using s1(1) s'(1) by simp
qed

lemma readLoop_spec:
  "\<forall>i\<in>set ixs. i < 8 * length v \<Longrightarrow> readLoop v ixs = Inr (filter (bitAt v) ixs)"
  by (induction ixs) (auto simp: ReadBit_eq)

lemma push_bit_byte_zero:
  "push_bit r (w :: byte) = 0 \<longleftrightarrow> (\<forall>i. i + r < 8 \<longrightarrow> \<not> bit w i)"
proof
  assume z: "push_bit r w = 0"
  show "\<forall>i. i + r < 8 \<longrightarrow> \<not> bit w i"
  proof (intro allI impI)
    fix i assume "i + r < 8"
    moreover have "\<not> bit (push_bit r w) (i + r)" using z by simp
    ultimately show "\<not> bit w i" by (simp add: bit_push_bit_iff)
  qed
next
  assume b: "\<forall>i. i + r < 8 \<longrightarrow> \<not> bit w i"
  show "push_bit r w = 0"
    by (rule bit_word_eqI) (use b in \<open>auto simp: bit_push_bit_iff dest: spec [of _ "_ - r"]\<close>)
qed

lemma last_byte_padding:
  assumes "l = (n + 7) div 8" "n mod 8 \<noteq> 0" "length v = l"
  shows "push_bit (n mod 8) (v ! (l - 1)) = 0 \<longleftrightarrow> (\<forall>j. n \<le> j \<and> j < 8 * l \<longrightarrow> \<not> bitAt v j)"
proof -
  define r where "r = n mod 8"
  obtain q where r: "n = 8 * q + r" "0 < r" "r < 8"
    using assms(2) div_mult_mod_eq [of n 8] by (metis r_def mult.commute mod_less_divisor neq0_conv zero_less_numeral)
  have "l = q + 1" unfolding assms(1) using r by (intro div_nat_eqI) simp_all
  with r have l: "n = 8 * (l - 1) + r" "0 < r" "r < 8" "0 < l" by simp_all
  have "(\<forall>i. i + r < 8 \<longrightarrow> \<not> bit (v ! (l - 1)) i) \<longleftrightarrow> (\<forall>j. n \<le> j \<and> j < 8 * l \<longrightarrow> \<not> bitAt v j)"
  proof (intro iffI allI impI)
    fix j assume b: "\<forall>i. i + r < 8 \<longrightarrow> \<not> bit (v ! (l - 1)) i" and j: "n \<le> j \<and> j < 8 * l"
    define m where "m = j - 8 * (l - 1)"
    have m: "j = 8 * (l - 1) + m" "r \<le> m" "m < 8" unfolding m_def using j l by linarith+
    then have "7 - m + r < 8" by simp
    with b m show "\<not> bitAt v j" by (simp add: bitAt_def)
  next
    fix i assume b: "\<forall>j. n \<le> j \<and> j < 8 * l \<longrightarrow> \<not> bitAt v j" and i: "i + r < 8"
    define m where "m = 7 - i"
    have m: "r \<le> m" "m < 8" "7 - m = i" unfolding m_def using i by simp_all
    have "n \<le> 8 * (l - 1) + m" "8 * (l - 1) + m < 8 * l" using l m by linarith+
    then have "\<not> bitAt v (8 * (l - 1) + m)" using b by blast
    then show "\<not> bit (v ! (l - 1)) i" using m by (simp add: bitAt_def)
  qed
  then show ?thesis by (simp add: push_bit_byte_zero r_def)
qed

lemma validPadding_ok:
  "validPadding v n = Inr () \<longleftrightarrow>
   length v = MinimalByteSliceLength n \<and> (\<forall>j. n \<le> j \<and> j < 8 * length v \<longrightarrow> \<not> bitAt v j)"
proof (cases "length v = MinimalByteSliceLength n")
  case True
  show ?thesis
  proof (cases "n mod 8 = 0")
    case zero: True
    then obtain q where n: "n = 8 * q" by auto
    have "(n + 7) div 8 = q" using n by (intro div_nat_eqI) simp_all
    then have "8 * length v = n" using True n by (simp add: MinimalByteSliceLength_eq)
    then show ?thesis using True zero by (auto simp: validPadding_def bit_index_simps)
  next
    case nz: False
    then have "0 < n" by (cases n) simp_all
    then have "length v \<noteq> 0" using True MinimalByteSliceLength_bounds(1) [of n] by auto
    then show ?thesis
      using True nz last_byte_padding [OF refl nz, of v]
      by (simp add: validPadding_def bit_index_simps MinimalByteSliceLength_eq Let_def)
  qed
qed (simp add: validPadding_def Let_def)

section \<open>Round trips\<close>

definition memberBits :: "Identifier list \<Rightarrow> Identifier set \<Rightarrow> bytes \<Rightarrow> bool" where
  "memberBits ids S v \<longleftrightarrow>
     length v = MinimalByteSliceLength (length ids) \<and>
     (\<forall>j < 8 * length v. bitAt v j \<longleftrightarrow> j < length ids \<and> ids ! j \<in> S)"

lemma memberBits_unique: "\<lbrakk>memberBits ids S v; memberBits ids S w\<rbrakk> \<Longrightarrow> v = w"
  unfolding memberBits_def by (rule bytes_eqI) auto

lemma length_checksum: "length (CheckSumFromIdentities ids) = CheckSumLen"
  by (simp add: CheckSumFromIdentities_def checksum_def)

lemma CompareAndExtract_ok:
  "CompareAndExtract ids p = Inr v \<longleftrightarrow> p = PrefixCheckSum ids v"
proof -
  have "p = CheckSumFromIdentities ids @ v \<longleftrightarrow>
      \<not> length p < CheckSumLen \<and> take CheckSumLen p = CheckSumFromIdentities ids \<and> v = drop CheckSumLen p"
    using length_checksum [of ids] append_eq_conv_conj [of "CheckSumFromIdentities ids" v p]
    by (metis length_take min.absorb3 nat_neq_iff)
  then show ?thesis by (auto simp: CompareAndExtract_def SplitCheckSum_def PrefixCheckSum_def)
qed

lemma encodeLoop_memberBits:
  assumes "distinct ids"
  shows "\<exists>v. encodeLoop ids 0 (remdups sg) (MakeBitVector (length ids))
      = Inr (filter (\<lambda>x. x \<notin> set ids) (remdups sg), v) \<and> memberBits ids (set sg) v"
proof -
  have len: "length ids \<le> 8 * length (MakeBitVector (length ids))"
    using MinimalByteSliceLength_bounds(1) by simp
  obtain v where v: "encodeLoop ids 0 (remdups sg) (MakeBitVector (length ids))
      = Inr (filter (\<lambda>x. x \<notin> set ids) (remdups sg), v)"
    "length v = MinimalByteSliceLength (length ids)"
    "\<forall>j. bitAt v j \<longleftrightarrow> bitAt (MakeBitVector (length ids)) j \<or> j < length ids \<and> ids ! j \<in> set sg"
    using encodeLoop_spec [OF assms, of 0 "MakeBitVector (length ids)" "remdups sg"] len by (auto simp: at_def)
  moreover have "memberBits ids (set sg) v"
    using v(2,3) bitAt_MakeBitVector by (auto simp: memberBits_def)
  ultimately show ?thesis by blast
qed

lemma encode_ok:
  assumes "distinct ids"
  shows "EncodeSignersToIndices ids sg = Inr p \<longleftrightarrow>
    distinct sg \<and> set sg \<subseteq> set ids \<and> (\<exists>v. p = PrefixCheckSum ids v \<and> memberBits ids (set sg) v)"
proof -
  obtain v where v: "encodeLoop ids 0 (remdups sg) (MakeBitVector (length ids))
      = Inr (filter (\<lambda>x. x \<notin> set ids) (remdups sg), v)" and mb: "memberBits ids (set sg) v"
    using encodeLoop_memberBits [OF assms] by blast
  have dup: "length (remdups sg) = length sg \<longleftrightarrow> distinct sg"
    by simp
  have un: "filter (\<lambda>x. x \<notin> set ids) (remdups sg) = [] \<longleftrightarrow> set sg \<subseteq> set ids"
    by (auto simp: filter_empty_conv)
  have "EncodeSignersToIndices ids sg =
      (if \<not> distinct sg then Inl Errorf
       else if \<not> set sg \<subseteq> set ids then Inl Errorf else Inr (PrefixCheckSum ids v))"
    unfolding EncodeSignersToIndices_def Let_def v by (simp only: dup un sum.case prod.case length_greater_0_conv if_not_P not_not)
  moreover have "(\<exists>w. p = PrefixCheckSum ids w \<and> memberBits ids (set sg) w) \<longleftrightarrow> p = PrefixCheckSum ids v"
    using mb memberBits_unique by blast
  ultimately show ?thesis by (simp split: if_splits) blast
qed

lemma decode_ok:
  "decodeSignerIndices ids p = Inr ixs \<longleftrightarrow>
   (\<exists>v. p = PrefixCheckSum ids v \<and> validPadding v (length ids) = Inr ()
      \<and> ixs = filter (bitAt v) [0..<length ids])"
proof -
  have rl: "readLoop v [0..<length ids] = Inr (filter (bitAt v) [0..<length ids])"
    if "validPadding v (length ids) = Inr ()" for v
    using that MinimalByteSliceLength_bounds(1) [of "length ids"]
    by (intro readLoop_spec) (auto simp: validPadding_ok)
  show ?thesis
  proof (cases "CompareAndExtract ids p")
    case (Inl e)
    then show ?thesis using CompareAndExtract_ok [of ids p] by (auto simp: decodeSignerIndices_def)
  next
    case (Inr v)
    then have p: "p = PrefixCheckSum ids w \<longleftrightarrow> w = v" for w
      using CompareAndExtract_ok [of ids p w] by auto
    show ?thesis
      unfolding p using Inr rl [of v]
      by (cases "validPadding v (length ids)") (auto simp: decodeSignerIndices_def Let_def)
  qed
qed

lemma filter_nth_upt: "map (\<lambda>i. xs ! i) (filter (\<lambda>i. P (xs ! i)) [0..<length xs]) = filter P xs"
proof (induction xs rule: rev_induct)
  case (snoc x xs)
  have "map (\<lambda>i. (xs @ [x]) ! i) (filter (\<lambda>i. P ((xs @ [x]) ! i)) [0..<length xs])
      = map (\<lambda>i. xs ! i) (filter (\<lambda>i. P (xs ! i)) [0..<length xs])"
    by (intro map_cong filter_cong) (auto simp: nth_append)
  with snoc show ?case by simp
qed simp

lemma memberBits_padding:
  assumes "memberBits ids S v"
  shows "validPadding v (length ids) = Inr ()"
    and "filter (bitAt v) [0..<length ids] = filter (\<lambda>i. ids ! i \<in> S) [0..<length ids]"
proof -
  show "validPadding v (length ids) = Inr ()"
    using assms by (auto simp: validPadding_ok memberBits_def)
  show "filter (bitAt v) [0..<length ids] = filter (\<lambda>i. ids ! i \<in> S) [0..<length ids]"
    using assms MinimalByteSliceLength_bounds(1) [of "length ids"]
    by (intro filter_cong) (auto simp: memberBits_def)
qed

lemma decode_memberBits:
  assumes "memberBits ids S v"
  shows "decodeSignerIndices ids (PrefixCheckSum ids v) = Inr (filter (\<lambda>i. ids ! i \<in> S) [0..<length ids])"
  using memberBits_padding [OF assms] decode_ok by metis

lemma padding_memberBits:
  assumes "distinct ids" "validPadding v (length ids) = Inr ()"
  shows "memberBits ids (set (map (\<lambda>i. ids ! i) (filter (bitAt v) [0..<length ids]))) v"
  unfolding memberBits_def
proof (intro conjI allI impI)
  show "length v = MinimalByteSliceLength (length ids)" using assms(2) by (simp add: validPadding_ok)
  fix j assume j: "j < 8 * length v"
  show "bitAt v j \<longleftrightarrow> j < length ids \<and> ids ! j \<in> set (map (\<lambda>i. ids ! i) (filter (bitAt v) [0..<length ids]))"
  proof (cases "j < length ids")
    case True
    then show ?thesis using nth_eq_iff_index_eq [OF assms(1) True] by auto
  next
    case False
    then show ?thesis using j assms(2) by (auto simp: validPadding_ok)
  qed
qed

text \<open>
  C16: bit vectors and signer sets are in bijection. Over a duplicate-free canonical list, encoding
  succeeds exactly for duplicate-free sublists of it, and a vector decodes to a list of signers if
  and only if the list is in canonical order and encodes to exactly this vector: no set of signers
  has two valid encodings.
\<close>

theorem signer_indices_bijection:
  assumes "distinct ids"
  shows "(DecodeSignerIndicesToIdentifiers ids p = Inr sg \<longleftrightarrow>
      EncodeSignersToIndices ids sg = Inr p \<and> sg = filter (\<lambda>x. x \<in> set sg) ids)
    \<and> ((\<exists>p. EncodeSignersToIndices ids sg = Inr p) \<longleftrightarrow> distinct sg \<and> set sg \<subseteq> set ids)"
proof (intro conjI iffI)
  assume "DecodeSignerIndicesToIdentifiers ids p = Inr sg"
  then obtain v where v: "p = PrefixCheckSum ids v" "validPadding v (length ids) = Inr ()"
    "sg = map (\<lambda>i. ids ! i) (filter (bitAt v) [0..<length ids])"
    by (auto simp: DecodeSignerIndicesToIdentifiers_def decode_ok split: sum.splits)
  have mb: "memberBits ids (set sg) v" using padding_memberBits [OF assms v(2)] v(3) by simp
  have sg: "sg = filter (\<lambda>x. x \<in> set sg) ids"
    using filter_nth_upt [of ids "\<lambda>x. x \<in> set sg"] unfolding memberBits_padding(2) [OF mb, symmetric]
    by (rule trans [OF v(3)])
  have "distinct sg" "set sg \<subseteq> set ids"
    using arg_cong [OF sg, of distinct] arg_cong [OF sg, of set] assms by auto
  then show "EncodeSignersToIndices ids sg = Inr p" using encode_ok [OF assms] v(1) mb by blast
  show "sg = filter (\<lambda>x. x \<in> set sg) ids" by (rule sg)
next
  assume a: "EncodeSignersToIndices ids sg = Inr p \<and> sg = filter (\<lambda>x. x \<in> set sg) ids"
  then obtain v where v: "p = PrefixCheckSum ids v" "memberBits ids (set sg) v"
    using encode_ok [OF assms] by blast
  have "map (\<lambda>i. ids ! i) (filter (\<lambda>i. ids ! i \<in> set sg) [0..<length ids]) = sg"
    using trans [OF filter_nth_upt conjunct2 [OF a, symmetric]] .
  then show "DecodeSignerIndicesToIdentifiers ids p = Inr sg"
    using decode_memberBits [OF v(2)] v(1) by (simp add: DecodeSignerIndicesToIdentifiers_def)
next
  assume "\<exists>p. EncodeSignersToIndices ids sg = Inr p"
  then show "distinct sg" "set sg \<subseteq> set ids" using encode_ok [OF assms] by blast+
next
  assume ds: "distinct sg \<and> set sg \<subseteq> set ids"
  obtain v where "memberBits ids (set sg) v" using encodeLoop_memberBits [OF assms] by blast
  then show "\<exists>p. EncodeSignersToIndices ids sg = Inr p" using encode_ok [OF assms] ds by blast
qed

theorem signer_indices_bijection_witness:
  "DecodeSignerIndicesToIdentifiers [1, 2, 3] (PrefixCheckSum [1, 2, 3] [0xA0]) = Inr [1, 3]"
proof -
  have "EncodeSignersToIndices [1, 2, 3] [1, 3] = Inr (PrefixCheckSum [1, 2, 3] [0xA0])"
    by (simp add: EncodeSignersToIndices_def SetBit_def bit_index_simps MakeBitVector_def
        MinimalByteSliceLength_eq Let_def)
  then show ?thesis
    using signer_indices_bijection [of "[1, 2, 3]" "PrefixCheckSum [1, 2, 3] [0xA0]" "[1, 3]"] by simp
qed

lemma typeSplitLoop_spec:
  assumes "i + length signers \<le> 8 * length t"
    and "\<forall>j < length signers. bitAt t (i + j) \<longleftrightarrow> P (signers ! j)"
  shows "typeSplitLoop signers i t = Inr (filter (\<lambda>x. \<not> P x) signers, filter P signers)"
  using assms
proof (induction signers arbitrary: i)
  case (Cons x xs)
  have "\<forall>j < length xs. bitAt t (Suc i + j) \<longleftrightarrow> P (xs ! j)" using Cons.prems(2) by fastforce
  then have "typeSplitLoop xs (Suc i) t = Inr (filter (\<lambda>x. \<not> P x) xs, filter P xs)"
    using Cons.IH [of "Suc i"] Cons.prems(1) by simp
  moreover have "bitAt t i \<longleftrightarrow> P x" using Cons.prems(2) by fastforce
  ultimately show ?case using Cons.prems(1) by (simp add: ReadBit_eq)
qed simp

lemma length_filter_members:
  assumes "distinct ids" "distinct st" "distinct bc" "set st \<inter> set bc = {}" "set st \<union> set bc \<subseteq> set ids"
  shows "length (filter (\<lambda>x. x \<in> set st \<union> set bc) ids) = length st + length bc"
proof -
  have "length (filter (\<lambda>x. x \<in> set st \<union> set bc) ids) = card (set (filter (\<lambda>x. x \<in> set st \<union> set bc) ids))"
    using assms(1) by (metis distinct_card distinct_filter)
  also have "set (filter (\<lambda>x. x \<in> set st \<union> set bc) ids) = set st \<union> set bc" using assms(5) by auto
  also have "card (set st \<union> set bc) = length st + length bc"
    using assms(2-4) by (simp add: card_Un_disjoint distinct_card)
  finally show ?thesis .
qed

lemma encodeTypes_ok:
  assumes "distinct ids" "distinct st" "distinct bc" "set st \<inter> set bc = {}" "set st \<union> set bc \<subseteq> set ids"
  defines "F \<equiv> filter (\<lambda>x. x \<in> set st \<union> set bc) ids"
  shows "\<exists>v t. EncodeSignerToIndicesAndSigType ids st bc = Inr (PrefixCheckSum ids v, t)
    \<and> memberBits ids (set st \<union> set bc) v \<and> length t = MinimalByteSliceLength (length F)
    \<and> (\<forall>j < 8 * length t. bitAt t j \<longleftrightarrow> j < length F \<and> F ! j \<in> set bc)"
proof -
  define s0 where "s0 = \<lparr>stakingSignersLookup = st, beaconSignersLookup = bc,
     tl_signerIndices = MakeBitVector (length ids),
     tl_sigTypes = MakeBitVector (length st + length bc), signerCounter = 0\<rparr>"
  have F: "length F = length st + length bc" "signersOf s0 ids = F"
    using length_filter_members [OF assms(1-5)] by (simp_all add: F_def signersOf_def s0_def)
  have "set (stakingSignersLookup s0) \<inter> set (beaconSignersLookup s0) = {}"
    "0 + length ids \<le> 8 * length (tl_signerIndices s0)"
    "signerCounter s0 + length (signersOf s0 ids) \<le> 8 * length (tl_sigTypes s0)"
    unfolding F(2) using assms(4) F(1) MinimalByteSliceLength_bounds(1) by (simp_all add: s0_def)
  then obtain s' where s': "encodeTypeLoop ids 0 s0 = Inr s'" "typeLoopPost ids 0 s0 s'"
    using encodeTypeLoop_spec [OF assms(1)] by blast
  have post: "length (tl_signerIndices s') = MinimalByteSliceLength (length ids)"
    "\<forall>j. bitAt (tl_signerIndices s') j \<longleftrightarrow> bitAt (MakeBitVector (length ids)) j \<or> at ids 0 j (set st \<union> set bc)"
    "length (tl_sigTypes s') = MinimalByteSliceLength (length st + length bc)"
    "\<forall>j. bitAt (tl_sigTypes s') j \<longleftrightarrow> bitAt (MakeBitVector (length st + length bc)) j \<or> at F 0 j (set bc)"
    using s'(2) unfolding typeLoopPost_def F(2) by (simp_all add: s0_def)
  have "set (stakingSignersLookup s') = set st - set ids" "set (beaconSignersLookup s') = set bc - set ids"
    using s'(2) by (simp_all add: typeLoopPost_def s0_def)
  moreover have "set st - set ids = {}" "set bc - set ids = {}" using assms(5) by auto
  ultimately have "stakingSignersLookup s' = []" "beaconSignersLookup s' = []" by simp_all
  then have "EncodeSignerToIndicesAndSigType ids st bc = Inr (PrefixCheckSum ids (tl_signerIndices s'), tl_sigTypes s')"
    using s'(1) assms(2,3) unfolding s0_def
    by (simp add: EncodeSignerToIndicesAndSigType_def distinct_remdups_id)
  moreover have "memberBits ids (set st \<union> set bc) (tl_signerIndices s')"
    using post(1,2) bitAt_MakeBitVector [of _ "length ids"] by (simp add: memberBits_def at_def)
  moreover have "length (tl_sigTypes s') = MinimalByteSliceLength (length F)"
    using post(3) F(1) by simp
  moreover have "\<forall>j < 8 * length (tl_sigTypes s'). bitAt (tl_sigTypes s') j \<longleftrightarrow> j < length F \<and> F ! j \<in> set bc"
    using post(3,4) bitAt_MakeBitVector [of _ "length st + length bc"] by (simp add: at_def)
  ultimately show ?thesis by blast
qed

lemma signer_types_roundtrip:
  assumes "distinct (il_NodeIDs il)" "distinct st" "distinct bc" "set st \<inter> set bc = {}"
    and "set st \<union> set bc \<subseteq> set (il_NodeIDs il)"
  shows "\<exists>p t signers. EncodeSignerToIndicesAndSigType (il_NodeIDs il) st bc = Inr (p, t)
    \<and> DecodeSignerIndicesToIdentities il p = Inr signers
    \<and> DecodeSigTypeToStakingAndBeaconSigners signers t
        = Inr (filter (\<lambda>x. NodeID x \<in> set st) il, filter (\<lambda>x. NodeID x \<in> set bc) il)"
proof -
  let ?ids = "il_NodeIDs il" and ?S = "set st \<union> set bc"
  define F where "F = filter (\<lambda>x. x \<in> ?S) ?ids"
  define signers where "signers = filter (\<lambda>x. NodeID x \<in> ?S) il"
  have Fs: "F = map NodeID signers"
    by (simp add: F_def signers_def il_NodeIDs_def filter_map comp_def)
  obtain v t where vt: "EncodeSignerToIndicesAndSigType ?ids st bc = Inr (PrefixCheckSum ?ids v, t)"
    "memberBits ?ids ?S v" "length t = MinimalByteSliceLength (length F)"
    "\<forall>j < 8 * length t. bitAt t j \<longleftrightarrow> j < length F \<and> F ! j \<in> set bc"
    using encodeTypes_ok [OF assms] unfolding F_def by blast
  have nth: "?ids ! i = NodeID (il ! i)" if "i < length il" for i using that by (simp add: il_NodeIDs_def)
  have "filter (\<lambda>i. ?ids ! i \<in> ?S) [0..<length il] = filter (\<lambda>i. NodeID (il ! i) \<in> ?S) [0..<length il]"
    using nth by (intro filter_cong) auto
  then have dec: "DecodeSignerIndicesToIdentities il (PrefixCheckSum ?ids v) = Inr signers"
    using decode_memberBits [OF vt(2)] filter_nth_upt [of il "\<lambda>x. NodeID x \<in> ?S"]
    by (simp add: DecodeSignerIndicesToIdentities_def signers_def il_NodeIDs_def)
  have le: "length F \<le> 8 * length t" using vt(3) MinimalByteSliceLength_bounds(1) by simp
  have "validPadding t (length signers) = Inr ()"
    using vt(3,4) Fs by (auto simp: validPadding_ok)
  moreover have "typeSplitLoop signers 0 t
      = Inr (filter (\<lambda>x. \<not> NodeID x \<in> set bc) signers, filter (\<lambda>x. NodeID x \<in> set bc) signers)"
    using vt(4) le Fs by (intro typeSplitLoop_spec) auto
  moreover have "filter (\<lambda>x. \<not> NodeID x \<in> set bc) signers = filter (\<lambda>x. NodeID x \<in> set st) il"
    "filter (\<lambda>x. NodeID x \<in> set bc) signers = filter (\<lambda>x. NodeID x \<in> set bc) il"
    unfolding signers_def filter_filter using assms(4) by (auto intro!: filter_cong)
  ultimately show ?thesis using vt(1) dec by (simp add: DecodeSigTypeToStakingAndBeaconSigners_def)
qed

end
