(* ===== verification/Verifiers.thy ===== *)
theory Verifiers
  imports Signers Committee Signer_Indices
begin

text \<open>
  \<open>consensus/hotstuff/verification\<close> and the packer of \<open>consensus/hotstuff/signature\<close>: checking the
  signatures of votes, QCs and TCs.

  The BLS operations of the crypto library are the fields of the record \<open>bls\<close>. The RLP codec of
  the packer is a pair of functions. A method call on a nil public key panics.
\<close>

section \<open>Interfaces\<close>

record bls =
  bls_Verify :: "PublicKey \<Rightarrow> bytes \<Rightarrow> bytes \<Rightarrow> hasher \<Rightarrow> bool result"
  AggregateBLSPublicKeys :: "PublicKey option list \<Rightarrow> PublicKey result"
  VerifyBLSSignatureManyMessages ::
    "PublicKey option list \<Rightarrow> bytes \<Rightarrow> bytes list \<Rightarrow> hasher list \<Rightarrow> bool result"
  sigLen :: nat

text \<open>\<open>hotstuff.Verifier\<close>\<close>

record verifier =
  VerifyVote :: "Identity \<Rightarrow> bytes \<Rightarrow> uint64 \<Rightarrow> Identifier \<Rightarrow> unit result"
  VerifyQC :: "IdentityList \<Rightarrow> bytes \<Rightarrow> uint64 \<Rightarrow> Identifier \<Rightarrow> unit result"
  VerifyTC :: "IdentityList \<Rightarrow> bytes \<Rightarrow> uint64 \<Rightarrow> uint64 list \<Rightarrow> unit result"

definition keyVerify :: "bls \<Rightarrow> PublicKey option \<Rightarrow> bytes \<Rightarrow> bytes \<Rightarrow> hasher \<Rightarrow> bool result" where
  "keyVerify c key sig msg h = (case key of None \<Rightarrow> Inl Panic | Some pk \<Rightarrow> bls_Verify c pk sig msg h)"

definition IsBLSAggregateEmptyListError :: "error \<Rightarrow> bool" where
  "IsBLSAggregateEmptyListError e = errors_As (\<lambda>e. e = BLSAggregateEmptyListError) e"

definition IsIdentityNotFound :: "error \<Rightarrow> bool" where
  "IsIdentityNotFound e = errors_As (\<lambda>e. case e of IdentityNotFoundError _ \<Rightarrow> True | _ \<Rightarrow> False) e"

section \<open>Shared checks\<close>

definition verifyAggregatedSignatureOneMessage ::
  "bls \<Rightarrow> PublicKey option list \<Rightarrow> bytes \<Rightarrow> hasher \<Rightarrow> bytes \<Rightarrow> unit result" where
  "verifyAggregatedSignatureOneMessage c pubKeys aggregatedSig h msg =
     (case AggregateBLSPublicKeys c pubKeys of
        Inl e \<Rightarrow>
          if IsBLSAggregateEmptyListError e then Inl (InsufficientSignaturesError (wrapf e))
          else Inl (wrapf e)
      | Inr aggregatedKey \<Rightarrow>
          (case bls_Verify c aggregatedKey aggregatedSig msg h of
             Inl e \<Rightarrow> Inl (wrapf e)
           | Inr valid \<Rightarrow> if \<not> valid then Inl (Wrapf ErrInvalidSignature) else Inr ()))"

definition verifyTCSignatureManyMessages ::
  "bls \<Rightarrow> PublicKey option list \<Rightarrow> bytes \<Rightarrow> uint64 \<Rightarrow> uint64 list \<Rightarrow> hasher \<Rightarrow> unit result" where
  "verifyTCSignatureManyMessages c pks sigData view highQCViews h =
     (if length pks \<noteq> length highQCViews then Inl (InvalidFormatError Errorf)
      else case VerifyBLSSignatureManyMessages c pks sigData
                  (map (MakeTimeoutMessage view) highQCViews) (map (\<lambda>_. h) pks) of
        Inl e \<Rightarrow>
          if IsBLSAggregateEmptyListError e then Inl (InsufficientSignaturesError (wrapf e))
          else Inl (wrapf e)
      | Inr valid \<Rightarrow> if \<not> valid then Inl (Wrapf ErrInvalidSignature) else Inr ())"

section \<open>Staking verifier\<close>

definition StakingVerifier_VerifyVote ::
  "bls \<Rightarrow> Identity \<Rightarrow> bytes \<Rightarrow> uint64 \<Rightarrow> Identifier \<Rightarrow> unit result" where
  "StakingVerifier_VerifyVote c signer sigData view blockID =
     (case keyVerify c (StakingPubKey signer) sigData (MakeVoteMessage view blockID) CollectorVoteTag of
        Inl e \<Rightarrow> Inl (wrapf e)
      | Inr stakingValid \<Rightarrow> if \<not> stakingValid then Inl (Wrapf ErrInvalidSignature) else Inr ())"

definition StakingVerifier_VerifyQC ::
  "bls \<Rightarrow> IdentityList \<Rightarrow> bytes \<Rightarrow> uint64 \<Rightarrow> Identifier \<Rightarrow> unit result" where
  "StakingVerifier_VerifyQC c signers sigData view blockID =
     (case verifyAggregatedSignatureOneMessage c (il_PublicStakingKeys signers) sigData CollectorVoteTag
             (MakeVoteMessage view blockID) of
        Inl e \<Rightarrow> Inl (wrapf e)
      | Inr _ \<Rightarrow> Inr ())"

definition NewStakingVerifier :: "bls \<Rightarrow> verifier" where
  "NewStakingVerifier c =
     \<lparr>VerifyVote = StakingVerifier_VerifyVote c,
      VerifyQC = StakingVerifier_VerifyQC c,
      VerifyTC = (\<lambda>signers sigData view highQCViews.
        verifyTCSignatureManyMessages c (il_PublicStakingKeys signers) sigData view highQCViews
          CollectorTimeoutTag)\<rparr>"

section \<open>Packer\<close>

record SignatureData =
  SD_SigType :: bytes
  SD_AggregatedStakingSig :: bytes
  SD_AggregatedRandomBeaconSig :: bytes
  SD_ReconstructedRandomBeaconSig :: bytes

record BlockSignatureData =
  StakingSigners :: "Identifier list"
  RandomBeaconSigners :: "Identifier list"
  AggregatedStakingSig :: bytes
  AggregatedRandomBeaconSig :: bytes
  ReconstructedRandomBeaconSig :: bytes

record codec =
  codec_Encode :: "SignatureData \<Rightarrow> bytes result"
  codec_Decode :: "bytes \<Rightarrow> SignatureData result"

definition SigDataPacker_Decode :: "codec \<Rightarrow> bytes \<Rightarrow> SignatureData result" where
  "SigDataPacker_Decode cd data =
     (case codec_Decode cd data of
        Inl e \<Rightarrow> Inl (InvalidFormatError (wrapf e))
      | Inr sigData \<Rightarrow> Inr sigData)"

definition UnpackRandomBeaconSig :: "codec \<Rightarrow> bytes \<Rightarrow> bytes result" where
  "UnpackRandomBeaconSig cd sigData =
     (case SigDataPacker_Decode cd sigData of
        Inl _ \<Rightarrow> Inl Panic
      | Inr sig \<Rightarrow> Inr (SD_ReconstructedRandomBeaconSig sig))"

definition Pack :: "codec \<Rightarrow> committee \<Rightarrow> uint64 \<Rightarrow> BlockSignatureData \<Rightarrow> (bytes \<times> bytes) result" where
  "Pack cd committees view sig =
     (case IdentitiesByEpoch committees view of
        Inl e \<Rightarrow> Inl (wrapf e)
      | Inr fullMembers \<Rightarrow>
          (case EncodeSignerToIndicesAndSigType (il_NodeIDs fullMembers) (StakingSigners sig)
                  (RandomBeaconSigners sig) of
             Inl e \<Rightarrow> Inl (wrapf e)
           | Inr (signerIndices, sigType) \<Rightarrow>
               (case codec_Encode cd
                       \<lparr>SD_SigType = sigType, SD_AggregatedStakingSig = AggregatedStakingSig sig,
                        SD_AggregatedRandomBeaconSig = AggregatedRandomBeaconSig sig,
                        SD_ReconstructedRandomBeaconSig = ReconstructedRandomBeaconSig sig\<rparr> of
                  Inl e \<Rightarrow> Inl (wrapf e)
                | Inr encoded \<Rightarrow> Inr (signerIndices, encoded))))"

definition Unpack :: "codec \<Rightarrow> IdentityList \<Rightarrow> bytes \<Rightarrow> BlockSignatureData result" where
  "Unpack cd signerIdentities sigData =
     (case SigDataPacker_Decode cd sigData of
        Inl e \<Rightarrow> Inl (wrapf e)
      | Inr data \<Rightarrow>
          (case DecodeSigTypeToStakingAndBeaconSigners signerIdentities (SD_SigType data) of
             Inl e \<Rightarrow>
               if errors_As (\<lambda>e. e = ErrIllegallyPaddedBitVector) e
                  \<or> errors_As (\<lambda>e. e = ErrIncompatibleBitVectorLength) e
               then Inl (InvalidFormatError (wrapf e)) else Inl (wrapf e)
           | Inr (stakingSigners, randomBeaconSigners) \<Rightarrow>
               Inr \<lparr>StakingSigners = il_NodeIDs stakingSigners,
                    RandomBeaconSigners = il_NodeIDs randomBeaconSigners,
                    AggregatedStakingSig = SD_AggregatedStakingSig data,
                    AggregatedRandomBeaconSig = SD_AggregatedRandomBeaconSig data,
                    ReconstructedRandomBeaconSig = SD_ReconstructedRandomBeaconSig data\<rparr>))"

section \<open>Combined verifiers\<close>

definition verifyBeaconShare ::
  "bls \<Rightarrow> dkg \<Rightarrow> Identity \<Rightarrow> bytes \<Rightarrow> bytes \<Rightarrow> unit result" where
  "verifyBeaconShare c d signer share msg =
     (case dkg_KeyShare d (NodeID signer) of
        Inl e \<Rightarrow>
          if IsIdentityNotFound e then Inl (InvalidSignerError (wrapf e)) else Inl (wrapf e)
      | Inr beaconPubKey \<Rightarrow>
          (case keyVerify c beaconPubKey share msg RandomBeaconTag of
             Inl e \<Rightarrow> Inl (wrapf e)
           | Inr beaconValid \<Rightarrow> if \<not> beaconValid then Inl (Wrapf ErrInvalidSignature) else Inr ()))"

definition CombinedVerifier_VerifyVote ::
  "bls \<Rightarrow> committee \<Rightarrow> Identity \<Rightarrow> bytes \<Rightarrow> uint64 \<Rightarrow> Identifier \<Rightarrow> unit result" where
  "CombinedVerifier_VerifyVote c com signer sigData view blockID =
     (let msg = MakeVoteMessage view blockID in
      case DecodeDoubleSig (sigLen c) sigData of
        Inl e \<Rightarrow>
          if errors_As (\<lambda>e. e = ErrInvalidSignatureFormat) e then Inl (InvalidFormatError (wrapf e))
          else Inl (wrapf e)
      | Inr (stakingSig, beaconShare) \<Rightarrow>
      (case DKG com view of
        Inl e \<Rightarrow> Inl (wrapf e)
      | Inr d \<Rightarrow>
      (case keyVerify c (StakingPubKey signer) stakingSig msg ConsensusVoteTag of
        Inl e \<Rightarrow> Inl (wrapf e)
      | Inr stakingValid \<Rightarrow>
          if \<not> stakingValid then Inl (Wrapf ErrInvalidSignature)
          else (case beaconShare of
                  None \<Rightarrow> Inr ()
                | Some share \<Rightarrow> verifyBeaconShare c d signer share msg))))"

definition CombinedVerifier_VerifyQC ::
  "bls \<Rightarrow> codec \<Rightarrow> committee \<Rightarrow> IdentityList \<Rightarrow> bytes \<Rightarrow> uint64 \<Rightarrow> Identifier \<Rightarrow> unit result" where
  "CombinedVerifier_VerifyQC c cd com signers sigData view blockID =
     (case DKG com view of
        Inl e \<Rightarrow> Inl (wrapf e)
      | Inr d \<Rightarrow>
      (case Unpack cd signers sigData of
        Inl e \<Rightarrow> Inl (wrapf e)
      | Inr blockSigData \<Rightarrow>
          let msg = MakeVoteMessage view blockID in
          (case keyVerify c (dkg_GroupKey d) (ReconstructedRandomBeaconSig blockSigData) msg RandomBeaconTag of
             Inl e \<Rightarrow> Inl (wrapf e)
           | Inr beaconValid \<Rightarrow>
               if \<not> beaconValid then Inl (Wrapf ErrInvalidSignature)
               else (case verifyAggregatedSignatureOneMessage c (il_PublicStakingKeys signers)
                             (AggregatedStakingSig blockSigData) ConsensusVoteTag msg of
                       Inl e \<Rightarrow> Inl (wrapf e)
                     | Inr _ \<Rightarrow> Inr ()))))"

definition combinedVerifyTC :: "bls \<Rightarrow> IdentityList \<Rightarrow> bytes \<Rightarrow> uint64 \<Rightarrow> uint64 list \<Rightarrow> unit result" where
  "combinedVerifyTC c signers sigData view highQCViews =
     verifyTCSignatureManyMessages c (il_PublicStakingKeys signers) sigData view highQCViews
       ConsensusTimeoutTag"

definition NewCombinedVerifier :: "bls \<Rightarrow> codec \<Rightarrow> committee \<Rightarrow> verifier" where
  "NewCombinedVerifier c cd com =
     \<lparr>VerifyVote = CombinedVerifier_VerifyVote c com,
      VerifyQC = CombinedVerifier_VerifyQC c cd com,
      VerifyTC = combinedVerifyTC c\<rparr>"

definition CombinedVerifierV3_VerifyVote ::
  "bls \<Rightarrow> committee \<Rightarrow> Identity \<Rightarrow> bytes \<Rightarrow> uint64 \<Rightarrow> Identifier \<Rightarrow> unit result" where
  "CombinedVerifierV3_VerifyVote c com signer sigData view blockID =
     (let msg = MakeVoteMessage view blockID in
      case DecodeSingleSig sigData of
        Inl e \<Rightarrow>
          if errors_As (\<lambda>e. e = ErrInvalidSignatureFormat) e then Inl (InvalidFormatError (wrapf e))
          else Inl (wrapf e)
      | Inr (sigType, sig) \<Rightarrow>
          if sigType = SigTypeStaking
          then (case keyVerify c (StakingPubKey signer) sig msg ConsensusVoteTag of
                  Inl e \<Rightarrow> Inl (wrapf e)
                | Inr stakingValid \<Rightarrow> if \<not> stakingValid then Inl (Wrapf ErrInvalidSignature) else Inr ())
          else if sigType = SigTypeRandomBeacon
          then (case DKG com view of
                  Inl e \<Rightarrow> Inl (wrapf e)
                | Inr d \<Rightarrow> verifyBeaconShare c d signer sig msg)
          else Inl (InvalidFormatError Errorf))"

text \<open>The two loops of \<open>VerifyQC\<close> that collect the public keys of the beacon and staking signers.\<close>

fun beaconKeysLoop ::
  "(Identifier, Identity) gomap \<Rightarrow> dkg \<Rightarrow> Identifier list \<Rightarrow> PublicKey option list result" where
  "beaconKeysLoop signerIdentities d [] = Inr []"
| "beaconKeysLoop signerIdentities d (signerID # rest) =
     (if map_of signerIdentities signerID = None then Inl Errorf
      else case dkg_KeyShare d signerID of
        Inl e \<Rightarrow>
          if IsIdentityNotFound e then Inl (InvalidSignerError (wrapf e)) else Inl (wrapf e)
      | Inr keyShare \<Rightarrow>
          (case beaconKeysLoop signerIdentities d rest of
             Inl e \<Rightarrow> Inl e
           | Inr keys \<Rightarrow> Inr (keyShare # keys)))"

fun stakingKeysLoop :: "(Identifier, Identity) gomap \<Rightarrow> Identifier list \<Rightarrow> PublicKey option list result" where
  "stakingKeysLoop signerIdentities [] = Inr []"
| "stakingKeysLoop signerIdentities (signerID # rest) =
     (case map_of signerIdentities signerID of
        None \<Rightarrow> Inl Errorf
      | Some identity \<Rightarrow>
          (case stakingKeysLoop signerIdentities rest of
             Inl e \<Rightarrow> Inl e
           | Inr keys \<Rightarrow> Inr (StakingPubKey identity # keys)))"

text \<open>\<open>module/signature/threshold.go\<close>; Go's division truncates, so an empty committee has threshold 0.\<close>

definition RandomBeaconThreshold :: "nat \<Rightarrow> nat" where
  "RandomBeaconThreshold n = (if n = 2 then 1 else (n - 1) div 2)"

definition verifyStakingPart ::
  "bls \<Rightarrow> (Identifier, Identity) gomap \<Rightarrow> BlockSignatureData \<Rightarrow> bytes \<Rightarrow> unit result" where
  "verifyStakingPart c signerIdentities blockSigData msg =
     (if length (StakingSigners blockSigData) = 0
      then (if length (AggregatedStakingSig blockSigData) > 0 then Inl (InvalidFormatError Errorf) else Inr ())
      else case stakingKeysLoop signerIdentities (StakingSigners blockSigData) of
        Inl e \<Rightarrow> Inl e
      | Inr stakingPubKeys \<Rightarrow>
          (case verifyAggregatedSignatureOneMessage c stakingPubKeys (AggregatedStakingSig blockSigData)
                  ConsensusVoteTag msg of
             Inl e \<Rightarrow> Inl (wrapf e)
           | Inr _ \<Rightarrow> Inr ()))"

definition CombinedVerifierV3_VerifyQC ::
  "bls \<Rightarrow> codec \<Rightarrow> committee \<Rightarrow> IdentityList \<Rightarrow> bytes \<Rightarrow> uint64 \<Rightarrow> Identifier \<Rightarrow> unit result" where
  "CombinedVerifierV3_VerifyQC c cd com signers sigData view blockID =
     (let signerIdentities = il_Lookup signers in
      case DKG com view of
        Inl e \<Rightarrow> Inl (wrapf e)
      | Inr d \<Rightarrow>
      (case Unpack cd signers sigData of
        Inl e \<Rightarrow> Inl (wrapf e)
      | Inr blockSigData \<Rightarrow>
          let msg = MakeVoteMessage view blockID in
          (case keyVerify c (dkg_GroupKey d) (ReconstructedRandomBeaconSig blockSigData) msg RandomBeaconTag of
             Inl e \<Rightarrow> Inl (wrapf e)
           | Inr beaconValid \<Rightarrow>
               if \<not> beaconValid then Inl (Wrapf ErrInvalidSignature)
               else if length (RandomBeaconSigners blockSigData) \<le> RandomBeaconThreshold (dkg_Size d)
               then Inl (InvalidFormatError Errorf)
               else (case beaconKeysLoop signerIdentities d (RandomBeaconSigners blockSigData) of
                       Inl e \<Rightarrow> Inl e
                     | Inr beaconPubKeys \<Rightarrow>
                         (case verifyAggregatedSignatureOneMessage c beaconPubKeys
                                 (AggregatedRandomBeaconSig blockSigData) RandomBeaconTag msg of
                            Inl e \<Rightarrow> Inl (wrapf e)
                          | Inr _ \<Rightarrow> verifyStakingPart c signerIdentities blockSigData msg)))))"

definition NewCombinedVerifierV3 :: "bls \<Rightarrow> codec \<Rightarrow> committee \<Rightarrow> verifier" where
  "NewCombinedVerifierV3 c cd com =
     \<lparr>VerifyVote = CombinedVerifierV3_VerifyVote c com,
      VerifyQC = CombinedVerifierV3_VerifyQC c cd com,
      VerifyTC = combinedVerifyTC c\<rparr>"

text \<open>\<open>BlockSignerDecoder.DecodeSignerIDs\<close>; an empty \<open>ParentVoterIndices\<close> is nil.\<close>

definition DecodeSignerIDs :: "committee \<Rightarrow> Header \<Rightarrow> Identifier list result" where
  "DecodeSignerIDs com header =
     (if H_ParentVoterIndices header = [] \<and> H_View header = 0 then Inr []
      else case IdentitiesByEpoch com (H_ParentView header) of
        Inl e \<Rightarrow> Inl (wrapf e)
      | Inr members \<Rightarrow>
          (case DecodeSignerIndicesToIdentifiers (il_NodeIDs members) (H_ParentVoterIndices header) of
             Inl e \<Rightarrow> Inl (wrapf e)
           | Inr signerIDs \<Rightarrow> Inr signerIDs))"

section \<open>What a valid signature proves\<close>

text \<open>
  The documented behaviour of the BLS library, for keys with checked proofs of possession:
  \<open>S pk msg h\<close> says that the owner of \<open>pk\<close> has signed \<open>msg\<close> under the tag \<open>h\<close>. A signature that
  verifies against a key, an aggregate of keys, or a list of keys and messages proves that every
  owner signed; and verifying against no key fails.
\<close>

definition blsSound :: "(PublicKey \<Rightarrow> bytes \<Rightarrow> hasher \<Rightarrow> bool) \<Rightarrow> bls \<Rightarrow> bool" where
  "blsSound S c \<longleftrightarrow>
     (\<forall>pk sig msg h. bls_Verify c pk sig msg h = Inr True \<longrightarrow> S pk msg h) \<and>
     (\<forall>keys ak sig msg h. AggregateBLSPublicKeys c keys = Inr ak \<and> bls_Verify c ak sig msg h = Inr True
        \<longrightarrow> keys \<noteq> [] \<and> (\<forall>k\<in>set keys. \<exists>pk. k = Some pk \<and> S pk msg h)) \<and>
     (\<forall>keys sig msgs hs. VerifyBLSSignatureManyMessages c keys sig msgs hs = Inr True
        \<and> length msgs = length keys \<and> length hs = length keys
        \<longrightarrow> keys \<noteq> [] \<and> (\<forall>i < length keys. \<exists>pk. keys ! i = Some pk \<and> S pk (msgs ! i) (hs ! i)))"

definition ownerSigned :: "(PublicKey \<Rightarrow> bytes \<Rightarrow> hasher \<Rightarrow> bool) \<Rightarrow> PublicKey option \<Rightarrow> bytes \<Rightarrow> hasher \<Rightarrow> bool" where
  "ownerSigned S k msg h \<longleftrightarrow> (\<exists>pk. k = Some pk \<and> S pk msg h)"

text \<open>
  What a verifier promises: \<open>voted s v b\<close> and \<open>timedOut s v q\<close> say that the node \<open>s\<close> signed a vote
  for block \<open>b\<close> of view \<open>v\<close>, or a timeout of view \<open>v\<close> with a newest QC of view \<open>q\<close>.
\<close>

definition soundVerifier ::
  "verifier \<Rightarrow> (Identity \<Rightarrow> uint64 \<Rightarrow> Identifier \<Rightarrow> bool) \<Rightarrow> (Identity \<Rightarrow> uint64 \<Rightarrow> uint64 \<Rightarrow> bool) \<Rightarrow> bool" where
  "soundVerifier v voted timedOut \<longleftrightarrow>
     (\<forall>s sig view b. VerifyVote v s sig view b = Inr () \<longrightarrow> voted s view b) \<and>
     (\<forall>ss sig view b. distinct (map NodeID ss) \<and> VerifyQC v ss sig view b = Inr ()
        \<longrightarrow> ss \<noteq> [] \<and> (\<forall>s\<in>set ss. voted s view b)) \<and>
     (\<forall>ss sig view qs. VerifyTC v ss sig view qs = Inr ()
        \<longrightarrow> ss \<noteq> [] \<and> length qs = length ss \<and> (\<forall>i < length ss. timedOut (ss ! i) view (qs ! i)))"

lemma keyVerify_sound:
  "\<lbrakk>blsSound S c; keyVerify c k sig msg h = Inr True\<rbrakk> \<Longrightarrow> ownerSigned S k msg h"
  by (auto simp: keyVerify_def blsSound_def ownerSigned_def split: option.splits)

lemma verifyAggregated_sound:
  assumes "blsSound S c" "verifyAggregatedSignatureOneMessage c keys sig h msg = Inr ()"
  shows "keys \<noteq> [] \<and> (\<forall>k\<in>set keys. ownerSigned S k msg h)"
proof -
  obtain ak where "AggregateBLSPublicKeys c keys = Inr ak" "bls_Verify c ak sig msg h = Inr True"
    using assms(2)
    by (auto simp: verifyAggregatedSignatureOneMessage_def split: sum.splits if_splits)
  then show ?thesis using assms(1) unfolding blsSound_def ownerSigned_def by blast
qed

lemma verifyTC_sound:
  assumes "blsSound S c" "verifyTCSignatureManyMessages c keys sig view qs h = Inr ()"
  shows "keys \<noteq> [] \<and> length qs = length keys
    \<and> (\<forall>i < length keys. ownerSigned S (keys ! i) (MakeTimeoutMessage view (qs ! i)) h)"
proof -
  have v: "VerifyBLSSignatureManyMessages c keys sig (map (MakeTimeoutMessage view) qs) (map (\<lambda>_. h) keys) = Inr True"
    and l: "length qs = length keys"
    using assms(2) by (auto simp: verifyTCSignatureManyMessages_def split: sum.splits if_splits)
  have "keys \<noteq> [] \<and> (\<forall>i < length keys. \<exists>pk. keys ! i = Some pk
      \<and> S pk (map (MakeTimeoutMessage view) qs ! i) (map (\<lambda>_. h) keys ! i))"
    using assms(1) v l unfolding blsSound_def by (metis length_map)
  then show ?thesis using l by (auto simp: ownerSigned_def)
qed

definition stakingVoted where
  "stakingVoted S h s view b \<longleftrightarrow> ownerSigned S (StakingPubKey s) (MakeVoteMessage view b) h"

definition stakingTimedOut where
  "stakingTimedOut S h s view q \<longleftrightarrow> ownerSigned S (StakingPubKey s) (MakeTimeoutMessage view q) h"

text \<open>With random beacon keys, a vote is signed with the staking key or with the beacon key share.\<close>

definition beaconVoted where
  "beaconVoted S com s view b \<longleftrightarrow>
     stakingVoted S ConsensusVoteTag s view b \<or>
     (\<exists>d k. DKG com view = Inr d \<and> dkg_KeyShare d (NodeID s) = Inr k
        \<and> ownerSigned S k (MakeVoteMessage view b) RandomBeaconTag)"

lemma il_PublicStakingKeys_map: "il_PublicStakingKeys ss = map StakingPubKey ss"
  by (simp add: il_PublicStakingKeys_def)

lemma verifyTC_timedOut:
  assumes "blsSound S c" "verifyTCSignatureManyMessages c (il_PublicStakingKeys ss) sig view qs h = Inr ()"
  shows "ss \<noteq> [] \<and> length qs = length ss \<and> (\<forall>i < length ss. stakingTimedOut S h (ss ! i) view (qs ! i))"
  using verifyTC_sound [OF assms] by (auto simp: il_PublicStakingKeys_map stakingTimedOut_def)

lemma soundVerifierI:
  assumes "\<And>s sig view b. VerifyVote v s sig view b = Inr () \<Longrightarrow> voted s view b"
    and "\<And>ss sig view b. \<lbrakk>distinct (map NodeID ss); VerifyQC v ss sig view b = Inr ()\<rbrakk>
      \<Longrightarrow> ss \<noteq> [] \<and> (\<forall>s\<in>set ss. voted s view b)"
    and "\<And>ss sig view qs. VerifyTC v ss sig view qs = Inr ()
      \<Longrightarrow> ss \<noteq> [] \<and> length qs = length ss \<and> (\<forall>i < length ss. timedOut (ss ! i) view (qs ! i))"
  shows "soundVerifier v voted timedOut"
  using assms unfolding soundVerifier_def by blast

lemma StakingVerifier_sound:
  assumes "blsSound S c"
  shows "soundVerifier (NewStakingVerifier c) (stakingVoted S CollectorVoteTag) (stakingTimedOut S CollectorTimeoutTag)"
proof (rule soundVerifierI)
  fix s sig view b assume "VerifyVote (NewStakingVerifier c) s sig view b = Inr ()"
  then have "keyVerify c (StakingPubKey s) sig (MakeVoteMessage view b) CollectorVoteTag = Inr True"
    by (auto simp: NewStakingVerifier_def StakingVerifier_VerifyVote_def split: sum.splits if_splits)
  from keyVerify_sound [OF assms this] show "stakingVoted S CollectorVoteTag s view b"
    by (simp add: stakingVoted_def)
next
  fix ss sig view b assume "VerifyQC (NewStakingVerifier c) ss sig view b = Inr ()"
  then have "verifyAggregatedSignatureOneMessage c (il_PublicStakingKeys ss) sig CollectorVoteTag
      (MakeVoteMessage view b) = Inr ()"
    by (auto simp: NewStakingVerifier_def StakingVerifier_VerifyQC_def split: sum.splits)
  from verifyAggregated_sound [OF assms this]
  show "ss \<noteq> [] \<and> (\<forall>s\<in>set ss. stakingVoted S CollectorVoteTag s view b)"
    by (auto simp: il_PublicStakingKeys_map stakingVoted_def)
next
  fix ss sig view qs assume "VerifyTC (NewStakingVerifier c) ss sig view qs = Inr ()"
  then show "ss \<noteq> [] \<and> length qs = length ss
      \<and> (\<forall>i < length ss. stakingTimedOut S CollectorTimeoutTag (ss ! i) view (qs ! i))"
    using verifyTC_timedOut [OF assms] by (simp add: NewStakingVerifier_def)
qed

lemma verifyBeaconShare_sound:
  assumes "blsSound S c" "verifyBeaconShare c d s share msg = Inr ()"
  shows "\<exists>k. dkg_KeyShare d (NodeID s) = Inr k \<and> ownerSigned S k msg RandomBeaconTag"
proof -
  obtain k where "dkg_KeyShare d (NodeID s) = Inr k" "keyVerify c k share msg RandomBeaconTag = Inr True"
    using assms(2) by (auto simp: verifyBeaconShare_def split: sum.splits if_splits)
  with keyVerify_sound [OF assms(1)] show ?thesis by blast
qed

lemma CombinedVerifier_sound:
  assumes "blsSound S c"
  shows "soundVerifier (NewCombinedVerifier c cd com) (stakingVoted S ConsensusVoteTag)
    (stakingTimedOut S ConsensusTimeoutTag)"
proof (rule soundVerifierI)
  fix s sig view b assume "VerifyVote (NewCombinedVerifier c cd com) s sig view b = Inr ()"
  then obtain stakingSig where
    "keyVerify c (StakingPubKey s) stakingSig (MakeVoteMessage view b) ConsensusVoteTag = Inr True"
    by (auto simp: NewCombinedVerifier_def CombinedVerifier_VerifyVote_def Let_def
        split: sum.splits if_splits prod.splits)
  from keyVerify_sound [OF assms this] show "stakingVoted S ConsensusVoteTag s view b"
    by (simp add: stakingVoted_def)
next
  fix ss sig view b assume "VerifyQC (NewCombinedVerifier c cd com) ss sig view b = Inr ()"
  then obtain sg where "verifyAggregatedSignatureOneMessage c (il_PublicStakingKeys ss) sg ConsensusVoteTag
      (MakeVoteMessage view b) = Inr ()"
    by (auto simp: NewCombinedVerifier_def CombinedVerifier_VerifyQC_def Let_def split: sum.splits if_splits)
  from verifyAggregated_sound [OF assms this]
  show "ss \<noteq> [] \<and> (\<forall>s\<in>set ss. stakingVoted S ConsensusVoteTag s view b)"
    by (auto simp: il_PublicStakingKeys_map stakingVoted_def)
next
  fix ss sig view qs assume "VerifyTC (NewCombinedVerifier c cd com) ss sig view qs = Inr ()"
  then show "ss \<noteq> [] \<and> length qs = length ss
      \<and> (\<forall>i < length ss. stakingTimedOut S ConsensusTimeoutTag (ss ! i) view (qs ! i))"
    using verifyTC_timedOut [OF assms] by (simp add: NewCombinedVerifier_def combinedVerifyTC_def)
qed

lemma typeSplitLoop_sets:
  "typeSplitLoop ss i t = Inr (st, bc) \<Longrightarrow> set st \<union> set bc = set ss"
proof (induction ss arbitrary: i st bc)
  case (Cons x xs)
  then obtain v st' bc' where "typeSplitLoop xs (Suc i) t = Inr (st', bc')"
    "(st, bc) = (if v = (0 :: int) then (x # st', bc') else (st', x # bc'))"
    by (auto split: sum.splits prod.splits if_splits)
  with Cons.IH show ?case by (auto split: if_splits)
qed simp

lemma Unpack_signers:
  assumes "Unpack cd ss sig = Inr bd"
  shows "set (StakingSigners bd) \<union> set (RandomBeaconSigners bd) = NodeID ` set ss"
proof -
  obtain st bc t where "typeSplitLoop ss 0 t = Inr (st, bc)" "StakingSigners bd = il_NodeIDs st"
    "RandomBeaconSigners bd = il_NodeIDs bc"
    using assms
    by (auto simp: Unpack_def DecodeSigTypeToStakingAndBeaconSigners_def
        split: sum.splits prod.splits if_splits)
  then show ?thesis using typeSplitLoop_sets [of ss 0 t st bc]
    by (simp add: il_NodeIDs_def image_Un [symmetric] del: typeSplitLoop.simps)
qed

lemma beaconKeysLoop_keys:
  "\<lbrakk>beaconKeysLoop sids d ids = Inr keys; i \<in> set ids\<rbrakk> \<Longrightarrow> \<exists>k\<in>set keys. dkg_KeyShare d i = Inr k"
proof (induction ids arbitrary: keys)
  case (Cons x xs)
  then show ?case by (auto split: sum.splits if_splits)
qed simp

lemma stakingKeysLoop_keys:
  "\<lbrakk>stakingKeysLoop sids ids = Inr keys; i \<in> set ids\<rbrakk>
   \<Longrightarrow> \<exists>x. map_of sids i = Some x \<and> StakingPubKey x \<in> set keys"
proof (induction ids arbitrary: keys)
  case (Cons x xs)
  then show ?case by (auto split: sum.splits option.splits)
qed simp

lemma il_Lookup_member:
  "\<lbrakk>distinct (map NodeID ss); s \<in> set ss\<rbrakk> \<Longrightarrow> map_of (il_Lookup ss) (NodeID s) = Some s"
  by (simp add: il_Lookup_distinct il_ByNodeID_distinct)

lemma verifyStakingPart_sound:
  assumes "blsSound S c" "verifyStakingPart c (il_Lookup ss) bd msg = Inr ()" "distinct (map NodeID ss)"
    and "s \<in> set ss" "NodeID s \<in> set (StakingSigners bd)"
  shows "ownerSigned S (StakingPubKey s) msg ConsensusVoteTag"
proof -
  obtain keys where k: "stakingKeysLoop (il_Lookup ss) (StakingSigners bd) = Inr keys"
    "verifyAggregatedSignatureOneMessage c keys (AggregatedStakingSig bd) ConsensusVoteTag msg = Inr ()"
    using assms(2,5) by (auto simp: verifyStakingPart_def split: sum.splits if_splits)
  have "StakingPubKey s \<in> set keys"
    using stakingKeysLoop_keys [OF k(1) assms(5)] il_Lookup_member [OF assms(3,4)] by auto
  then show ?thesis using verifyAggregated_sound [OF assms(1) k(2)] by blast
qed

lemma CombinedVerifierV3_sound:
  assumes "blsSound S c"
  shows "soundVerifier (NewCombinedVerifierV3 c cd com) (beaconVoted S com) (stakingTimedOut S ConsensusTimeoutTag)"
proof (rule soundVerifierI)
  fix s sig view b assume "VerifyVote (NewCombinedVerifierV3 c cd com) s sig view b = Inr ()"
  then consider sg where "keyVerify c (StakingPubKey s) sg (MakeVoteMessage view b) ConsensusVoteTag = Inr True"
    | d sg where "DKG com view = Inr d" "verifyBeaconShare c d s sg (MakeVoteMessage view b) = Inr ()"
    by (auto simp: NewCombinedVerifierV3_def CombinedVerifierV3_VerifyVote_def Let_def
        split: sum.splits if_splits prod.splits)
  then show "beaconVoted S com s view b"
  proof cases
    case 1
    from keyVerify_sound [OF assms 1] show ?thesis by (simp add: beaconVoted_def stakingVoted_def)
  next
    case 2
    from verifyBeaconShare_sound [OF assms 2(2)] 2(1) show ?thesis unfolding beaconVoted_def by blast
  qed
next
  fix ss sig view b
  assume dis: "distinct (map NodeID ss)" and ok: "VerifyQC (NewCombinedVerifierV3 c cd com) ss sig view b = Inr ()"
  let ?msg = "MakeVoteMessage view b"
  obtain d bd keys where q: "DKG com view = Inr d" "Unpack cd ss sig = Inr bd"
    "\<not> length (RandomBeaconSigners bd) \<le> RandomBeaconThreshold (dkg_Size d)"
    "beaconKeysLoop (il_Lookup ss) d (RandomBeaconSigners bd) = Inr keys"
    "verifyAggregatedSignatureOneMessage c keys (AggregatedRandomBeaconSig bd) RandomBeaconTag ?msg = Inr ()"
    "verifyStakingPart c (il_Lookup ss) bd ?msg = Inr ()"
    using ok
    by (auto simp: NewCombinedVerifierV3_def CombinedVerifierV3_VerifyQC_def Let_def split: sum.splits if_splits)
  have "beaconVoted S com s view b" if s: "s \<in> set ss" for s
  proof (cases "NodeID s \<in> set (StakingSigners bd)")
    case True
    from verifyStakingPart_sound [OF assms q(6) dis s True] show ?thesis
      by (simp add: beaconVoted_def stakingVoted_def)
  next
    case False
    then have "NodeID s \<in> set (RandomBeaconSigners bd)" using Unpack_signers [OF q(2)] s by blast
    from beaconKeysLoop_keys [OF q(4) this] verifyAggregated_sound [OF assms q(5)] q(1)
    show ?thesis unfolding beaconVoted_def by blast
  qed
  moreover have "ss \<noteq> []" using Unpack_signers [OF q(2)] q(3) by auto
  ultimately show "ss \<noteq> [] \<and> (\<forall>s\<in>set ss. beaconVoted S com s view b)" by blast
next
  fix ss sig view qs assume "VerifyTC (NewCombinedVerifierV3 c cd com) ss sig view qs = Inr ()"
  then show "ss \<noteq> [] \<and> length qs = length ss
      \<and> (\<forall>i < length ss. stakingTimedOut S ConsensusTimeoutTag (ss ! i) view (qs ! i))"
    using verifyTC_timedOut [OF assms] by (simp add: NewCombinedVerifierV3_def combinedVerifyTC_def)
qed

section \<open>Packing and unpacking of QC signatures\<close>

definition codecOk :: "codec \<Rightarrow> bool" where
  "codecOk cd = (\<forall>d. \<exists>b. codec_Encode cd d = Inr b \<and> codec_Decode cd b = Inr d)"

text \<open>
  C15: the QC packer round trips.  With a codec that decodes what it encodes, packing the signature
  data of distinct committee members succeeds; decoding the packed signer indices against the
  committee and unpacking with the resulting signers gives back the same signatures and the same
  staking and beacon signers, in the committee's order.
\<close>

theorem packer_roundtrip:
  assumes "codecOk cd" "IdentitiesByEpoch com view = Inr il" "distinct (il_NodeIDs il)"
    and "distinct (StakingSigners sig)" "distinct (RandomBeaconSigners sig)"
    and "set (StakingSigners sig) \<inter> set (RandomBeaconSigners sig) = {}"
    and "set (StakingSigners sig) \<union> set (RandomBeaconSigners sig) \<subseteq> set (il_NodeIDs il)"
  shows "\<exists>p b signers. Pack cd com view sig = Inr (p, b)
    \<and> DecodeSignerIndicesToIdentities il p = Inr signers
    \<and> Unpack cd signers b = Inr (sig
        \<lparr>StakingSigners := filter (\<lambda>i. i \<in> set (StakingSigners sig)) (il_NodeIDs il),
         RandomBeaconSigners := filter (\<lambda>i. i \<in> set (RandomBeaconSigners sig)) (il_NodeIDs il)\<rparr>)"
proof -
  obtain p t signers where e: "EncodeSignerToIndicesAndSigType (il_NodeIDs il) (StakingSigners sig)
      (RandomBeaconSigners sig) = Inr (p, t)"
    "DecodeSignerIndicesToIdentities il p = Inr signers"
    "DecodeSigTypeToStakingAndBeaconSigners signers t
       = Inr (filter (\<lambda>x. NodeID x \<in> set (StakingSigners sig)) il,
              filter (\<lambda>x. NodeID x \<in> set (RandomBeaconSigners sig)) il)"
    using signer_types_roundtrip [OF assms(3-7)] by blast
  obtain b where b: "codec_Encode cd
      \<lparr>SD_SigType = t, SD_AggregatedStakingSig = AggregatedStakingSig sig,
       SD_AggregatedRandomBeaconSig = AggregatedRandomBeaconSig sig,
       SD_ReconstructedRandomBeaconSig = ReconstructedRandomBeaconSig sig\<rparr> = Inr b"
    "codec_Decode cd b = Inr
      \<lparr>SD_SigType = t, SD_AggregatedStakingSig = AggregatedStakingSig sig,
       SD_AggregatedRandomBeaconSig = AggregatedRandomBeaconSig sig,
       SD_ReconstructedRandomBeaconSig = ReconstructedRandomBeaconSig sig\<rparr>"
    using assms(1) unfolding codecOk_def by blast
  have "Pack cd com view sig = Inr (p, b)" by (simp add: Pack_def assms(2) e(1) b(1))
  moreover have "Unpack cd signers b = Inr (sig
        \<lparr>StakingSigners := filter (\<lambda>i. i \<in> set (StakingSigners sig)) (il_NodeIDs il),
         RandomBeaconSigners := filter (\<lambda>i. i \<in> set (RandomBeaconSigners sig)) (il_NodeIDs il)\<rparr>)"
    by (simp add: Unpack_def SigDataPacker_Decode_def b(2) e(3) il_NodeIDs_def filter_map comp_def)
  ultimately show ?thesis using e(2) by blast
qed

text \<open>A codec that marks every byte of a field with 1 and the end of a field with 0.\<close>

definition exampleField :: "bytes \<Rightarrow> bytes" where
  "exampleField bs = concat (map (\<lambda>b. [1, b]) bs) @ [0]"

fun exampleUnfield :: "bytes \<Rightarrow> (bytes \<times> bytes) result" where
  "exampleUnfield (m # rest) =
     (if m = 0 then Inr ([], rest)
      else case rest of
        [] \<Rightarrow> Inl Errorf
      | b # rest' \<Rightarrow> (case exampleUnfield rest' of Inl e \<Rightarrow> Inl e | Inr (bs, r) \<Rightarrow> Inr (b # bs, r)))"
| "exampleUnfield [] = Inl Errorf"

definition exampleCodec :: codec where
  "exampleCodec =
     \<lparr>codec_Encode = (\<lambda>d. Inr (exampleField (SD_SigType d) @ exampleField (SD_AggregatedStakingSig d)
        @ exampleField (SD_AggregatedRandomBeaconSig d) @ exampleField (SD_ReconstructedRandomBeaconSig d))),
      codec_Decode = (\<lambda>b0.
        case exampleUnfield b0 of Inl e \<Rightarrow> Inl e | Inr (t, b1) \<Rightarrow>
        (case exampleUnfield b1 of Inl e \<Rightarrow> Inl e | Inr (s, b2) \<Rightarrow>
        (case exampleUnfield b2 of Inl e \<Rightarrow> Inl e | Inr (r, b3) \<Rightarrow>
        (case exampleUnfield b3 of Inl e \<Rightarrow> Inl e | Inr (c, b4) \<Rightarrow>
           Inr \<lparr>SD_SigType = t, SD_AggregatedStakingSig = s, SD_AggregatedRandomBeaconSig = r,
                SD_ReconstructedRandomBeaconSig = c\<rparr>))))\<rparr>"

lemma exampleUnfield_field: "exampleUnfield (exampleField bs @ rest) = Inr (bs, rest)"
  by (induction bs) (simp_all add: exampleField_def)

lemma exampleCodec_ok: "codecOk exampleCodec"
proof -
  have "exampleUnfield (exampleField bs) = Inr (bs, [])" for bs
    using exampleUnfield_field [of bs "[]"] by simp
  then show ?thesis by (simp add: codecOk_def exampleCodec_def exampleUnfield_field)
qed

theorem packer_roundtrip_witness:
  "\<exists>p b signers. Pack exampleCodec exampleCom 5
       \<lparr>StakingSigners = [3], RandomBeaconSigners = [4, 1], AggregatedStakingSig = [7],
        AggregatedRandomBeaconSig = [8], ReconstructedRandomBeaconSig = [9]\<rparr> = Inr (p, b)
    \<and> DecodeSignerIndicesToIdentities exampleCommittee p = Inr signers
    \<and> Unpack exampleCodec signers b = Inr
       \<lparr>StakingSigners = [3], RandomBeaconSigners = [1, 4], AggregatedStakingSig = [7],
        AggregatedRandomBeaconSig = [8], ReconstructedRandomBeaconSig = [9]\<rparr>"
proof -
  have "IdentitiesByEpoch exampleCom 5 = Inr exampleCommittee" by code_simp
  then show ?thesis
    using packer_roundtrip [of exampleCodec exampleCom 5 exampleCommittee
       "\<lparr>StakingSigners = [3], RandomBeaconSigners = [4, 1], AggregatedStakingSig = [7],
        AggregatedRandomBeaconSig = [8], ReconstructedRandomBeaconSig = [9]\<rparr>"] exampleCodec_ok
    by (simp add: il_NodeIDs_def exampleCommittee_def exampleIdentity_def)
qed

section \<open>All three verifiers\<close>

text \<open>
  What the signatures of the three verifiers have in common: the node signed the vote or timeout
  message under one of the tags in use.
\<close>

definition nodeVoted where
  "nodeVoted S com s view b \<longleftrightarrow> stakingVoted S CollectorVoteTag s view b \<or> beaconVoted S com s view b"

definition nodeTimedOut where
  "nodeTimedOut S s view q \<longleftrightarrow>
     stakingTimedOut S CollectorTimeoutTag s view q \<or> stakingTimedOut S ConsensusTimeoutTag s view q"

definition flowVerifiers :: "bls \<Rightarrow> codec \<Rightarrow> committee \<Rightarrow> verifier set" where
  "flowVerifiers c cd com = {NewStakingVerifier c, NewCombinedVerifier c cd com, NewCombinedVerifierV3 c cd com}"

lemma soundVerifier_mono:
  assumes "soundVerifier ver P Q" "\<And>s v b. P s v b \<Longrightarrow> P' s v b" "\<And>s v q. Q s v q \<Longrightarrow> Q' s v q"
  shows "soundVerifier ver P' Q'"
proof (rule soundVerifierI)
  fix s sig view b assume "VerifyVote ver s sig view b = Inr ()"
  then show "P' s view b" using assms(1,2) unfolding soundVerifier_def by blast
next
  fix ss sig view b assume "distinct (map NodeID ss)" "VerifyQC ver ss sig view b = Inr ()"
  then have "ss \<noteq> [] \<and> (\<forall>s\<in>set ss. P s view b)" using assms(1) unfolding soundVerifier_def by blast
  then show "ss \<noteq> [] \<and> (\<forall>s\<in>set ss. P' s view b)" using assms(2) by blast
next
  fix ss sig view qs assume "VerifyTC ver ss sig view qs = Inr ()"
  then have "ss \<noteq> [] \<and> length qs = length ss \<and> (\<forall>i < length ss. Q (ss ! i) view (qs ! i))"
    using assms(1) unfolding soundVerifier_def by blast
  then show "ss \<noteq> [] \<and> length qs = length ss \<and> (\<forall>i < length ss. Q' (ss ! i) view (qs ! i))"
    using assms(3) by blast
qed

lemma flowVerifiers_sound:
  assumes S: "blsSound S c" and "ver \<in> flowVerifiers c cd com"
  shows "soundVerifier ver (nodeVoted S com) (nodeTimedOut S)"
proof -
  from assms(2) consider "ver = NewStakingVerifier c" | "ver = NewCombinedVerifier c cd com"
    | "ver = NewCombinedVerifierV3 c cd com" by (auto simp: flowVerifiers_def)
  then show ?thesis
  proof cases
    case 1
    show ?thesis unfolding 1
      by (rule soundVerifier_mono [OF StakingVerifier_sound [OF S]]) (simp_all add: nodeVoted_def nodeTimedOut_def)
  next
    case 2
    show ?thesis unfolding 2
      by (rule soundVerifier_mono [OF CombinedVerifier_sound [OF S]])
        (simp_all add: nodeVoted_def nodeTimedOut_def beaconVoted_def)
  next
    case 3
    show ?thesis unfolding 3
      by (rule soundVerifier_mono [OF CombinedVerifierV3_sound [OF S]]) (simp_all add: nodeVoted_def nodeTimedOut_def)
  qed
qed

text \<open>
  An instance of the BLS operations: a key is a list of bytes, each the key of one signer, an
  aggregated key the concatenation; \<open>whoSigned\<close> says who signed what.
\<close>

definition exampleSigned :: "(byte \<Rightarrow> bytes \<Rightarrow> hasher \<Rightarrow> bool) \<Rightarrow> PublicKey \<Rightarrow> bytes \<Rightarrow> hasher \<Rightarrow> bool" where
  "exampleSigned whoSigned pk msg h \<longleftrightarrow> pk \<noteq> [] \<and> (\<forall>b\<in>set pk. whoSigned b msg h)"

definition exampleBLS :: "(byte \<Rightarrow> bytes \<Rightarrow> hasher \<Rightarrow> bool) \<Rightarrow> bls" where
  "exampleBLS whoSigned =
     \<lparr>bls_Verify = (\<lambda>pk sig msg h. Inr (exampleSigned whoSigned pk msg h)),
      AggregateBLSPublicKeys = (\<lambda>keys.
        if keys = [] then Inl BLSAggregateEmptyListError
        else if None \<in> set keys then Inl Panic
        else if Some [] \<in> set keys then Inl Errorf
        else Inr (concat (map the keys))),
      VerifyBLSSignatureManyMessages = (\<lambda>keys sig msgs hs.
        if keys = [] then Inl BLSAggregateEmptyListError
        else if None \<in> set keys then Inl Panic
        else Inr (list_all (\<lambda>(k, m, h). exampleSigned whoSigned (the k) m h) (zip keys (zip msgs hs)))),
      sigLen = 4\<rparr>"

lemma exampleBLS_sound: "blsSound (exampleSigned whoSigned) (exampleBLS whoSigned)"
proof -
  have agg: "keys \<noteq> [] \<and> (\<forall>k\<in>set keys. \<exists>pk. k = Some pk \<and> exampleSigned whoSigned pk msg h)"
    if "AggregateBLSPublicKeys (exampleBLS whoSigned) keys = Inr ak"
      "bls_Verify (exampleBLS whoSigned) ak sig msg h = Inr True" for keys ak sig msg h
  proof -
    have k: "keys \<noteq> []" "None \<notin> set keys" "Some [] \<notin> set keys" "ak = concat (map the keys)"
      using that(1) by (auto simp: exampleBLS_def split: if_splits)
    have all: "whoSigned b msg h" if "k \<in> set keys" "b \<in> set (the k)" for k b
      using \<open>bls_Verify _ ak sig msg h = _\<close> that by (auto simp: exampleBLS_def exampleSigned_def k(4))
    have "\<exists>pk. k = Some pk \<and> exampleSigned whoSigned pk msg h" if "k \<in> set keys" for k
    proof -
      have "k \<noteq> None" "k \<noteq> Some []" using that k(2,3) by metis+
      then obtain pk where "k = Some pk" "pk \<noteq> []" by auto
      then show ?thesis using all [OF that] by (simp add: exampleSigned_def)
    qed
    with k(1) show ?thesis by blast
  qed
  moreover have many: "keys \<noteq> [] \<and> (\<forall>i < length keys. \<exists>pk. keys ! i = Some pk
      \<and> exampleSigned whoSigned pk (msgs ! i) (hs ! i))"
    if "VerifyBLSSignatureManyMessages (exampleBLS whoSigned) keys sig msgs hs = Inr True"
      "length msgs = length keys" "length hs = length keys" for keys sig msgs hs
  proof -
    have k: "keys \<noteq> []" "None \<notin> set keys"
      "\<forall>i < length keys. exampleSigned whoSigned (the (keys ! i)) (msgs ! i) (hs ! i)"
      using that by (auto simp: exampleBLS_def list_all_length split: if_splits)
    have "keys ! i \<noteq> None" if "i < length keys" for i using k(2) nth_mem [OF that] by metis
    with k show ?thesis by force
  qed
  moreover have "exampleSigned whoSigned pk msg h"
    if "bls_Verify (exampleBLS whoSigned) pk sig msg h = Inr True" for pk sig msg h
    using that by (simp add: exampleBLS_def)
  ultimately show ?thesis unfolding blsSound_def by blast
qed

end
