(* ===== verification/Validator.thy ===== *)
theory Validator
  imports Verifiers Safety_Rules
begin

text \<open>
  \<open>consensus/hotstuff/validator\<close>: validation of votes, QCs, TCs and proposals, over the committee and
  verifier interfaces. A certificate passed by reference is a value; an access through a nil
  certificate of a proposal panics.
\<close>

record Validator =
  vd_committee :: committee
  vd_verifier :: verifier

definition New_Validator :: "committee \<Rightarrow> verifier \<Rightarrow> Validator" where
  "New_Validator com ver = \<lparr>vd_committee = com, vd_verifier = ver\<rparr>"

lemma New_Validator_sel [simp]:
  "vd_committee (New_Validator com ver) = com" "vd_verifier (New_Validator com ver) = ver"
  by (simp_all add: New_Validator_def)

definition newInvalidBlockError :: "Block \<Rightarrow> error \<Rightarrow> error" where
  "newInvalidBlockError block err = InvalidBlockError (B_BlockID block) (B_View block) err"

definition newInvalidQCError :: "QuorumCertificate \<Rightarrow> error \<Rightarrow> error" where
  "newInvalidQCError qc err = InvalidQCError (QC_BlockID qc) (QC_View qc) err"

definition newInvalidTCError :: "TimeoutCertificate \<Rightarrow> error \<Rightarrow> error" where
  "newInvalidTCError tc err = InvalidTCError (TC_View tc) err"

definition newInvalidVoteError :: "Vote \<Rightarrow> error \<Rightarrow> error" where
  "newInvalidVoteError vote err = InvalidVoteError vote err"

definition isUnknownEpoch :: "error \<Rightarrow> bool" where
  "isUnknownEpoch e = errors_As (\<lambda>e. e = ErrViewForUnknownEpoch) e"

definition isInvalidSignature :: "error \<Rightarrow> bool" where
  "isInvalidSignature e = errors_As (\<lambda>e. e = ErrInvalidSignature) e"

definition ValidateQC :: "Validator \<Rightarrow> QuorumCertificate \<Rightarrow> unit result" where
  "ValidateQC v qc =
     (case IdentitiesByEpoch (vd_committee v) (QC_View qc) of
        Inl e \<Rightarrow> Inl (wrapf e)
      | Inr allParticipants \<Rightarrow>
     (case DecodeSignerIndicesToIdentities allParticipants (QC_SignerIndices qc) of
        Inl e \<Rightarrow>
          if IsInvalidSignerIndicesError e then Inl (newInvalidQCError qc (wrapf e)) else Inl (wrapf e)
      | Inr signers \<Rightarrow>
     (case QuorumThresholdForView (vd_committee v) (QC_View qc) of
        Inl e \<Rightarrow> Inl (wrapf e)
      | Inr threshold \<Rightarrow>
          if il_TotalWeight signers < threshold then Inl (newInvalidQCError qc Errorf)
          else (case VerifyQC (vd_verifier v) signers (QC_SigData qc) (QC_View qc) (QC_BlockID qc) of
                  Inl e \<Rightarrow>
                    if IsInvalidFormatError e \<or> isInvalidSignature e then Inl (newInvalidQCError qc (wrapf e))
                    else if isUnknownEpoch e then Inl (plainf e)
                    else Inl (wrapf e)
                | Inr _ \<Rightarrow> Inr ()))))"

text \<open>The loop over \<open>NewestQCViews\<close>; indexing the first element of an empty slice panics.\<close>

definition newestQCViewOf :: "uint64 list \<Rightarrow> uint64 result" where
  "newestQCViewOf views =
     (case views of
        [] \<Rightarrow> Inl Panic
      | v0 # _ \<Rightarrow> Inr (fold (\<lambda>view newest. if newest < view then view else newest) views v0))"

definition ValidateTC :: "Validator \<Rightarrow> TimeoutCertificate \<Rightarrow> unit result" where
  "ValidateTC v tc =
     (case TC_NewestQC tc of
        None \<Rightarrow> Inl (newInvalidTCError tc Errorf)
      | Some newestQC \<Rightarrow>
     if TC_View tc < QC_View newestQC then Inl (newInvalidTCError tc Errorf)
     else
     (case IdentitiesByEpoch (vd_committee v) (TC_View tc) of
        Inl e \<Rightarrow> Inl (wrapf e)
      | Inr allParticipants \<Rightarrow>
     (case DecodeSignerIndicesToIdentities allParticipants (TC_SignerIndices tc) of
        Inl e \<Rightarrow>
          if IsInvalidSignerIndicesError e then Inl (newInvalidTCError tc (wrapf e)) else Inl (wrapf e)
      | Inr signers \<Rightarrow>
     (case QuorumThresholdForView (vd_committee v) (TC_View tc) of
        Inl e \<Rightarrow> Inl (wrapf e)
      | Inr threshold \<Rightarrow>
     if il_TotalWeight signers < threshold then Inl (newInvalidTCError tc Errorf)
     else
     (case VerifyTC (vd_verifier v) signers (TC_SigData tc) (TC_View tc) (TC_NewestQCViews tc) of
        Inl e \<Rightarrow>
          if IsInvalidFormatError e \<or> isInvalidSignature e then Inl (newInvalidTCError tc (wrapf e))
          else Inl (wrapf e)
      | Inr _ \<Rightarrow>
     (case newestQCViewOf (TC_NewestQCViews tc) of
        Inl e \<Rightarrow> Inl e
      | Inr newestQCView \<Rightarrow>
     if QC_View newestQC < newestQCView then Inl (newInvalidTCError tc Errorf)
     else
     (case ValidateQC v newestQC of
        Inl e \<Rightarrow>
          if IsInvalidQCError e then Inl (newInvalidTCError tc (wrapf e))
          else if isUnknownEpoch e then Inl (plainf e)
          else Inl (wrapf e)
      | Inr _ \<Rightarrow> Inr ())))))))"

definition ValidateVote :: "Validator \<Rightarrow> Vote \<Rightarrow> Identity result" where
  "ValidateVote v vote =
     (case IdentityByEpoch (vd_committee v) (V_View vote) (V_SignerID vote) of
        Inl e \<Rightarrow> if IsInvalidSignerError e then Inl (newInvalidVoteError vote e) else Inl (wrapf e)
      | Inr voter \<Rightarrow>
          (case VerifyVote (vd_verifier v) voter (V_SigData vote) (V_View vote) (V_BlockID vote) of
             Inl e \<Rightarrow>
               if IsInvalidFormatError e \<or> isInvalidSignature e then Inl (newInvalidVoteError vote e)
               else if isUnknownEpoch e then Inl (plainf e)
               else Inl (wrapf e)
           | Inr _ \<Rightarrow> Inr voter))"

text \<open>
  The structural checks of \<open>ValidateProposal\<close> on the QC and TC; the result is the condition
  \<open>lastViewSuccessful\<close>.
\<close>

definition checkEvidence :: "Proposal \<Rightarrow> QuorumCertificate \<Rightarrow> bool result" where
  "checkEvidence p qc =
     (let block = P_Block p; lastViewSuccessful = (B_View block = QC_View qc + 1) in
      if \<not> lastViewSuccessful
      then (case P_LastViewTC p of
              None \<Rightarrow> Inl (newInvalidBlockError block Errorf)
            | Some tc \<Rightarrow>
                if B_View block \<noteq> TC_View tc + 1 then Inl (newInvalidBlockError block Errorf)
                else (case TC_NewestQC tc of
                        None \<Rightarrow> Inl Panic
                      | Some newest \<Rightarrow>
                          if QC_View qc < QC_View newest then Inl (newInvalidBlockError block Errorf)
                          else Inr lastViewSuccessful))
      else if P_LastViewTC p \<noteq> None then Inl (newInvalidBlockError block Errorf)
      else Inr lastViewSuccessful)"

definition ValidateProposal :: "Validator \<Rightarrow> Proposal \<Rightarrow> unit result" where
  "ValidateProposal v p =
     (let block = P_Block p in
      case ValidateVote v (ProposerVote p) of
        Inl e \<Rightarrow>
          if IsInvalidVoteError e then Inl (newInvalidBlockError block (wrapf e)) else Inl (wrapf e)
      | Inr _ \<Rightarrow>
     (case LeaderForView (vd_committee v) (B_View block) of
        Inl e \<Rightarrow> Inl (wrapf e)
      | Inr leader \<Rightarrow>
     if leader \<noteq> B_ProposerID block then Inl (newInvalidBlockError block Errorf)
     else
     (case B_QC block of
        None \<Rightarrow> Inl Panic
      | Some qc \<Rightarrow>
     (case checkEvidence p qc of
        Inl e \<Rightarrow> Inl e
      | Inr lastViewSuccessful \<Rightarrow>
     (case ValidateQC v qc of
        Inl e \<Rightarrow>
          if IsInvalidQCError e then Inl (newInvalidBlockError block (wrapf e))
          else if isUnknownEpoch e then Inl (plainf e)
          else Inl (wrapf e)
      | Inr _ \<Rightarrow>
     if lastViewSuccessful then Inr ()
     else
     (case P_LastViewTC p of
        None \<Rightarrow> Inl Panic
      | Some tc \<Rightarrow>
     (case ValidateTC v tc of
        Inl e \<Rightarrow>
          if IsInvalidTCError e then Inl (newInvalidBlockError block (wrapf e))
          else if isUnknownEpoch e then Inl (plainf e)
          else Inl (wrapf e)
      | Inr _ \<Rightarrow> Inr ())))))))"

section \<open>Quorums behind certificates\<close>

text \<open>The signers that a bit vector selects are a part of the committee, in its order.\<close>

lemma map_nth_filter: "map (\<lambda>i. xs ! i) (filter P [0..<length xs]) = nths xs {i. P i}"
proof (induction xs rule: rev_induct)
  case (snoc x xs)
  have "map (\<lambda>i. (xs @ [x]) ! i) (filter P [0..<length xs]) = map (\<lambda>i. xs ! i) (filter P [0..<length xs])"
    by (rule map_cong) (auto simp: nth_append)
  with snoc show ?case by (simp add: nths_append nths_singleton)
qed simp

lemma sum_list_nths: "(\<Sum>x\<leftarrow>nths xs A. (f x :: nat)) \<le> (\<Sum>x\<leftarrow>xs. f x)"
proof (induction xs arbitrary: A)
  case (Cons x xs)
  then show ?case by (auto simp: nths_Cons intro: add_mono le_SucI trans_le_add2)
qed simp

lemma DecodeSigners_subseq:
  assumes "DecodeSignerIndicesToIdentities il p = Inr ss"
  shows "set ss \<subseteq> set il" "distinct (map NodeID il) \<Longrightarrow> distinct (map NodeID ss)"
    "(\<Sum>x\<leftarrow>ss. unat (Weight x)) \<le> (\<Sum>x\<leftarrow>il. unat (Weight x))"
proof -
  obtain A where ss: "ss = nths il A"
    using assms map_nth_filter [of il]
    by (auto simp: DecodeSignerIndicesToIdentities_def decode_ok il_NodeIDs_def split: sum.splits)
  show "set ss \<subseteq> set il" unfolding ss by (rule set_nths_subset)
  show "distinct (map NodeID ss)" if "distinct (map NodeID il)"
    unfolding ss nths_map [symmetric] by (rule distinct_nthsI [OF that])
  show "(\<Sum>x\<leftarrow>ss. unat (Weight x)) \<le> (\<Sum>x\<leftarrow>il. unat (Weight x))" unfolding ss by (rule sum_list_nths)
qed

lemma TotalWeight_signers:
  assumes "committee_ok il" "DecodeSignerIndicesToIdentities il p = Inr ss"
  shows "sum (memberWeight il) (NodeID ` set ss) = unat (il_TotalWeight ss)"
proof -
  have d: "distinct (map NodeID il)" using assms(1) canonical_distinct by (simp add: committee_ok_def)
  have ds: "distinct (map NodeID ss)" and sub: "set ss \<subseteq> set il"
    using DecodeSigners_subseq [OF assms(2)] d by blast+
  have fit: "weightsFit ss"
    using DecodeSigners_subseq(3) [OF assms(2)] assms(1) by (simp add: committee_ok_def weightsFit_def)
  have "memberWeight il n = memberWeight ss n" if "n \<in> NodeID ` set ss" for n
  proof -
    obtain x where "x \<in> set ss" "n = NodeID x" using \<open>n \<in> _\<close> by blast
    then have "il_ByNodeID il n = Some x" "il_ByNodeID ss n = Some x"
      using sub il_ByNodeID_distinct [OF d] il_ByNodeID_distinct [OF ds] by blast+
    then show ?thesis by (simp add: memberWeight_def)
  qed
  then have "sum (memberWeight il) (NodeID ` set ss) = sum (memberWeight ss) (set (map NodeID ss))"
    by (auto intro: sum.cong)
  then show ?thesis using sum_memberWeight [OF ds] unat_TotalWeight [OF fit] by simp
qed

text \<open>
  \<open>quorumOf com v P Q\<close>: \<open>Q\<close> is a set of members of the committee of view \<open>v\<close> that reaches the quorum
  threshold, and \<open>P\<close> holds for each of their identities.
\<close>

definition quorumOf :: "committee \<Rightarrow> uint64 \<Rightarrow> (Identity \<Rightarrow> bool) \<Rightarrow> Identifier set \<Rightarrow> bool" where
  "quorumOf com v P Q \<longleftrightarrow>
     (\<exists>il t. IdentitiesByEpoch com v = Inr il \<and> QuorumThresholdForView com v = Inr t
        \<and> Q \<subseteq> set (il_NodeIDs il) \<and> unat t \<le> sum (memberWeight il) Q
        \<and> (\<forall>n\<in>Q. \<exists>x. il_ByNodeID il n = Some x \<and> P x))"

definition committeeOk :: "committee \<Rightarrow> bool" where
  "committeeOk com \<longleftrightarrow> (\<forall>v il. IdentitiesByEpoch com v = Inr il \<longrightarrow> committee_ok il)"

lemma signers_quorum:
  assumes "committeeOk com" "IdentitiesByEpoch com v = Inr il" "QuorumThresholdForView com v = Inr t"
    and "DecodeSignerIndicesToIdentities il p = Inr ss" "t \<le> il_TotalWeight ss" "\<forall>s\<in>set ss. P s"
  shows "quorumOf com v P (NodeID ` set ss)"
proof -
  have ok: "committee_ok il" using assms(1,2) by (auto simp: committeeOk_def)
  have d: "distinct (map NodeID il)" using ok canonical_distinct by (simp add: committee_ok_def)
  have "\<exists>x. il_ByNodeID il (NodeID s) = Some x \<and> P x" if "s \<in> set ss" for s
    using that DecodeSigners_subseq(1) [OF assms(4)] assms(6) il_ByNodeID_distinct [OF d, of "NodeID s" s]
    by blast
  moreover have "unat t \<le> sum (memberWeight il) (NodeID ` set ss)"
    using assms(5) TotalWeight_signers [OF ok assms(4)] by (simp add: word_le_nat_alt)
  moreover have "NodeID ` set ss \<subseteq> set (il_NodeIDs il)"
    using DecodeSigners_subseq(1) [OF assms(4)] by (auto simp: il_NodeIDs_def)
  ultimately show ?thesis using assms(2,3) unfolding quorumOf_def by blast
qed

lemma ValidateQC_ok:
  "ValidateQC v qc = Inr u \<longleftrightarrow>
   (\<exists>il ss t. IdentitiesByEpoch (vd_committee v) (QC_View qc) = Inr il
      \<and> DecodeSignerIndicesToIdentities il (QC_SignerIndices qc) = Inr ss
      \<and> QuorumThresholdForView (vd_committee v) (QC_View qc) = Inr t \<and> t \<le> il_TotalWeight ss
      \<and> VerifyQC (vd_verifier v) ss (QC_SigData qc) (QC_View qc) (QC_BlockID qc) = Inr ())"
  by (auto simp: ValidateQC_def not_less split: sum.splits if_splits)

lemma newestQCViewOf_max:
  "newestQCViewOf views = (if views = [] then Inl Panic else Inr (Max (set views)))"
proof (cases views)
  case (Cons v vs)
  have f: "(\<lambda>view newest. if newest < view then view else newest) = (max :: uint64 \<Rightarrow> _)"
    by (auto simp: fun_eq_iff max_def)
  have "fold max (v # vs) v = Max (set (v # vs))" by (simp add: Max.set_eq_fold [symmetric])
  with Cons show ?thesis by (simp add: newestQCViewOf_def f)
qed (simp add: newestQCViewOf_def)

lemma ValidateTC_ok:
  "ValidateTC v tc = Inr u \<longleftrightarrow>
   (\<exists>q il ss t. TC_NewestQC tc = Some q \<and> QC_View q \<le> TC_View tc
      \<and> IdentitiesByEpoch (vd_committee v) (TC_View tc) = Inr il
      \<and> DecodeSignerIndicesToIdentities il (TC_SignerIndices tc) = Inr ss
      \<and> QuorumThresholdForView (vd_committee v) (TC_View tc) = Inr t \<and> t \<le> il_TotalWeight ss
      \<and> VerifyTC (vd_verifier v) ss (TC_SigData tc) (TC_View tc) (TC_NewestQCViews tc) = Inr ()
      \<and> TC_NewestQCViews tc \<noteq> [] \<and> (\<forall>w\<in>set (TC_NewestQCViews tc). w \<le> QC_View q)
      \<and> ValidateQC v q = Inr ())"
  by (auto simp: ValidateTC_def not_less not_le newestQCViewOf_max Max_gr_iff split: option.splits sum.splits if_splits)

lemma ValidateVote_ok:
  "ValidateVote v vote = Inr voter \<longleftrightarrow>
   IdentityByEpoch (vd_committee v) (V_View vote) (V_SignerID vote) = Inr voter
   \<and> VerifyVote (vd_verifier v) voter (V_SigData vote) (V_View vote) (V_BlockID vote) = Inr ()"
  by (auto simp: ValidateVote_def split: sum.splits if_splits)

lemma checkEvidence_ok:
  "checkEvidence p qc = Inr l \<longleftrightarrow> l = (B_View (P_Block p) = QC_View qc + 1)
   \<and> (if l then P_LastViewTC p = None
      else \<exists>tc tq. P_LastViewTC p = Some tc \<and> B_View (P_Block p) = TC_View tc + 1
        \<and> TC_NewestQC tc = Some tq \<and> QC_View tq \<le> QC_View qc)"
  by (auto simp: checkEvidence_def Let_def not_less split: option.splits if_splits)

lemma ValidateProposal_ok:
  "ValidateProposal v p = Inr u \<longleftrightarrow>
   (\<exists>qc l i. B_QC (P_Block p) = Some qc \<and> ValidateVote v (ProposerVote p) = Inr i
      \<and> LeaderForView (vd_committee v) (B_View (P_Block p)) = Inr (B_ProposerID (P_Block p))
      \<and> checkEvidence p qc = Inr l \<and> ValidateQC v qc = Inr ()
      \<and> (l \<or> (\<exists>tc. P_LastViewTC p = Some tc \<and> ValidateTC v tc = Inr ())))"
  by (auto simp: ValidateProposal_def Let_def split: option.splits sum.splits if_splits)

section \<open>What valid certificates prove\<close>

lemma ValidateQC_quorum:
  assumes "soundVerifier ver voted timedOut" "committeeOk com" "ValidateQC (New_Validator com ver) qc = Inr u"
  shows "\<exists>Q. Q \<noteq> {} \<and> quorumOf com (QC_View qc) (\<lambda>s. voted s (QC_View qc) (QC_BlockID qc)) Q"
proof -
  obtain il ss t where v: "IdentitiesByEpoch com (QC_View qc) = Inr il"
    "DecodeSignerIndicesToIdentities il (QC_SignerIndices qc) = Inr ss"
    "QuorumThresholdForView com (QC_View qc) = Inr t" "t \<le> il_TotalWeight ss"
    "VerifyQC ver ss (QC_SigData qc) (QC_View qc) (QC_BlockID qc) = Inr ()"
    using assms(3) unfolding ValidateQC_ok New_Validator_sel by blast
  have "distinct (map NodeID ss)"
    using DecodeSigners_subseq(2) [OF v(2)] canonical_distinct assms(2) v(1)
    by (auto simp: committeeOk_def committee_ok_def)
  then have "ss \<noteq> []" "\<forall>s\<in>set ss. voted s (QC_View qc) (QC_BlockID qc)"
    using assms(1) v(5) unfolding soundVerifier_def by blast+
  with signers_quorum [OF assms(2) v(1,3,2,4)] show ?thesis by (metis image_is_empty set_empty)
qed

text \<open>
  C11: a QC that \<open>ValidateQC\<close> accepts proves a quorum. For each of the three verifiers, if the BLS
  library is sound, there is a set of committee members of the QC's view whose weight reaches the
  quorum threshold, each of whom signed the vote for the QC's view and block.
\<close>

theorem valid_QC_has_quorum:
  assumes "blsSound S c" "ver \<in> flowVerifiers c cd com" "committeeOk com"
    and "ValidateQC (New_Validator com ver) qc = Inr ()"
  shows "\<exists>Q. Q \<noteq> {} \<and> quorumOf com (QC_View qc) (\<lambda>s. nodeVoted S com s (QC_View qc) (QC_BlockID qc)) Q"
  using ValidateQC_quorum [OF flowVerifiers_sound [OF assms(1,2)] assms(3,4)] .

lemma ValidateTC_quorum:
  assumes "soundVerifier ver voted timedOut" "committeeOk com" "ValidateTC (New_Validator com ver) tc = Inr u"
  shows "\<exists>q Q. TC_NewestQC tc = Some q \<and> QC_View q \<le> TC_View tc
    \<and> ValidateQC (New_Validator com ver) q = Inr ()
    \<and> Q \<noteq> {} \<and> quorumOf com (TC_View tc) (\<lambda>s. \<exists>w \<le> QC_View q. timedOut s (TC_View tc) w) Q"
proof -
  obtain q il ss t where q: "TC_NewestQC tc = Some q" "QC_View q \<le> TC_View tc"
    "ValidateQC (New_Validator com ver) q = Inr ()" "\<forall>w\<in>set (TC_NewestQCViews tc). w \<le> QC_View q"
    and v: "IdentitiesByEpoch com (TC_View tc) = Inr il"
    "DecodeSignerIndicesToIdentities il (TC_SignerIndices tc) = Inr ss"
    "QuorumThresholdForView com (TC_View tc) = Inr t" "t \<le> il_TotalWeight ss"
    "VerifyTC ver ss (TC_SigData tc) (TC_View tc) (TC_NewestQCViews tc) = Inr ()"
    using assms(3) unfolding ValidateTC_ok New_Validator_sel by (elim exE conjE) (rule that)
  have to: "ss \<noteq> []" "length (TC_NewestQCViews tc) = length ss"
    "\<forall>i < length ss. timedOut (ss ! i) (TC_View tc) (TC_NewestQCViews tc ! i)"
    using assms(1) v(5) unfolding soundVerifier_def by blast+
  have "\<forall>s\<in>set ss. \<exists>w \<le> QC_View q. timedOut s (TC_View tc) w"
    using to q(4) by (metis in_set_conv_nth)
  from signers_quorum [OF assms(2) v(1,3,2,4) this] have "quorumOf com (TC_View tc)
      (\<lambda>s. \<exists>w \<le> QC_View q. timedOut s (TC_View tc) w) (NodeID ` set ss)" .
  moreover have "NodeID ` set ss \<noteq> {}" using to(1) by simp
  ultimately show ?thesis using q(1-3) by blast
qed

text \<open>
  C12: a TC that \<open>ValidateTC\<close> accepts proves a quorum of timeouts: members whose weight reaches the
  quorum threshold of the TC's view signed a timeout for this view, each reporting a newest QC
  that is not newer than the QC the TC carries; and this QC is itself valid and not newer than the TC.
\<close>

theorem valid_TC_has_quorum:
  assumes "blsSound S c" "ver \<in> flowVerifiers c cd com" "committeeOk com"
    and "ValidateTC (New_Validator com ver) tc = Inr ()"
  shows "\<exists>q Q. TC_NewestQC tc = Some q \<and> QC_View q \<le> TC_View tc
    \<and> ValidateQC (New_Validator com ver) q = Inr ()
    \<and> Q \<noteq> {} \<and> quorumOf com (TC_View tc) (\<lambda>s. \<exists>w \<le> QC_View q. nodeTimedOut S s (TC_View tc) w) Q"
  using ValidateTC_quorum [OF flowVerifiers_sound [OF assms(1,2)] assms(3,4)] .

lemma ValidateProposal_evidence:
  assumes "ValidateProposal v p = Inr ()" "B_QC (P_Block p) = Some qc" "QC_View qc < B_View (P_Block p)"
  shows "evidence (B_View (P_Block p)) (B_QC (P_Block p)) (P_LastViewTC p)"
proof -
  obtain l where "checkEvidence p qc = Inr l" using assms(1,2) by (auto simp: ValidateProposal_ok)
  then show ?thesis using assms(2,3) by (auto simp: checkEvidence_ok evidence_def split: if_splits)
qed

text \<open>
  C13: the safety rules agree with the validator. For a proposal that \<open>ValidateProposal\<close> accepts, the
  safety rules' own checks of the evidence reduce to the comparison of the QC's view with the block's
  view: the proposal is safe to vote for iff its QC is older than the block and the replica has not
  yet acknowledged the block's view. \<open>ValidateProposal\<close> itself does not compare the two views.
\<close>

theorem valid_proposal_safe_to_vote:
  assumes "ValidateProposal v p = Inr ()"
  shows "IsSafeToVote p d = Inr () \<longleftrightarrow>
    qcView (B_QC (P_Block p)) < B_View (P_Block p) \<and> HighestAcknowledgedView d < B_View (P_Block p)"
proof -
  obtain qc where qc: "B_QC (P_Block p) = Some qc" using assms by (auto simp: ValidateProposal_ok)
  have "QC_View qc < B_View (P_Block p)"
    if "evidence (B_View (P_Block p)) (B_QC (P_Block p)) (P_LastViewTC p)"
      "HighestAcknowledgedView d < B_View (P_Block p)"
  proof -
    have "B_View (P_Block p) \<noteq> 0" using that(2) by auto
    then show ?thesis using that(1) qc word_add_one_cases [of "QC_View qc"] by (auto simp: evidence_def)
  qed
  with ValidateProposal_evidence [OF assms qc] qc show ?thesis
    by (auto simp: IsSafeToVote_ok qcView_def)
qed

section \<open>Errors and panics\<close>

lemma validPadding_errors: "validPadding v n = Inl e \<Longrightarrow> paddingError e"
proof -
  assume e: "validPadding v n = Inl e"
  have "MinimalByteSliceLength n \<noteq> 0" if "n AND 7 \<noteq> 0"
    using that MinimalByteSliceLength_bounds(1) [of n] by (cases "n = 0") auto
  then show ?thesis using e by (auto simp: validPadding_def Let_def paddingError_def split: if_splits)
qed

lemma decode_errors:
  assumes "decodeSignerIndices ids p = Inl e"
  shows "IsInvalidSignerIndicesError e"
proof (cases "CompareAndExtract ids p")
  case (Inl e')
  then have "errors_As (\<lambda>e. e = ErrInvalidChecksum) e'"
    by (auto simp: CompareAndExtract_def SplitCheckSum_def wrapf_def split: sum.splits if_splits)
  with assms Inl show ?thesis by (auto simp: decodeSignerIndices_def IsInvalidSignerIndicesError_def)
next
  case (Inr v)
  have "readLoop v [0..<length ids] = Inr (filter (bitAt v) [0..<length ids])"
    if "validPadding v (length ids) = Inr ()"
    using that MinimalByteSliceLength_bounds(1) [of "length ids"]
    by (intro readLoop_spec) (auto simp: validPadding_ok)
  with assms Inr validPadding_errors [of v "length ids"] show ?thesis
    by (auto simp: decodeSignerIndices_def Let_def IsInvalidSignerIndicesError_def
        split: sum.splits if_splits)
qed

lemma DecodeIdentities_errors:
  "DecodeSignerIndicesToIdentities il p = Inl e \<Longrightarrow> IsInvalidSignerIndicesError e"
  using decode_errors by (auto simp: DecodeSignerIndicesToIdentities_def split: sum.splits)

text \<open>
  Committees that do not panic, with positive thresholds and keys for all members; and verifiers
  that do not panic on signers with keys and refuse a TC without reported views.
\<close>

definition hasKey :: "Identity \<Rightarrow> bool" where
  "hasKey s \<longleftrightarrow> StakingPubKey s \<noteq> None"

definition quietCommittee :: "committee \<Rightarrow> bool" where
  "quietCommittee com \<longleftrightarrow>
     (\<forall>v. IdentitiesByEpoch com v \<noteq> Inl Panic \<and> LeaderForView com v \<noteq> Inl Panic
        \<and> QuorumThresholdForView com v \<noteq> Inl Panic \<and> QuorumThresholdForView com v \<noteq> Inr 0
        \<and> (\<forall>i. IdentityByEpoch com v i \<noteq> Inl Panic)
        \<and> (\<forall>il. IdentitiesByEpoch com v = Inr il \<longrightarrow> list_all hasKey il)
        \<and> (\<forall>i x. IdentityByEpoch com v i = Inr x \<longrightarrow> hasKey x))"

definition quietVerifier :: "verifier \<Rightarrow> bool" where
  "quietVerifier ver \<longleftrightarrow>
     (\<forall>s sig v b. hasKey s \<longrightarrow> VerifyVote ver s sig v b \<noteq> Inl Panic)
     \<and> (\<forall>ss sig v b. list_all hasKey ss \<longrightarrow> VerifyQC ver ss sig v b \<noteq> Inl Panic)
     \<and> (\<forall>ss sig v qs. list_all hasKey ss \<longrightarrow> VerifyTC ver ss sig v qs \<noteq> Inl Panic)
     \<and> (\<forall>ss sig v. ss \<noteq> [] \<longrightarrow> VerifyTC ver ss sig v [] \<noteq> Inr ())"

lemma Decode_hasKey:
  "\<lbrakk>list_all hasKey il; DecodeSignerIndicesToIdentities il p = Inr ss\<rbrakk> \<Longrightarrow> list_all hasKey ss"
  using DecodeSigners_subseq(1) by (fastforce simp: list_all_iff)

lemma wrapf_Panic [simp]: "wrapf e = Panic \<longleftrightarrow> e = Panic" "plainf e = Panic \<longleftrightarrow> e = Panic"
  by (simp_all add: wrapf_def plainf_def)

lemma newInvalid_not_Panic [simp]:
  "newInvalidQCError qc e \<noteq> Panic" "newInvalidTCError tc e \<noteq> Panic"
  "newInvalidBlockError b e \<noteq> Panic" "newInvalidVoteError w e \<noteq> Panic"
  by (simp_all add: newInvalidQCError_def newInvalidTCError_def newInvalidBlockError_def
      newInvalidVoteError_def)

lemma Panic_not_indices: "\<not> IsInvalidSignerIndicesError Panic"
  by (simp add: IsInvalidSignerIndicesError_def)

lemma quietCommitteeD:
  assumes "quietCommittee com"
  shows "IdentitiesByEpoch com v \<noteq> Inl Panic" "LeaderForView com v \<noteq> Inl Panic"
    "QuorumThresholdForView com v \<noteq> Inl Panic" "IdentityByEpoch com v i \<noteq> Inl Panic"
    "IdentityByEpoch com v i = Inr x \<Longrightarrow> hasKey x"
  using assms unfolding quietCommittee_def by blast+

lemma quiet_signers:
  "\<lbrakk>quietCommittee com; IdentitiesByEpoch com v = Inr il; DecodeSignerIndicesToIdentities il p = Inr ss\<rbrakk>
   \<Longrightarrow> list_all hasKey ss"
  unfolding quietCommittee_def by (meson Decode_hasKey)

lemma quiet_threshold:
  assumes "quietCommittee com" "QuorumThresholdForView com w = Inr t" "\<not> il_TotalWeight ss < t"
  shows "ss \<noteq> []"
proof -
  have "t \<noteq> 0" using assms(1,2) unfolding quietCommittee_def by metis
  then show ?thesis using assms(3) by (cases ss) (auto simp: il_TotalWeight_def word_gt_0)
qed

lemma quietVerifierD:
  assumes "quietVerifier ver"
  shows "hasKey s \<Longrightarrow> VerifyVote ver s sig v b \<noteq> Inl Panic"
    "list_all hasKey ss \<Longrightarrow> VerifyQC ver ss sig v b \<noteq> Inl Panic"
    "list_all hasKey ss \<Longrightarrow> VerifyTC ver ss sig v qs \<noteq> Inl Panic"
    "ss \<noteq> [] \<Longrightarrow> VerifyTC ver ss sig v [] \<noteq> Inr ()"
  using assms unfolding quietVerifier_def by blast+

lemma Decode_no_panic: "DecodeSignerIndicesToIdentities il p \<noteq> Inl Panic"
  using DecodeIdentities_errors Panic_not_indices by blast

lemma ValidateQC_no_panic:
  assumes "quietCommittee (vd_committee v)" "quietVerifier (vd_verifier v)"
  shows "ValidateQC v qc \<noteq> Inl Panic"
  using quietCommitteeD [OF assms(1)] Decode_no_panic
  by (auto simp: ValidateQC_def split: sum.splits if_splits
      dest: quiet_signers [OF assms(1)] quietVerifierD(2) [OF assms(2), rotated])

lemma ValidateVote_no_panic:
  assumes "quietCommittee (vd_committee v)" "quietVerifier (vd_verifier v)"
  shows "ValidateVote v w \<noteq> Inl Panic"
  using quietCommitteeD(4) [OF assms(1)]
  by (auto simp: ValidateVote_def split: sum.splits if_splits
      dest: quietCommitteeD(5) [OF assms(1)] quietVerifierD(1) [OF assms(2), rotated])

lemma ValidateTC_no_panic:
  assumes "quietCommittee (vd_committee v)" "quietVerifier (vd_verifier v)"
  shows "ValidateTC v tc \<noteq> Inl Panic"
proof
  assume p: "ValidateTC v tc = Inl Panic"
  then obtain il ss t where t: "IdentitiesByEpoch (vd_committee v) (TC_View tc) = Inr il"
    "DecodeSignerIndicesToIdentities il (TC_SignerIndices tc) = Inr ss"
    "QuorumThresholdForView (vd_committee v) (TC_View tc) = Inr t" "\<not> il_TotalWeight ss < t"
    using quietCommitteeD [OF assms(1)] Decode_no_panic
    by (auto simp: ValidateTC_def split: option.splits sum.splits if_splits)
  have "VerifyTC (vd_verifier v) ss sig w qs \<noteq> Inl Panic" for sig w qs
    using quietVerifierD(3) [OF assms(2) quiet_signers [OF assms(1) t(1,2)]] .
  moreover have "VerifyTC (vd_verifier v) ss sig w [] \<noteq> Inr ()" for sig w
    using quietVerifierD(4) [OF assms(2) quiet_threshold [OF assms(1) t(3,4)]] .
  ultimately show False
    using p t ValidateQC_no_panic [OF assms]
    by (auto simp: ValidateTC_def newestQCViewOf_max split: option.splits sum.splits if_splits)
qed

text \<open>
  C14: validation does not panic, with one exception. With a committee and verifier that do not
  panic, validating a vote, QC or TC never panics: in particular the access to the first element of
  \<open>NewestQCViews\<close> is guarded by the earlier checks. Validating a proposal with a QC panics exactly
  if its proposer is the view's leader with a valid signature and it carries a TC for the previous
  view without a QC: \<open>ValidateProposal\<close> reads the view of the TC's QC before \<open>ValidateTC\<close> checks
  that there is one.
\<close>

theorem validation_panics:
  assumes "quietCommittee (vd_committee v)" "quietVerifier (vd_verifier v)" "B_QC (P_Block p) = Some qc"
  shows "ValidateVote v w \<noteq> Inl Panic \<and> ValidateQC v q \<noteq> Inl Panic \<and> ValidateTC v tc \<noteq> Inl Panic
    \<and> (ValidateProposal v p = Inl Panic \<longleftrightarrow>
         (\<exists>i t. ValidateVote v (ProposerVote p) = Inr i
            \<and> LeaderForView (vd_committee v) (B_View (P_Block p)) = Inr (B_ProposerID (P_Block p))
            \<and> B_View (P_Block p) \<noteq> QC_View qc + 1 \<and> P_LastViewTC p = Some t
            \<and> B_View (P_Block p) = TC_View t + 1 \<and> TC_NewestQC t = None))"
proof -
  have ce: "checkEvidence p qc = Inl Panic \<longleftrightarrow> B_View (P_Block p) \<noteq> QC_View qc + 1
      \<and> (\<exists>t. P_LastViewTC p = Some t \<and> B_View (P_Block p) = TC_View t + 1 \<and> TC_NewestQC t = None)"
    by (auto simp: checkEvidence_def Let_def split: option.splits if_splits)
  have l: "l \<or> P_LastViewTC p \<noteq> None" if "checkEvidence p qc = Inr l" for l
    using that by (auto simp: checkEvidence_ok split: if_splits)
  have "LeaderForView (vd_committee v) (B_View (P_Block p)) \<noteq> Inl Panic"
    using assms(1) by (simp add: quietCommittee_def)
  then have "ValidateProposal v p = Inl Panic \<longleftrightarrow> (\<exists>i. ValidateVote v (ProposerVote p) = Inr i
      \<and> LeaderForView (vd_committee v) (B_View (P_Block p)) = Inr (B_ProposerID (P_Block p))
      \<and> checkEvidence p qc = Inl Panic)"
    using ValidateVote_no_panic [OF assms(1,2)] ValidateQC_no_panic [OF assms(1,2)]
      ValidateTC_no_panic [OF assms(1,2)] assms(3) l
    by (auto simp: ValidateProposal_def Let_def split: option.splits sum.splits if_splits)
  then show ?thesis
    unfolding ce using ValidateVote_no_panic [OF assms(1,2)] ValidateQC_no_panic [OF assms(1,2)]
      ValidateTC_no_panic [OF assms(1,2)] by blast
qed

section \<open>Examples\<close>

text \<open>
  The example committee with node 2 as leader, in which the nodes 1, 2 and 3 sign everything and
  node 4 nothing; QCs and TCs with the signers 1, 2 and 3.
\<close>

definition exampleWho :: "byte \<Rightarrow> bytes \<Rightarrow> hasher \<Rightarrow> bool" where
  "exampleWho b msg h \<longleftrightarrow> b \<in> {1, 2, 3}"

definition exampleLeaderCom :: committee where
  "exampleLeaderCom = exampleCom\<lparr>LeaderForView := \<lambda>_. Inr 2\<rparr>"

definition exampleVerifier :: verifier where
  "exampleVerifier = NewStakingVerifier (exampleBLS exampleWho)"

definition exampleValidator :: Validator where
  "exampleValidator = New_Validator exampleLeaderCom exampleVerifier"

definition exampleSignerIndices :: bytes where
  "exampleSignerIndices = PrefixCheckSum (il_NodeIDs exampleCommittee) [0xE0]"

definition exampleQuorumQC :: "uint64 \<Rightarrow> Identifier \<Rightarrow> QuorumCertificate" where
  "exampleQuorumQC v b =
     \<lparr>QC_View = v, QC_BlockID = b, QC_SignerIndices = exampleSignerIndices, QC_SigData = []\<rparr>"

definition exampleQuorumTC :: "uint64 \<Rightarrow> QuorumCertificate option \<Rightarrow> TimeoutCertificate" where
  "exampleQuorumTC v qc =
     \<lparr>TC_View = v, TC_NewestQCViews = replicate 3 (qcView qc), TC_NewestQC = qc,
      TC_SignerIndices = exampleSignerIndices, TC_SigData = []\<rparr>"

definition exampleTCProposal :: "uint64 \<Rightarrow> Identifier \<Rightarrow> QuorumCertificate \<Rightarrow> TimeoutCertificate option \<Rightarrow> Proposal" where
  "exampleTCProposal v i qc tc = (exampleProposal v i (Some qc))\<lparr>P_LastViewTC := tc\<rparr>"

lemma exampleDecode:
  "DecodeSignerIndicesToIdentities exampleCommittee exampleSignerIndices = Inr (take 3 exampleCommittee)"
proof -
  have "validPadding [0xE0] 4 = Inr ()" by code_simp
  moreover have "filter (bitAt [0xE0]) [0..<4] = [0, 1, 2]" by code_simp
  moreover have "length (il_NodeIDs exampleCommittee) = 4" by (simp add: il_NodeIDs_def exampleCommittee_def)
  ultimately have "decodeSignerIndices (il_NodeIDs exampleCommittee) exampleSignerIndices = Inr [0, 1, 2]"
    unfolding decode_ok exampleSignerIndices_def by metis
  then show ?thesis by (simp add: DecodeSignerIndicesToIdentities_def exampleCommittee_def)
qed

lemma exampleCommittee_ok: "committee_ok exampleCommittee"
  by (simp add: committee_ok_def weightsFit_def exampleCommittee_def IdentityListCanonical_iff
      exampleIdentity_def)

lemma exampleLeaderCom_sel:
  "IdentitiesByEpoch exampleLeaderCom v = Inr exampleCommittee"
  "QuorumThresholdForView exampleLeaderCom v = Inr 267"
  "LeaderForView exampleLeaderCom v = Inr 2"
  "IdentityByEpoch exampleLeaderCom v i
     = (case il_ByNodeID exampleCommittee i of None \<Rightarrow> Inl (InvalidSignerError Errorf) | Some x \<Rightarrow> Inr x)"
proof -
  have "NewStaticCommittee exampleCommittee 1 [] None
      = Inr \<lparr>st_participants = exampleCommittee, st_myID = 1, st_dkg = staticDKG [] None\<rparr>"
    using exampleCommittee_ok
    by (simp add: NewStaticCommittee_def NewStaticCommitteeWithDKG_def committee_ok_def)
  moreover have "WeightThresholdToBuildQC (il_TotalWeight exampleCommittee) = 267" by code_simp
  ultimately show "IdentitiesByEpoch exampleLeaderCom v = Inr exampleCommittee"
    "QuorumThresholdForView exampleLeaderCom v = Inr 267"
    "LeaderForView exampleLeaderCom v = Inr 2"
    "IdentityByEpoch exampleLeaderCom v i
     = (case il_ByNodeID exampleCommittee i of None \<Rightarrow> Inl (InvalidSignerError Errorf) | Some x \<Rightarrow> Inr x)"
    by (simp_all add: exampleLeaderCom_def exampleCom_def Static_committee_def Static_identity_def)
qed

lemma exampleKeys:
  "map StakingPubKey (take 3 exampleCommittee) = [Some [1], Some [2], Some [3]]"
  "il_TotalWeight (take 3 exampleCommittee) = 300" "length exampleCommittee = 4"
  "exampleCommittee \<noteq> []"
  by code_simp+

lemma exampleQC_valid: "ValidateQC exampleValidator (exampleQuorumQC v b) = Inr ()"
  by (simp add: ValidateQC_ok exampleValidator_def exampleLeaderCom_sel exampleQuorumQC_def exampleDecode
      exampleKeys exampleVerifier_def NewStakingVerifier_def StakingVerifier_VerifyQC_def
      verifyAggregatedSignatureOneMessage_def exampleBLS_def exampleSigned_def exampleWho_def
      il_PublicStakingKeys_map)

lemma replicate3: "replicate 3 x = [x, x, x]"
  by (simp add: numeral_3_eq_3)

lemma exampleTC_valid:
  assumes "qv \<le> v"
  shows "ValidateTC exampleValidator (exampleQuorumTC v (Some (exampleQuorumQC qv b))) = Inr ()"
proof -
  have "VerifyTC exampleVerifier (take 3 exampleCommittee) [] v [qv, qv, qv] = Inr ()"
    by (simp add: exampleVerifier_def NewStakingVerifier_def verifyTCSignatureManyMessages_def
        exampleBLS_def exampleSigned_def exampleWho_def il_PublicStakingKeys_map exampleKeys)
  with assms exampleQC_valid [of qv b] show ?thesis
    by (simp add: ValidateTC_ok exampleValidator_def exampleLeaderCom_sel exampleQuorumTC_def
        exampleDecode exampleKeys replicate3 qcView_def exampleQuorumQC_def)
qed

lemma exampleVote_valid:
  "ValidateVote exampleValidator (ProposerVote (exampleTCProposal v i qc tc)) = Inr (exampleIdentity 2 100)"
  by (simp add: ValidateVote_ok exampleValidator_def exampleLeaderCom_sel ProposerVote_def
      exampleTCProposal_def exampleProposal_def exampleBlock_def exampleCommittee_def exampleIdentity_def
      exampleVerifier_def NewStakingVerifier_def StakingVerifier_VerifyVote_def keyVerify_def
      exampleBLS_def exampleSigned_def exampleWho_def)

lemma exampleVerifier_flow: "exampleVerifier \<in> flowVerifiers (exampleBLS exampleWho) exampleCodec exampleLeaderCom"
  by (simp add: exampleVerifier_def flowVerifiers_def)

lemma exampleLeaderCom_ok: "committeeOk exampleLeaderCom"
  by (simp add: committeeOk_def exampleLeaderCom_sel exampleCommittee_ok)

theorem valid_QC_has_quorum_witness:
  "\<exists>Q. Q \<noteq> {} \<and> quorumOf exampleLeaderCom 5
     (\<lambda>s. nodeVoted (exampleSigned exampleWho) exampleLeaderCom s 5 55) Q"
  using valid_QC_has_quorum [OF exampleBLS_sound exampleVerifier_flow exampleLeaderCom_ok
      exampleQC_valid [of 5 55, unfolded exampleValidator_def]]
  by (simp add: exampleQuorumQC_def)

theorem valid_TC_has_quorum_witness:
  "\<exists>Q. Q \<noteq> {} \<and> quorumOf exampleLeaderCom 6
     (\<lambda>s. \<exists>w \<le> 5. nodeTimedOut (exampleSigned exampleWho) s 6 w) Q"
proof -
  have "ValidateTC exampleValidator (exampleQuorumTC 6 (Some (exampleQuorumQC 5 55))) = Inr ()"
    by (rule exampleTC_valid) simp
  from valid_TC_has_quorum [OF exampleBLS_sound exampleVerifier_flow exampleLeaderCom_ok
      this [unfolded exampleValidator_def]]
  show ?thesis by (auto simp: exampleQuorumTC_def exampleQuorumQC_def)
qed

text \<open>
  A proposal for view 7 with a TC for view 6 and a QC for view 5 is valid and safe; one for view 7
  with the same TC and a QC for view 9 is valid, too, but not safe.
\<close>

lemma exampleTCProposal_valid:
  assumes "qv \<noteq> 6" "5 \<le> qv"
  shows "ValidateProposal exampleValidator (exampleTCProposal 7 77 (exampleQuorumQC qv 55)
     (Some (exampleQuorumTC 6 (Some (exampleQuorumQC 5 55))))) = Inr ()"
proof -
  have "qv + 1 \<noteq> 7"
  proof
    assume "qv + 1 = 7"
    then have "qv = 7 - 1" by (metis add_diff_cancel)
    with assms(1) show False by simp
  qed
  then have "checkEvidence (exampleTCProposal 7 77 (exampleQuorumQC qv 55)
      (Some (exampleQuorumTC 6 (Some (exampleQuorumQC 5 55))))) (exampleQuorumQC qv 55) = Inr False"
    using assms(2) by (auto simp: checkEvidence_ok exampleTCProposal_def exampleProposal_def exampleBlock_def
        exampleQuorumQC_def exampleQuorumTC_def)
  moreover have "ValidateTC exampleValidator (exampleQuorumTC 6 (Some (exampleQuorumQC 5 55))) = Inr ()"
    by (rule exampleTC_valid) simp
  ultimately show ?thesis
    unfolding ValidateProposal_ok using exampleQC_valid exampleVote_valid [of 7 77]
    by (intro exI [of _ "exampleQuorumQC qv 55"] exI [of _ False])
      (simp add: exampleTCProposal_def exampleProposal_def exampleBlock_def exampleValidator_def
        exampleLeaderCom_sel)
qed

theorem valid_proposal_safe_to_vote_witness:
  "IsSafeToVote (exampleTCProposal 7 77 (exampleQuorumQC 5 55)
      (Some (exampleQuorumTC 6 (Some (exampleQuorumQC 5 55))))) exampleSafetyData = Inr ()
   \<and> IsSafeToVote (exampleTCProposal 7 77 (exampleQuorumQC 9 55)
      (Some (exampleQuorumTC 6 (Some (exampleQuorumQC 5 55))))) exampleSafetyData \<noteq> Inr ()"
  using valid_proposal_safe_to_vote [OF exampleTCProposal_valid [of 5], of exampleSafetyData]
    valid_proposal_safe_to_vote [OF exampleTCProposal_valid [of 9], of exampleSafetyData]
  by (simp add: exampleTCProposal_def exampleProposal_def exampleBlock_def exampleQuorumQC_def qcView_def
      exampleSafetyData_def)

lemma exampleLeaderCom_quiet: "quietCommittee exampleLeaderCom"
proof -
  have "list_all hasKey exampleCommittee"
    by (simp add: exampleCommittee_def exampleIdentity_def hasKey_def)
  moreover have "hasKey x" if "il_ByNodeID exampleCommittee i = Some x" for i x
    using il_ByNodeID_Some [OF that] calculation by (auto simp: list_all_iff)
  ultimately show ?thesis
    by (auto simp: quietCommittee_def exampleLeaderCom_sel split: option.splits)
qed

lemma exampleVerifier_quiet: "quietVerifier exampleVerifier"
proof -
  have "None \<notin> set (map StakingPubKey ss)" if "list_all hasKey ss" for ss
    using that by (auto simp: list_all_iff hasKey_def)
  then show ?thesis
    by (auto simp: quietVerifier_def exampleVerifier_def NewStakingVerifier_def hasKey_def
        StakingVerifier_VerifyVote_def StakingVerifier_VerifyQC_def keyVerify_def
        verifyAggregatedSignatureOneMessage_def verifyTCSignatureManyMessages_def exampleBLS_def
        il_PublicStakingKeys_map split: option.splits if_splits)
qed

theorem validation_panics_witness:
  "ValidateProposal exampleValidator (exampleTCProposal 7 77 (exampleQuorumQC 5 55)
      (Some (exampleQuorumTC 6 None))) = Inl Panic"
  using validation_panics [of exampleValidator "exampleTCProposal 7 77 (exampleQuorumQC 5 55)
      (Some (exampleQuorumTC 6 None))" "exampleQuorumQC 5 55"]
    exampleLeaderCom_quiet exampleVerifier_quiet exampleVote_valid
  by (simp add: exampleValidator_def exampleTCProposal_def exampleProposal_def exampleBlock_def
      exampleQuorumTC_def exampleQuorumQC_def exampleLeaderCom_sel)

end
