(* ===== verification/Event_Handler.thy ===== *)
theory Event_Handler
  imports Forks Safety_Rules Pacemaker
begin

text \<open>
  \<open>consensus/hotstuff/eventhandler\<close> and \<open>consensus/hotstuff/blockproducer\<close>: the single-threaded
  state machine that connects pacemaker, forks, safety rules and block producer.

  Pacemaker and safety rules write to one database: each holds the current contents, and a call
  of one hands the new contents to the other. Notifications are appended to \<open>eh_events\<close>. A handler
  returns a result and the new state, also if it fails. The clock reading \<open>now\<close> is the same within
  one handler call; it appears only in notifications. The block builder is a parameter, whose
  answer may depend on everything that was notified before.
\<close>

section \<open>State\<close>

record PartialTcCreated =
  PTC_View :: uint64
  PTC_NewestQC :: "QuorumCertificate option"
  PTC_LastViewTC :: "TimeoutCertificate option"

datatype eh_event =
    EvOnStart uint64
  | EvOnReceiveQc uint64 QuorumCertificate
  | EvOnReceiveTc uint64 TimeoutCertificate
  | EvOnReceiveProposal uint64 Proposal
  | EvOnLocalTimeout uint64
  | EvOnPartialTc uint64 PartialTcCreated
  | EvOnEventProcessed
  | EvOnCurrentViewDetails uint64 uint64 Identifier
  | EvOnOwnVote Identifier uint64 bytes Identifier
  | EvOnOwnTimeout TimeoutObject
  | EvOnOwnProposal Header int

record 'db environment =
  env_putLiveness :: "LivenessData \<Rightarrow> 'db \<Rightarrow> unit result \<times> 'db"
  env_putSafety :: "SafetyData \<Rightarrow> 'db \<Rightarrow> unit result \<times> 'db"
  env_signer :: signer
  env_committee :: committee
  env_finalizer :: finalizer
  env_builder :: "eh_event list \<Rightarrow> Identifier \<Rightarrow> (Header \<Rightarrow> Header result) \<Rightarrow> Header result"
  env_headerID :: "Header \<Rightarrow> Identifier"

record 'db EventHandler =
  paceMaker :: "'db PaceMaker"
  eh_forks :: Forks
  safetyRules :: "'db SafetyRules"
  eh_events :: "eh_event list"

definition NewEventHandler :: "'db PaceMaker \<Rightarrow> Forks \<Rightarrow> 'db SafetyRules \<Rightarrow> 'db EventHandler result" where
  "NewEventHandler pm f sr =
     Inr \<lparr>paceMaker = pm, eh_forks = f, safetyRules = sr, eh_events = []\<rparr>"

definition notify :: "eh_event \<Rightarrow> 'db EventHandler \<Rightarrow> 'db EventHandler" where
  "notify ev e = e\<lparr>eh_events := eh_events e @ [ev]\<rparr>"

text \<open>Sequencing: an error of \<open>m\<close>, wrapped by \<open>w\<close>, ends the handler. \<open>defer\<close> runs on every return.\<close>

definition andThen ::
  "('s \<Rightarrow> 'a result \<times> 's) \<Rightarrow> (error \<Rightarrow> error) \<Rightarrow> ('a \<Rightarrow> 's \<Rightarrow> 'b result \<times> 's) \<Rightarrow> 's \<Rightarrow> 'b result \<times> 's" where
  "andThen m w k s = (case m s of (Inl err, s') \<Rightarrow> (Inl (w err), s') | (Inr a, s') \<Rightarrow> k a s')"

definition deferNotify ::
  "eh_event \<Rightarrow> ('db EventHandler \<Rightarrow> 'a result \<times> 'db EventHandler) \<Rightarrow> 'db EventHandler \<Rightarrow> 'a result \<times> 'db EventHandler" where
  "deferNotify ev m e = (case m e of (r, e') \<Rightarrow> (r, notify ev e'))"

text \<open>Calls of the components on the shared database.\<close>

definition callPaceMaker ::
  "('db PaceMaker \<Rightarrow> 'a result \<times> 'db PaceMaker) \<Rightarrow> 'db EventHandler \<Rightarrow> 'a result \<times> 'db EventHandler" where
  "callPaceMaker op e =
     (case op (paceMaker e) of
        (r, pm) \<Rightarrow> (r, e\<lparr>paceMaker := pm, safetyRules := (safetyRules e)\<lparr>sr_db := pm_db pm\<rparr>\<rparr>))"

definition callSafetyRules ::
  "('db SafetyRules \<Rightarrow> 'a result \<times> 'db SafetyRules) \<Rightarrow> 'db EventHandler \<Rightarrow> 'a result \<times> 'db EventHandler" where
  "callSafetyRules op e =
     (case op (safetyRules e) of
        (r, sr) \<Rightarrow> (r, e\<lparr>safetyRules := sr, paceMaker := (paceMaker e)\<lparr>pm_db := sr_db sr\<rparr>\<rparr>))"

definition addToForks :: "'db environment \<Rightarrow> Proposal \<Rightarrow> 'db EventHandler \<Rightarrow> unit result \<times> 'db EventHandler" where
  "addToForks env proposal e =
     (case AddProposal (env_finalizer env) proposal (eh_forks e) of
        (r, f) \<Rightarrow> (r, e\<lparr>eh_forks := f\<rparr>))"

definition processQC ::
  "'db environment \<Rightarrow> int \<Rightarrow> QuorumCertificate option \<Rightarrow> 'db EventHandler \<Rightarrow> TimerInfo option result \<times> 'db EventHandler" where
  "processQC env now qc = callPaceMaker (ProcessQC (env_putLiveness env) now qc)"

definition processTC ::
  "'db environment \<Rightarrow> int \<Rightarrow> TimeoutCertificate option \<Rightarrow> 'db EventHandler \<Rightarrow> TimerInfo option result \<times> 'db EventHandler" where
  "processTC env now tc = callPaceMaker (ProcessTC (env_putLiveness env) now tc)"

section \<open>Block producer\<close>

definition setHotstuffFields ::
  "'db environment \<Rightarrow> uint64 \<Rightarrow> QuorumCertificate \<Rightarrow> TimeoutCertificate option \<Rightarrow> Header \<Rightarrow> Header result" where
  "setHotstuffFields env view qc lastViewTC header =
     (let header1 = header\<lparr>H_View := view, H_ParentView := QC_View qc,
            H_ParentVoterIndices := QC_SignerIndices qc, H_ParentVoterSigData := QC_SigData qc,
            H_ProposerID := Self (env_committee env), H_LastViewTC := lastViewTC\<rparr>;
          block = \<lparr>B_View = view, B_BlockID = env_headerID env header1, B_ProposerID = H_ProposerID header1,
            B_QC = Some qc, B_PayloadHash = H_PayloadHash header1, B_Timestamp = H_Timestamp header1\<rparr> in
      case CreateProposal (env_signer env) block of
        Inl err \<Rightarrow> Inl (wrapf err)
      | Inr proposal \<Rightarrow> Inr (header1\<lparr>H_ProposerSigData := P_SigData proposal\<rparr>))"

definition MakeBlockProposal ::
  "'db environment \<Rightarrow> eh_event list \<Rightarrow> uint64 \<Rightarrow> QuorumCertificate \<Rightarrow> TimeoutCertificate option \<Rightarrow> Header result" where
  "MakeBlockProposal env evs view qc lastViewTC =
     (case env_builder env evs (QC_BlockID qc) (setHotstuffFields env view qc lastViewTC) of
        Inl err \<Rightarrow> Inl (wrapf err)
      | Inr header \<Rightarrow> Inr header)"

section \<open>Voting, proposing and timing out\<close>

definition ownVote ::
  "'db environment \<Rightarrow> Proposal \<Rightarrow> uint64 \<Rightarrow> Identifier \<Rightarrow> 'db EventHandler \<Rightarrow> unit result \<times> 'db EventHandler" where
  "ownVote env proposal curView nextLeader e =
     (case B_QC (P_Block proposal) of
        None \<Rightarrow> (Inl Panic, e)
      | Some qc \<Rightarrow>
          if GetProposal (eh_forks e) (QC_BlockID qc) = None then (Inl Errorf, e)
          else (case callSafetyRules
                       (ProduceVote (env_signer env) (env_committee env) (env_putSafety env) proposal curView) e of
                  (Inl err, e') \<Rightarrow> if \<not> IsNoVoteError err then (Inl (wrapf err), e') else (Inr (), e')
                | (Inr vote, e') \<Rightarrow>
                    (Inr (), notify (EvOnOwnVote (V_BlockID vote) (V_View vote) (V_SigData vote) nextLeader) e')))"

definition processBlockForCurrentView ::
  "'db environment \<Rightarrow> Proposal \<Rightarrow> 'db EventHandler \<Rightarrow> unit result \<times> 'db EventHandler" where
  "processBlockForCurrentView env proposal e =
     (let curView = CurView (paceMaker e) in
      if B_View (P_Block proposal) \<noteq> curView then (Inr (), e)
      else case LeaderForView (env_committee env) (curView + 1) of
        Inl err \<Rightarrow>
          if errors_As (\<lambda>e. e = ErrViewForUnknownEpoch) err then (Inl Errorf, e) else (Inl (wrapf err), e)
      | Inr nextLeader \<Rightarrow>
          (case ownVote env proposal curView nextLeader e of
             (Inl err, e') \<Rightarrow> (Inl (wrapf err), e')
           | (Inr _, e') \<Rightarrow> (Inr (), e')))"

text \<open>The last part of \<open>proposeForNewViewIfPrimary\<close>: make, store and announce the proposal.\<close>

definition proposeWith ::
  "'db environment \<Rightarrow> int \<Rightarrow> QuorumCertificate \<Rightarrow> TimeoutCertificate option \<Rightarrow> 'db EventHandler \<Rightarrow> unit result \<times> 'db EventHandler" where
  "proposeWith env start newestQC lastViewTC e =
     (case MakeBlockProposal env (eh_events e) (CurView (paceMaker e)) newestQC lastViewTC of
        Inl err \<Rightarrow> (Inl (wrapf err), e)
      | Inr flowProposal \<Rightarrow>
          andThen (addToForks env (ProposalFromFlow (env_headerID env) flowProposal)) wrapf
            (\<lambda>_ e. (Inr (), notify (EvOnOwnProposal flowProposal
                (start + BlockRateDelay (timeoutControl (paceMaker e)))) e)) e)"

definition proposeForNewViewIfPrimary ::
  "'db environment \<Rightarrow> int \<Rightarrow> 'db EventHandler \<Rightarrow> unit result \<times> 'db EventHandler" where
  "proposeForNewViewIfPrimary env start e =
     (let com = env_committee env; curView = CurView (paceMaker e) in
      case LeaderForView com curView of
        Inl err \<Rightarrow> (Inl (wrapf err), e)
      | Inr currentLeader \<Rightarrow>
          let e1 = notify (EvOnCurrentViewDetails curView (FinalizedView (eh_forks e)) currentLeader) e in
          if Self com \<noteq> currentLeader then (Inr (), e1)
          else if list_ex (\<lambda>p. B_ProposerID (P_Block p) = Self com) (GetProposalsForView (eh_forks e1) curView)
          then (Inr (), e1)
          else (case NewestQC (paceMaker e1) of
                  None \<Rightarrow> (Inl Panic, e1)
                | Some newestQC \<Rightarrow>
                    if GetProposal (eh_forks e1) (QC_BlockID newestQC) = None then (Inr (), e1)
                    else if QC_View newestQC + 1 \<noteq> curView
                    then (case LastViewTC (paceMaker e1) of
                            None \<Rightarrow> (Inl Errorf, e1)
                          | Some tc \<Rightarrow>
                              if TC_View tc + 1 \<noteq> curView then (Inl Errorf, e1)
                              else proposeWith env start newestQC (Some tc) e1)
                    else proposeWith env start newestQC None e1))"

definition broadcastTimeoutObjectIfAuthorized ::
  "'db environment \<Rightarrow> 'db EventHandler \<Rightarrow> unit result \<times> 'db EventHandler" where
  "broadcastTimeoutObjectIfAuthorized env e =
     (let curView = CurView (paceMaker e) in
      case NewestQC (paceMaker e) of
        None \<Rightarrow> (Inl Panic, e)
      | Some newestQC \<Rightarrow>
          let lastViewTC = (if QC_View newestQC + 1 = curView then None else LastViewTC (paceMaker e)) in
          (case callSafetyRules (ProduceTimeout (env_signer env) (env_committee env) (env_putSafety env)
                   curView (Some newestQC) lastViewTC) e of
             (Inl err, e') \<Rightarrow> if IsNoTimeoutError err then (Inr (), e') else (Inl (wrapf err), e')
           | (Inr timeout, e') \<Rightarrow> (Inr (), notify (EvOnOwnTimeout timeout) e')))"

section \<open>Event handlers\<close>

definition OnReceiveQc ::
  "'db environment \<Rightarrow> int \<Rightarrow> QuorumCertificate \<Rightarrow> 'db EventHandler \<Rightarrow> unit result \<times> 'db EventHandler" where
  "OnReceiveQc env now qc e =
     deferNotify EvOnEventProcessed
       (andThen (processQC env now (Some qc)) wrapf
          (\<lambda>newViewEvent e. if newViewEvent = None then (Inr (), e) else proposeForNewViewIfPrimary env now e))
       (notify (EvOnReceiveQc (CurView (paceMaker e)) qc) e)"

definition OnReceiveTc ::
  "'db environment \<Rightarrow> int \<Rightarrow> TimeoutCertificate \<Rightarrow> 'db EventHandler \<Rightarrow> unit result \<times> 'db EventHandler" where
  "OnReceiveTc env now tc e =
     (if TC_NewestQC tc = None then (Inl Panic, e)
      else deferNotify EvOnEventProcessed
       (andThen (processTC env now (Some tc)) wrapf
          (\<lambda>newViewEvent e. if newViewEvent = None then (Inr (), e) else proposeForNewViewIfPrimary env now e))
       (notify (EvOnReceiveTc (CurView (paceMaker e)) tc) e))"

definition OnReceiveProposal ::
  "'db environment \<Rightarrow> int \<Rightarrow> Proposal \<Rightarrow> 'db EventHandler \<Rightarrow> unit result \<times> 'db EventHandler" where
  "OnReceiveProposal env now proposal e =
     (let block = P_Block proposal in
      if B_QC block = None then (Inl Panic, e)
      else deferNotify EvOnEventProcessed
       (\<lambda>e. if B_View block < FinalizedView (eh_forks e) then (Inr (), e)
            else andThen (addToForks env proposal) wrapf (\<lambda>_.
                 andThen (processQC env now (B_QC block)) wrapf (\<lambda>_.
                 andThen (processTC env now (P_LastViewTC proposal)) wrapf (\<lambda>_.
                 andThen (processBlockForCurrentView env proposal) wrapf (\<lambda>_ e.
                   if B_View block = CurView (paceMaker e) then (Inr (), e)
                   else proposeForNewViewIfPrimary env now e)))) e)
       (notify (EvOnReceiveProposal (CurView (paceMaker e)) proposal) e))"

definition OnLocalTimeout :: "'db environment \<Rightarrow> 'db EventHandler \<Rightarrow> unit result \<times> 'db EventHandler" where
  "OnLocalTimeout env e =
     deferNotify EvOnEventProcessed
       (andThen (broadcastTimeoutObjectIfAuthorized env) wrapf (\<lambda>_ e. (Inr (), e)))
       (notify (EvOnLocalTimeout (CurView (paceMaker e))) e)"

definition OnPartialTcCreated ::
  "'db environment \<Rightarrow> int \<Rightarrow> PartialTcCreated \<Rightarrow> 'db EventHandler \<Rightarrow> unit result \<times> 'db EventHandler" where
  "OnPartialTcCreated env now partialTC e =
     (if PTC_NewestQC partialTC = None then (Inl Panic, e)
      else deferNotify EvOnEventProcessed
       (andThen (processQC env now (PTC_NewestQC partialTC)) wrapf (\<lambda>_.
        andThen (processTC env now (PTC_LastViewTC partialTC)) wrapf (\<lambda>_ e.
          if CurView (paceMaker e) \<noteq> PTC_View partialTC then (Inr (), e)
          else andThen (broadcastTimeoutObjectIfAuthorized env) wrapf (\<lambda>_ e. (Inr (), e)) e)))
       (notify (EvOnPartialTc (CurView (paceMaker e)) partialTC) e))"

section \<open>Start\<close>

fun processPending ::
  "'db environment \<Rightarrow> int \<Rightarrow> Proposal list \<Rightarrow> 'db EventHandler \<Rightarrow> unit result \<times> 'db EventHandler" where
  "processPending env now [] e = (Inr (), e)"
| "processPending env now (proposal # rest) e =
     andThen (processQC env now (B_QC (P_Block proposal))) wrapf (\<lambda>_.
     andThen (processTC env now (P_LastViewTC proposal)) wrapf (\<lambda>_.
     processPending env now rest)) e"

text \<open>
  The loop of \<open>processPendingBlocks\<close>. It increments a 64-bit view until it is above the newest
  view of Forks, so it does not end if this is the largest 64-bit number.
\<close>

partial_function (option) pendingLoop ::
  "'db environment \<Rightarrow> int \<Rightarrow> uint64 \<Rightarrow> uint64 \<Rightarrow> 'db EventHandler \<Rightarrow> (unit result \<times> 'db EventHandler) option" where
  "pendingLoop env now newest currentView e =
     (let paceMakerActiveView = CurView (paceMaker e);
          currentView' = (if currentView < paceMakerActiveView then paceMakerActiveView else currentView) in
      if newest < currentView' then Some (Inr (), e)
      else case processPending env now (GetProposalsForView (eh_forks e) currentView') e of
        (Inl err, e') \<Rightarrow> Some (Inl err, e')
      | (Inr _, e') \<Rightarrow> pendingLoop env now newest (currentView' + 1) e')"

declare pendingLoop.simps [code]

definition processPendingBlocks ::
  "'db environment \<Rightarrow> int \<Rightarrow> 'db EventHandler \<Rightarrow> (unit result \<times> 'db EventHandler) option" where
  "processPendingBlocks env now e =
     pendingLoop env now (NewestView (eh_forks e)) (CurView (paceMaker e)) e"

text \<open>\<open>None\<close>: the handler does not return.\<close>

definition Start_EventHandler ::
  "'db environment \<Rightarrow> int \<Rightarrow> 'db EventHandler \<Rightarrow> (unit result \<times> 'db EventHandler) option" where
  "Start_EventHandler env now e =
     (let e1 = notify (EvOnStart (CurView (paceMaker e))) e;
          e2 = e1\<lparr>paceMaker := Start_PaceMaker now (paceMaker e1)\<rparr> in
      case processPendingBlocks env now e2 of
        None \<Rightarrow> None
      | Some (Inl err, e3) \<Rightarrow> Some (Inl (wrapf err), notify EvOnEventProcessed e3)
      | Some (Inr _, e3) \<Rightarrow>
          Some (deferNotify EvOnEventProcessed
            (andThen (proposeForNewViewIfPrimary env now) wrapf (\<lambda>_ e. (Inr (), e))) e3))"

section \<open>Runs with crashes\<close>

datatype eh_input =
    ReceiveQc QuorumCertificate
  | ReceiveTc TimeoutCertificate
  | ReceiveProposal Proposal
  | LocalTimeout
  | PartialTc PartialTcCreated
  | StartUp

definition handle ::
  "'db environment \<Rightarrow> int \<Rightarrow> eh_input \<Rightarrow> 'db EventHandler \<Rightarrow> (unit result \<times> 'db EventHandler) option" where
  "handle env now i e =
     (case i of
        ReceiveQc qc \<Rightarrow> Some (OnReceiveQc env now qc e)
      | ReceiveTc tc \<Rightarrow> Some (OnReceiveTc env now tc e)
      | ReceiveProposal p \<Rightarrow> Some (OnReceiveProposal env now p e)
      | LocalTimeout \<Rightarrow> Some (OnLocalTimeout env e)
      | PartialTc ptc \<Rightarrow> Some (OnPartialTcCreated env now ptc e)
      | StartUp \<Rightarrow> Start_EventHandler env now e)"

text \<open>Inputs are validated before: the QC inside a TC is not newer than the TC.\<close>

definition optTcOk :: "TimeoutCertificate option \<Rightarrow> bool" where
  "optTcOk tc \<longleftrightarrow> (\<forall>t. tc = Some t \<longrightarrow> tcOk t)"

definition inputOk :: "eh_input \<Rightarrow> 'db EventHandler \<Rightarrow> bool" where
  "inputOk i e \<longleftrightarrow>
     (case i of
        ReceiveTc tc \<Rightarrow> tcOk tc
      | ReceiveProposal p \<Rightarrow> optTcOk (P_LastViewTC p)
      | PartialTc ptc \<Rightarrow> optTcOk (PTC_LastViewTC ptc)
      | StartUp \<Rightarrow> (\<forall>v. \<forall>p\<in>set (GetProposalsForView (eh_forks e) v). optTcOk (P_LastViewTC p))
      | _ \<Rightarrow> True)"

text \<open>A new process: pacemaker and safety rules read the database, Forks is recovered otherwise.\<close>

definition boots ::
  "('db \<Rightarrow> LivenessData result) set \<Rightarrow> ('db \<Rightarrow> SafetyData result) set \<Rightarrow> 'db \<Rightarrow> 'db EventHandler \<Rightarrow> bool" where
  "boots getsL getsS db e \<longleftrightarrow>
     (\<exists>gL\<in>getsL. \<exists>gS\<in>getsS. \<exists>ctl pm sr f. New_PaceMaker gL ctl db = Inr pm
        \<and> New_SafetyRules gS db = Inr sr \<and> NewEventHandler pm f sr = Inr e)"

text \<open>
  The states of a replica over its lifetime: handlers that succeed, handlers that fail, which ends
  the process, and restarts at any point. Each step has its own environment, so the faults of the
  database, the signer and the committee may differ from call to call.
\<close>

inductive eh_run ::
  "('db \<Rightarrow> LivenessData result) set \<Rightarrow> (LivenessData \<Rightarrow> 'db \<Rightarrow> unit result \<times> 'db) set
    \<Rightarrow> ('db \<Rightarrow> SafetyData result) set \<Rightarrow> (SafetyData \<Rightarrow> 'db \<Rightarrow> unit result \<times> 'db) set
    \<Rightarrow> 'db \<Rightarrow> 'db EventHandler \<Rightarrow> bool"
  for getsL putsL getsS putsS db0
where
  booted: "boots getsL getsS db0 e \<Longrightarrow> eh_run getsL putsL getsS putsS db0 e"
| handled: "\<lbrakk>eh_run getsL putsL getsS putsS db0 e; env_putLiveness env \<in> putsL; env_putSafety env \<in> putsS;
      inputOk i e; handle env now i e = Some (Inr (), e')\<rbrakk>
    \<Longrightarrow> eh_run getsL putsL getsS putsS db0 e'"
| failed: "\<lbrakk>eh_run getsL putsL getsS putsS db0 e; env_putLiveness env \<in> putsL; env_putSafety env \<in> putsS;
      inputOk i e; handle env now i e = Some (Inl err, e1);
      boots getsL getsS (pm_db (paceMaker e1)) e'\<rbrakk>
    \<Longrightarrow> eh_run getsL putsL getsS putsS db0 e'"
| crashed: "\<lbrakk>eh_run getsL putsL getsS putsS db0 e; boots getsL getsS (pm_db (paceMaker e)) e'\<rbrakk>
    \<Longrightarrow> eh_run getsL putsL getsS putsS db0 e'"

section \<open>Reasoning about handlers\<close>

text \<open>From a state with \<open>P\<close>, a success ends with \<open>Q\<close> and a failure with \<open>E\<close>.\<close>

definition triple ::
  "('s \<Rightarrow> bool) \<Rightarrow> ('s \<Rightarrow> 'a result \<times> 's) \<Rightarrow> ('a \<Rightarrow> 's \<Rightarrow> bool) \<Rightarrow> ('s \<Rightarrow> bool) \<Rightarrow> bool" where
  "triple P m Q E \<longleftrightarrow> (\<forall>s a s'. P s \<and> m s = (a, s') \<longrightarrow> (case a of Inl _ \<Rightarrow> E s' | Inr x \<Rightarrow> Q x s'))"

lemma tripleI:
  "(\<And>s a s'. \<lbrakk>P s; m s = (a, s')\<rbrakk> \<Longrightarrow> case a of Inl _ \<Rightarrow> E s' | Inr x \<Rightarrow> Q x s') \<Longrightarrow> triple P m Q E"
  unfolding triple_def by blast

lemma tripleD: "\<lbrakk>triple P m Q E; P s; m s = (a, s')\<rbrakk> \<Longrightarrow> case a of Inl _ \<Rightarrow> E s' | Inr x \<Rightarrow> Q x s'"
  by (simp add: triple_def)

lemma triple_andThen:
  assumes "triple P m Q E" "\<And>x. triple (Q x) (k x) R E"
  shows "triple P (andThen m w k) R E"
proof (rule tripleI)
  fix s a s' assume "P s" and at: "andThen m w k s = (a, s')"
  obtain b t where b: "m s = (b, t)" by (cases "m s")
  note bt = tripleD [OF assms(1) \<open>P s\<close> b]
  show "case a of Inl _ \<Rightarrow> E s' | Inr x \<Rightarrow> R x s'"
  proof (cases b)
    case (Inl err)
    with b at bt show ?thesis by (auto simp: andThen_def)
  next
    case (Inr x)
    then have "k x t = (a, s')" "Q x t" using b at bt by (auto simp: andThen_def)
    with tripleD [OF assms(2)] show ?thesis by blast
  qed
qed

lemma triple_weaken:
  assumes "triple P m Q E" "\<And>s. P' s \<Longrightarrow> P s" "\<And>x s. Q x s \<Longrightarrow> Q' x s"
  shows "triple P' m Q' E"
proof (rule tripleI)
  fix s a s' assume "P' s" "m s = (a, s')"
  from tripleD [OF assms(1) assms(2) [OF this(1)] this(2)] assms(3)
  show "case a of Inl _ \<Rightarrow> E s' | Inr x \<Rightarrow> Q' x s'" by (auto split: sum.splits)
qed

lemma triple_if:
  assumes "\<And>s. b s \<Longrightarrow> triple (\<lambda>t. P t \<and> t = s) m Q E" "\<And>s. \<not> b s \<Longrightarrow> triple (\<lambda>t. P t \<and> t = s) n Q E"
  shows "triple P (\<lambda>s. if b s then m s else n s) Q E"
  using assms by (force simp: triple_def)

lemma triple_return: "(\<And>s. P s \<Longrightarrow> Q x s) \<Longrightarrow> triple P (\<lambda>s. (Inr x, s)) Q E"
  by (simp add: triple_def)

lemma triple_defer:
  assumes "triple P m Q E" "\<And>x s. Q x s \<Longrightarrow> Q x (notify ev s)" "\<And>s. E s \<Longrightarrow> E (notify ev s)"
  shows "triple P (deferNotify ev m) Q E"
proof (rule tripleI)
  fix s a s' assume "P s" and d: "deferNotify ev m s = (a, s')"
  obtain b t where b: "m s = (b, t)" by (cases "m s")
  then have "a = b" "s' = notify ev t" using d by (auto simp: deferNotify_def)
  then show "case a of Inl _ \<Rightarrow> E s' | Inr x \<Rightarrow> Q x s'"
    using tripleD [OF assms(1) \<open>P s\<close> b] assms(2,3) by (auto split: sum.splits)
qed

section \<open>The invariant that connects pacemaker and safety rules\<close>

text \<open>
  The safety rules never run ahead of the pacemaker: the lock is not newer than the newest QC and
  the acknowledged view not above the current one.
\<close>

definition inStep :: "LivenessData \<Rightarrow> SafetyData \<Rightarrow> bool" where
  "inStep l d \<longleftrightarrow> LockedOneChainView d \<le> qcView (LD_NewestQC l) \<and> HighestAcknowledgedView d \<le> LD_CurrentView l"

definition diskOk :: "('db \<Rightarrow> LivenessData result) \<Rightarrow> ('db \<Rightarrow> SafetyData result) \<Rightarrow> 'db \<Rightarrow> bool" where
  "diskOk getL getS db \<longleftrightarrow> (\<forall>l d. getL db = Inr l \<and> getS db = Inr d \<longrightarrow> ldOk l \<and> inStep l d)"

definition ehInv :: "('db \<Rightarrow> LivenessData result) \<Rightarrow> ('db \<Rightarrow> SafetyData result) \<Rightarrow> 'db EventHandler \<Rightarrow> bool" where
  "ehInv getL getS e \<longleftrightarrow>
     (let l = livenessData (paceMaker e); db = pm_db (paceMaker e) in
      sr_db (safetyRules e) = db \<and> getL db = Inr l \<and> ldOk l \<and> inStep l (safetyData (safetyRules e))
      \<and> (\<forall>d. getS db = Inr d \<longrightarrow> inStep l d))"

definition ehOut :: "('db \<Rightarrow> LivenessData result) \<Rightarrow> ('db \<Rightarrow> SafetyData result) \<Rightarrow> 'db EventHandler \<Rightarrow> bool" where
  "ehOut getL getS e \<longleftrightarrow> diskOk getL getS (pm_db (paceMaker e))"

lemma ehInv_ehOut: "ehInv getL getS e \<Longrightarrow> ehOut getL getS e"
  by (auto simp: ehInv_def ehOut_def diskOk_def Let_def)

lemma ehInv_frame [simp]:
  "ehInv getL getS (notify ev e) = ehInv getL getS e"
  "ehInv getL getS (e\<lparr>eh_forks := f\<rparr>) = ehInv getL getS e"
  "ehOut getL getS (notify ev e) = ehOut getL getS e"
  "ehOut getL getS (e\<lparr>eh_forks := f\<rparr>) = ehOut getL getS e"
  by (simp_all add: ehInv_def ehOut_def notify_def)

lemma notify_sel [simp]:
  "paceMaker (notify ev e) = paceMaker e" "safetyRules (notify ev e) = safetyRules e"
  "eh_forks (notify ev e) = eh_forks e"
  by (simp_all add: notify_def)

lemma inStep_withCert:
  assumes "ldOk l" "certOk c" "inStep l d"
  shows "inStep (withCert c l) d"
  using withCert_grows [OF assms(1,2)] assms(3) unfolding inStep_def by (meson order_trans)

lemma processPending_forks: "processPending env now ps e = (a, e') \<Longrightarrow> eh_forks e' = eh_forks e"
proof (induction ps arbitrary: e)
  case (Cons p ps)
  have call: "eh_forks e2 = eh_forks e1" if "callPaceMaker op e1 = (b, e2)" for op e1 b e2
    using that by (auto simp: callPaceMaker_def split: prod.splits)
  from Cons show ?case
    by (auto simp: andThen_def processQC_def processTC_def split: prod.splits sum.splits dest!: call)
qed simp

locale shared_store =
  S: persister getS getsS putsS + L: persister getL getsL putsL
  for getS :: "'db \<Rightarrow> SafetyData result" and getsS and putsS
  and getL :: "'db \<Rightarrow> LivenessData result" and getsL and putsL +
  assumes frameS: "\<lbrakk>put \<in> putsS; put d db = (r, db')\<rbrakk> \<Longrightarrow> getL db' = getL db"
    and frameL: "\<lbrakk>put' \<in> putsL; put' l db = (r, db')\<rbrakk> \<Longrightarrow> getS db' = getS db"
begin

lemma boot_inv:
  assumes "boots getsL getsS db e" "diskOk getL getS db"
  shows "ehInv getL getS e"
proof -
  obtain gL gS ctl pm sr f where b: "gL \<in> getsL" "gS \<in> getsS" "New_PaceMaker gL ctl db = Inr pm"
    "New_SafetyRules gS db = Inr sr" "NewEventHandler pm f sr = Inr e"
    using assms(1) by (auto simp: boots_def)
  have "pm_db pm = db" "getL db = Inr (livenessData pm)"
    using New_PaceMaker_ok [OF b(3)] L.get_ok [OF b(1)] by auto
  moreover have "sr_db sr = db" "getS db = Inr (safetyData sr)"
    using b(4) S.get_ok [OF b(2)] by (auto simp: New_SafetyRules_def split: sum.splits)
  ultimately show ?thesis
    using assms(2) b(5) by (auto simp: ehInv_def diskOk_def NewEventHandler_def Let_def)
qed

lemma cert_step:
  assumes "put \<in> putsL" "certOk c"
  shows "triple (\<lambda>e. ehInv getL getS e \<and> m \<le> qcView (NewestQC (paceMaker e)))
    (callPaceMaker (processCert put now c))
    (\<lambda>_ e. ehInv getL getS e \<and> max m (qcView (certQC c)) \<le> qcView (NewestQC (paceMaker e))
       \<and> certView c < CurView (paceMaker e)) (ehOut getL getS)"
proof (rule tripleI)
  fix e a e'
  assume P: "ehInv getL getS e \<and> m \<le> qcView (NewestQC (paceMaker e))"
    and c: "callPaceMaker (processCert put now c) e = (a, e')"
  let ?l = "livenessData (paceMaker e)" and ?db = "pm_db (paceMaker e)"
  have l: "ldOk ?l" "getL ?db = Inr ?l" "inStep ?l (safetyData (safetyRules e))"
    "\<forall>d. getS ?db = Inr d \<longrightarrow> inStep ?l d"
    using P by (auto simp: ehInv_def Let_def)
  obtain pm where pm: "processCert put now c (paceMaker e) = (a, pm)"
    and e': "e' = e\<lparr>paceMaker := pm, safetyRules := (safetyRules e)\<lparr>sr_db := pm_db pm\<rparr>\<rparr>"
    using c by (auto simp: callPaceMaker_def split: prod.splits)
  note pr = processCert_effect [OF l(1) assms(2) pm]
  have mem: "livenessData pm = withCert c ?l" using pr by (simp add: processed_def)
  have S: "getS (pm_db pm) = getS ?db" using pr frameL [OF assms(1)] unfolding processed_def by metis
  have disk: "getL (pm_db pm) = Inr ?l \<or> getL (pm_db pm) = Inr (withCert c ?l)"
    using pr L.put_cases [OF assms(1)] l(2) mem unfolding processed_def by metis
  have diskOk: "getL (pm_db pm) = Inr (livenessData pm)" if "a = Inr x" for x
    using pr that L.put_ok [OF assms(1)] l(2) unfolding processed_def by metis
  note grow = withCert_grows [OF l(1) assms(2)] and step = inStep_withCert [OF l(1) assms(2)]
  show "case a of Inl _ \<Rightarrow> ehOut getL getS e' | Inr x \<Rightarrow> ehInv getL getS e'
      \<and> max m (qcView (certQC c)) \<le> qcView (NewestQC (paceMaker e')) \<and> certView c < CurView (paceMaker e')"
  proof (cases a)
    case (Inl err)
    show ?thesis unfolding Inl e' using disk S l ldOk_withCert [OF l(1) assms(2)] step
      by (auto simp: ehOut_def diskOk_def)
  next
    case (Inr x)
    have v: "certView c < CurView pm" using pr Inr by (simp add: processed_def)
    then have "max m (qcView (certQC c)) \<le> qcView (NewestQC pm)"
      using grow P mem by (auto simp: NewestQC_def CurView_def intro: order_trans)
    moreover have "ehInv getL getS e'"
      using diskOk [OF Inr] ldOk_withCert [OF l(1) assms(2)] step l S mem
      by (simp add: e' ehInv_def Let_def)
    ultimately show ?thesis using v by (simp add: Inr e')
  qed
qed

lemma qc_step:
  assumes "env_putLiveness env \<in> putsL"
  shows "triple (\<lambda>e. ehInv getL getS e \<and> m \<le> qcView (NewestQC (paceMaker e))) (processQC env now qc)
    (\<lambda>_ e. ehInv getL getS e \<and> max m (qcView qc) \<le> qcView (NewestQC (paceMaker e))) (ehOut getL getS)"
proof (cases qc)
  case None
  show ?thesis
    by (auto simp: None triple_def processQC_def callPaceMaker_def ProcessQC_def ehInv_def ehOut_def
        diskOk_def Let_def)
next
  case (Some q)
  have eq: "processQC env now qc = callPaceMaker (processCert (env_putLiveness env) now (CertQC q))"
    by (simp add: Some processQC_def processCert_def [abs_def])
  have "certOk (CertQC q)" by (simp add: certOk_def)
  from cert_step [OF assms this, of m now] show ?thesis
    unfolding eq by (rule triple_weaken) (simp_all add: Some cert_simps)
qed

lemma tc_step:
  assumes "env_putLiveness env \<in> putsL" "optTcOk tc"
  shows "triple (\<lambda>e. ehInv getL getS e \<and> m \<le> qcView (NewestQC (paceMaker e))) (processTC env now tc)
    (\<lambda>_ e. ehInv getL getS e \<and> m \<le> qcView (NewestQC (paceMaker e))) (ehOut getL getS)"
proof (cases tc)
  case None
  show ?thesis
    by (auto simp: None triple_def processTC_def callPaceMaker_def ProcessTC_def ehInv_def Let_def)
next
  case (Some t)
  have eq: "processTC env now tc = callPaceMaker (processCert (env_putLiveness env) now (CertTC t))"
    by (simp add: Some processTC_def processCert_def [abs_def])
  have "certOk (CertTC t)" using assms(2) by (simp add: Some certOk_def optTcOk_def)
  from cert_step [OF assms(1) this, of m now] show ?thesis
    unfolding eq by (rule triple_weaken) simp_all
qed

lemma safety_write:
  assumes "ehInv getL getS e" "put \<in> putsS"
    and "r' = safetyRules e
      \<or> (\<exists>d x. persistData put d x (safetyRules e) = (a, r') \<and> inStep (livenessData (paceMaker e)) d)"
  shows "ehInv getL getS (e\<lparr>safetyRules := r', paceMaker := (paceMaker e)\<lparr>pm_db := sr_db r'\<rparr>\<rparr>)"
  using assms(3)
proof (elim disjE exE conjE)
  assume "r' = safetyRules e"
  with assms(1) show ?thesis by (simp add: ehInv_def Let_def)
next
  fix d x assume w: "persistData put d x (safetyRules e) = (a, r')" "inStep (livenessData (paceMaker e)) d"
  obtain res where res: "put d (sr_db (safetyRules e)) = (res, sr_db r')" "safetyData r' = d"
    using w(1) by (rule persistData_cases)
  from S.put_cases [OF assms(2) res(1)] frameS [OF assms(2) res(1)] res(2) w(2) assms(1)
  show ?thesis by (auto simp: ehInv_def Let_def)
qed

lemma vote_step:
  assumes "ehInv getL getS e" "put \<in> putsS"
    and "qcView (B_QC (P_Block p)) \<le> qcView (NewestQC (paceMaker e))" "v = CurView (paceMaker e)"
    and "callSafetyRules (ProduceVote sg com put p v) e = (a, e')"
  shows "ehInv getL getS e'"
proof -
  obtain r' where r': "ProduceVote sg com put p v (safetyRules e) = (a, r')"
    and e': "e' = e\<lparr>safetyRules := r', paceMaker := (paceMaker e)\<lparr>pm_db := sr_db r'\<rparr>\<rparr>"
    using assms(5) by (auto simp: callSafetyRules_def split: prod.splits)
  have "inStep (livenessData (paceMaker e)) (voteUpdate p (safetyData (safetyRules e)))"
    if "v = B_View (P_Block p)"
    using assms(1,3,4) that by (auto simp: ehInv_def inStep_def voteUpdate_def NewestQC_def CurView_def Let_def)
  with r' have "r' = safetyRules e
      \<or> (\<exists>d x. persistData put d x (safetyRules e) = (a, r') \<and> inStep (livenessData (paceMaker e)) d)"
    by (elim ProduceVote_cases) auto
  from safety_write [OF assms(1,2) this] show ?thesis unfolding e' .
qed

lemma timeout_step:
  assumes "ehInv getL getS e" "put \<in> putsS" "v = CurView (paceMaker e)"
    and "callSafetyRules (ProduceTimeout sg com put v qc tc) e = (a, e')"
  shows "ehInv getL getS e'"
proof -
  obtain r' where r': "ProduceTimeout sg com put v qc tc (safetyRules e) = (a, r')"
    and e': "e' = e\<lparr>safetyRules := r', paceMaker := (paceMaker e)\<lparr>pm_db := sr_db r'\<rparr>\<rparr>"
    using assms(4) by (auto simp: callSafetyRules_def split: prod.splits)
  have "inStep (livenessData (paceMaker e)) ((safetyData (safetyRules e))\<lparr>LastTimeout := t\<rparr>)"
    "inStep (livenessData (paceMaker e)) ((safetyData (safetyRules e))\<lparr>HighestAcknowledgedView := v, LastTimeout := t\<rparr>)"
    for t using assms(1,3) by (auto simp: ehInv_def inStep_def CurView_def Let_def)
  with r' have "r' = safetyRules e
      \<or> (\<exists>d x. persistData put d x (safetyRules e) = (a, r') \<and> inStep (livenessData (paceMaker e)) d)"
    by (elim ProduceTimeout_cases) auto
  from safety_write [OF assms(1,2) this] show ?thesis unfolding e' .
qed

lemma forks_step: "triple (\<lambda>e. ehInv getL getS e \<and> m \<le> qcView (NewestQC (paceMaker e))) (addToForks env p)
    (\<lambda>_ e. ehInv getL getS e \<and> m \<le> qcView (NewestQC (paceMaker e))) (ehOut getL getS)"
  by (auto simp: triple_def addToForks_def ehInv_ehOut split: prod.splits sum.splits)

lemma propose_step:
  "triple (ehInv getL getS) (proposeForNewViewIfPrimary env now) (\<lambda>_. ehInv getL getS) (ehOut getL getS)"
proof -
  have w: "triple (ehInv getL getS) (proposeWith env now qc tc) (\<lambda>_. ehInv getL getS) (ehOut getL getS)" for qc tc
    by (auto simp: triple_def proposeWith_def andThen_def addToForks_def ehInv_ehOut
        split: prod.splits sum.splits)
  show ?thesis
  proof (rule tripleI)
    fix e a e' assume i: "ehInv getL getS e" and pr: "proposeForNewViewIfPrimary env now e = (a, e')"
    show "case a of Inl _ \<Rightarrow> ehOut getL getS e' | Inr x \<Rightarrow> ehInv getL getS e'"
    proof (cases "\<exists>qc tc ev. proposeWith env now qc tc (notify ev e) = (a, e')")
      case True
      then obtain qc tc ev where "proposeWith env now qc tc (notify ev e) = (a, e')" by blast
      from tripleD [OF w _ this] i show ?thesis by simp
    next
      case False
      then have "\<exists>ev. e' = e \<or> e' = notify ev e"
        using pr by (auto simp: proposeForNewViewIfPrimary_def Let_def
            split: sum.splits option.splits if_splits)
      then show ?thesis using i by (auto simp: ehInv_ehOut split: sum.splits)
    qed
  qed
qed

lemma broadcast_step:
  assumes "env_putSafety env \<in> putsS"
  shows "triple (ehInv getL getS) (broadcastTimeoutObjectIfAuthorized env) (\<lambda>_. ehInv getL getS) (ehOut getL getS)"
proof (rule tripleI)
  fix e a e' assume i: "ehInv getL getS e" and b: "broadcastTimeoutObjectIfAuthorized env e = (a, e')"
  obtain q where q: "NewestQC (paceMaker e) = Some q"
    using i by (auto simp: ehInv_def ldOk_def NewestQC_def Let_def)
  obtain c e1 where c: "callSafetyRules (ProduceTimeout (env_signer env) (env_committee env) (env_putSafety env)
      (CurView (paceMaker e)) (Some q)
      (if QC_View q + 1 = CurView (paceMaker e) then None else LastViewTC (paceMaker e))) e = (c, e1)"
    by (rule prod.exhaust)
  have "ehInv getL getS e1" using timeout_step [OF i assms refl c] .
  then show "case a of Inl _ \<Rightarrow> ehOut getL getS e' | Inr x \<Rightarrow> ehInv getL getS e'"
    using b c q by (auto simp: broadcastTimeoutObjectIfAuthorized_def Let_def ehInv_ehOut
        split: sum.splits if_splits)
qed

lemma block_step:
  assumes "env_putSafety env \<in> putsS"
  shows "triple (\<lambda>e. ehInv getL getS e \<and> qcView (B_QC (P_Block p)) \<le> qcView (NewestQC (paceMaker e)))
    (processBlockForCurrentView env p) (\<lambda>_. ehInv getL getS) (ehOut getL getS)"
proof (rule tripleI)
  fix e a e' assume i: "ehInv getL getS e \<and> qcView (B_QC (P_Block p)) \<le> qcView (NewestQC (paceMaker e))"
    and b: "processBlockForCurrentView env p e = (a, e')"
  have own: "ehInv getL getS e1" if o: "ownVote env p (CurView (paceMaker e)) ld e = (c, e1)" for ld c e1
  proof -
    obtain c' e2 where c: "callSafetyRules (ProduceVote (env_signer env) (env_committee env) (env_putSafety env)
        p (CurView (paceMaker e))) e = (c', e2)" by (rule prod.exhaust)
    have "ehInv getL getS e2" using vote_step [OF _ assms _ refl c] i by blast
    then show ?thesis using o c i by (auto simp: ownVote_def split: option.splits sum.splits if_splits)
  qed
  show "case a of Inl _ \<Rightarrow> ehOut getL getS e' | Inr x \<Rightarrow> ehInv getL getS e'"
    using b i own
    by (auto simp: processBlockForCurrentView_def Let_def ehInv_ehOut split: sum.splits prod.splits if_splits)
qed

text \<open>The handlers, composed from these steps.\<close>

lemma cert_then_propose:
  assumes "triple (\<lambda>e. ehInv getL getS e \<and> 0 \<le> qcView (NewestQC (paceMaker e))) m
      (\<lambda>_ e. ehInv getL getS e \<and> Q e) (ehOut getL getS)"
  shows "triple (ehInv getL getS) (deferNotify EvOnEventProcessed (andThen m wrapf
      (\<lambda>ev e. if ev = None then (Inr (), e) else proposeForNewViewIfPrimary env now e)))
      (\<lambda>_. ehInv getL getS) (ehOut getL getS)"
proof (rule triple_defer [OF triple_andThen])
  show "triple (ehInv getL getS) m (\<lambda>_. ehInv getL getS) (ehOut getL getS)"
    by (rule triple_weaken [OF assms]) simp_all
  show "triple (ehInv getL getS) (\<lambda>e. if ev = None then (Inr (), e) else proposeForNewViewIfPrimary env now e)
      (\<lambda>_. ehInv getL getS) (ehOut getL getS)" for ev :: "'x option"
    by (cases ev) (simp_all add: triple_return propose_step)
qed simp_all

lemma proposal_step:
  assumes "env_putLiveness env \<in> putsL" "env_putSafety env \<in> putsS" "optTcOk (P_LastViewTC p)"
  defines "block \<equiv> P_Block p"
  shows "triple (ehInv getL getS)
    (andThen (addToForks env p) wrapf (\<lambda>_.
     andThen (processQC env now (B_QC block)) wrapf (\<lambda>_.
     andThen (processTC env now (P_LastViewTC p)) wrapf (\<lambda>_.
     andThen (processBlockForCurrentView env p) wrapf (\<lambda>_ e.
       if B_View block = CurView (paceMaker e) then (Inr (), e) else proposeForNewViewIfPrimary env now e)))))
    (\<lambda>_. ehInv getL getS) (ehOut getL getS)"
proof (intro triple_andThen)
  show "triple (ehInv getL getS) (addToForks env p)
      (\<lambda>_ e. ehInv getL getS e \<and> 0 \<le> qcView (NewestQC (paceMaker e))) (ehOut getL getS)"
    by (rule triple_weaken [OF forks_step [of 0]]) simp_all
  show "triple (\<lambda>e. ehInv getL getS e \<and> 0 \<le> qcView (NewestQC (paceMaker e))) (processQC env now (B_QC block))
      (\<lambda>_ e. ehInv getL getS e \<and> qcView (B_QC block) \<le> qcView (NewestQC (paceMaker e))) (ehOut getL getS)"
    by (rule triple_weaken [OF qc_step [OF assms(1), of 0]]) simp_all
  show "triple (\<lambda>e. ehInv getL getS e \<and> qcView (B_QC block) \<le> qcView (NewestQC (paceMaker e)))
      (processTC env now (P_LastViewTC p))
      (\<lambda>_ e. ehInv getL getS e \<and> qcView (B_QC block) \<le> qcView (NewestQC (paceMaker e))) (ehOut getL getS)"
    by (rule tc_step [OF assms(1,3)])
  show "triple (\<lambda>e. ehInv getL getS e \<and> qcView (B_QC block) \<le> qcView (NewestQC (paceMaker e)))
      (processBlockForCurrentView env p) (\<lambda>_. ehInv getL getS) (ehOut getL getS)"
    unfolding block_def by (rule block_step [OF assms(2)])
  show "triple (ehInv getL getS) (\<lambda>e. if B_View block = CurView (paceMaker e) then (Inr (), e)
      else proposeForNewViewIfPrimary env now e) (\<lambda>_. ehInv getL getS) (ehOut getL getS)"
    by (rule triple_if) (auto intro: triple_return triple_weaken [OF propose_step])
qed

lemma broadcast_wrapped:
  assumes "env_putSafety env \<in> putsS"
  shows "triple (ehInv getL getS) (andThen (broadcastTimeoutObjectIfAuthorized env) wrapf (\<lambda>_ e. (Inr (), e)))
    (\<lambda>_. ehInv getL getS) (ehOut getL getS)"
  by (rule triple_andThen [OF broadcast_step [OF assms]]) (simp add: triple_return)

lemma partial_step:
  assumes "env_putLiveness env \<in> putsL" "env_putSafety env \<in> putsS" "optTcOk tc"
  shows "triple (ehInv getL getS)
    (andThen (processQC env now qc) wrapf (\<lambda>_.
     andThen (processTC env now tc) wrapf (\<lambda>_ e.
       if CurView (paceMaker e) \<noteq> v then (Inr (), e)
       else andThen (broadcastTimeoutObjectIfAuthorized env) wrapf (\<lambda>_ e. (Inr (), e)) e)))
    (\<lambda>_. ehInv getL getS) (ehOut getL getS)"
proof (intro triple_andThen)
  show "triple (ehInv getL getS) (processQC env now qc)
      (\<lambda>_ e. ehInv getL getS e \<and> 0 \<le> qcView (NewestQC (paceMaker e))) (ehOut getL getS)"
    by (rule triple_weaken [OF qc_step [OF assms(1), of 0]]) simp_all
  show "triple (\<lambda>e. ehInv getL getS e \<and> 0 \<le> qcView (NewestQC (paceMaker e))) (processTC env now tc)
      (\<lambda>_. ehInv getL getS) (ehOut getL getS)"
    by (rule triple_weaken [OF tc_step [OF assms(1,3), of 0]]) simp_all
  show "triple (ehInv getL getS) (\<lambda>e. if CurView (paceMaker e) \<noteq> v then (Inr (), e)
      else andThen (broadcastTimeoutObjectIfAuthorized env) wrapf (\<lambda>_ e. (Inr (), e)) e)
      (\<lambda>_. ehInv getL getS) (ehOut getL getS)"
    by (rule triple_if) (auto intro: triple_return triple_weaken [OF broadcast_wrapped [OF assms(2)]])
qed

lemma pending_step:
  assumes "env_putLiveness env \<in> putsL" "\<forall>p\<in>set ps. optTcOk (P_LastViewTC p)"
  shows "triple (ehInv getL getS) (processPending env now ps) (\<lambda>_. ehInv getL getS) (ehOut getL getS)"
  using assms(2)
proof (induction ps)
  case Nil
  then show ?case by (simp add: triple_def)
next
  case (Cons p ps)
  show ?case
    unfolding processPending.simps(2) [abs_def]
  proof (intro triple_andThen)
    show "triple (ehInv getL getS) (processQC env now (B_QC (P_Block p)))
        (\<lambda>_ e. ehInv getL getS e \<and> 0 \<le> qcView (NewestQC (paceMaker e))) (ehOut getL getS)"
      by (rule triple_weaken [OF qc_step [OF assms(1), of 0]]) simp_all
    show "triple (\<lambda>e. ehInv getL getS e \<and> 0 \<le> qcView (NewestQC (paceMaker e))) (processTC env now (P_LastViewTC p))
        (\<lambda>_. ehInv getL getS) (ehOut getL getS)"
      using Cons.prems by (intro triple_weaken [OF tc_step [OF assms(1), of _ 0]]) simp_all
    show "triple (ehInv getL getS) (processPending env now ps) (\<lambda>_. ehInv getL getS) (ehOut getL getS)"
      using Cons by simp
  qed
qed

lemma pendingLoop_step:
  assumes "pendingLoop env now newest v e = Some y" "env_putLiveness env \<in> putsL" "ehInv getL getS e"
    and "\<forall>v. \<forall>p\<in>set (GetProposalsForView (eh_forks e) v). optTcOk (P_LastViewTC p)"
  shows "case y of (a, e') \<Rightarrow> (case a of Inl _ \<Rightarrow> ehOut getL getS e' | Inr x \<Rightarrow> ehInv getL getS e')"
proof -
  let ?ok = "\<lambda>e. ehInv getL getS e \<and> (\<forall>v. \<forall>p\<in>set (GetProposalsForView (eh_forks e) v). optTcOk (P_LastViewTC p))"
  let ?post = "\<lambda>y. case y of (a, e') \<Rightarrow> (case a of Inl _ \<Rightarrow> ehOut getL getS e' | Inr x \<Rightarrow> ehInv getL getS e')"
  have "env_putLiveness env \<in> putsL \<and> ?ok e \<longrightarrow> ?post y"
    using assms(1)
  proof (rule pendingLoop.raw_induct
      [where P = "\<lambda>env now newest v e y. env_putLiveness env \<in> putsL \<and> ?ok e \<longrightarrow> ?post y", rotated])
    fix loop now newest v y and env :: "'db environment" and e :: "'db EventHandler"
    assume IH: "\<And>env now newest v e y. loop env now newest v e = Some y \<Longrightarrow>
        env_putLiveness env \<in> putsL \<and> ?ok e \<longrightarrow> ?post y"
      and y: "(let paceMakerActiveView = CurView (paceMaker e);
          currentView' = if v < paceMakerActiveView then paceMakerActiveView else v
        in if newest < currentView' then Some (Inr (), e)
           else case processPending env now (GetProposalsForView (eh_forks e) currentView') e of
             (Inl err, e') \<Rightarrow> Some (Inl err, e')
           | (Inr x, e') \<Rightarrow> loop env now newest (currentView' + 1) e') = Some y"
    show "env_putLiveness env \<in> putsL \<and> ?ok e \<longrightarrow> ?post y"
    proof
      assume ok: "env_putLiveness env \<in> putsL \<and> ?ok e"
      define w where "w = (if v < CurView (paceMaker e) then CurView (paceMaker e) else v)"
      show "?post y"
      proof (cases "newest < w")
        case True
        then show ?thesis using y ok by (auto simp: w_def Let_def)
      next
        case False
        obtain a e1 where pp: "processPending env now (GetProposalsForView (eh_forks e) w) e = (a, e1)"
          by (rule prod.exhaust)
        have st: "case a of Inl _ \<Rightarrow> ehOut getL getS e1 | Inr x \<Rightarrow> ehInv getL getS e1"
          using tripleD [OF pending_step _ pp] ok by blast
        show ?thesis
        proof (cases a)
          case (Inl err)
          then show ?thesis using y False pp st by (auto simp: w_def [symmetric] Let_def)
        next
          case (Inr x)
          then have "loop env now newest (w + 1) e1 = Some y"
            using y False pp by (simp add: w_def [symmetric] Let_def)
          from IH [OF this] st Inr ok processPending_forks [OF pp] show ?thesis by simp
        qed
      qed
    qed
  qed
  with assms show ?thesis by blast
qed

lemma start_step:
  assumes "ehInv getL getS e" "env_putLiveness env \<in> putsL" "inputOk StartUp e"
    and "Start_EventHandler env now e = Some (a, e')"
  shows "case a of Inl _ \<Rightarrow> ehOut getL getS e' | Inr x \<Rightarrow> ehInv getL getS e'"
proof -
  define e2 where "e2 = (notify (EvOnStart (CurView (paceMaker e))) e)
    \<lparr>paceMaker := Start_PaceMaker now (paceMaker e)\<rparr>"
  have e2: "ehInv getL getS e2" "eh_forks e2 = eh_forks e"
    using assms(1) by (auto simp: e2_def ehInv_def Start_PaceMaker_def Let_def)
  obtain b e3 where b: "processPendingBlocks env now e2 = Some (b, e3)"
    using assms(4) by (auto simp: Start_EventHandler_def e2_def [symmetric] Let_def split: option.splits)
  have st: "case b of Inl _ \<Rightarrow> ehOut getL getS e3 | Inr x \<Rightarrow> ehInv getL getS e3"
    using pendingLoop_step [OF b [unfolded processPendingBlocks_def] assms(2) e2(1)] assms(3) e2(2)
    by (simp add: inputOk_def)
  have pr: "triple (ehInv getL getS) (deferNotify EvOnEventProcessed
      (andThen (proposeForNewViewIfPrimary env now) wrapf (\<lambda>_ e. (Inr (), e))))
      (\<lambda>_. ehInv getL getS) (ehOut getL getS)"
    by (rule triple_defer [OF triple_andThen [OF propose_step]]) (simp_all add: triple_return)
  show ?thesis
  proof (cases b)
    case (Inl err)
    then show ?thesis
      using assms(4) b st by (auto simp: Start_EventHandler_def e2_def [symmetric] Let_def)
  next
    case (Inr x)
    then have "deferNotify EvOnEventProcessed
        (andThen (proposeForNewViewIfPrimary env now) wrapf (\<lambda>_ e. (Inr (), e))) e3 = (a, e')"
      using assms(4) b by (simp add: Start_EventHandler_def e2_def [symmetric] Let_def)
    from tripleD [OF pr _ this] st Inr show ?thesis by simp
  qed
qed

lemma handle_step:
  assumes "ehInv getL getS e" "env_putLiveness env \<in> putsL" "env_putSafety env \<in> putsS"
    and "inputOk i e" "handle env now i e = Some (a, e')"
  shows "case a of Inl _ \<Rightarrow> ehOut getL getS e' | Inr x \<Rightarrow> ehInv getL getS e'"
proof -
  have n: "ehInv getL getS (notify ev e)" for ev using assms(1) by simp
  note out = ehInv_ehOut [OF assms(1)]
  show ?thesis
  proof (cases i)
    case (ReceiveQc qc)
    then have "OnReceiveQc env now qc e = (a, e')" using assms(5) by (simp add: handle_def)
    from tripleD [OF cert_then_propose [OF qc_step [OF assms(2), of 0]] n this [unfolded OnReceiveQc_def]]
    show ?thesis .
  next
    case (ReceiveTc tc)
    then have "OnReceiveTc env now tc e = (a, e')" and ok: "optTcOk (Some tc)"
      using assms(4,5) by (simp_all add: handle_def inputOk_def optTcOk_def)
    then show ?thesis
      using tripleD [OF cert_then_propose [OF tc_step [OF assms(2) ok, of 0]] n] out
      by (auto simp: OnReceiveTc_def split: if_splits)
  next
    case (ReceiveProposal p)
    then have h: "OnReceiveProposal env now p e = (a, e')" and ok: "optTcOk (P_LastViewTC p)"
      using assms(4,5) by (simp_all add: handle_def inputOk_def)
    have t: "triple (ehInv getL getS) (deferNotify EvOnEventProcessed
       (\<lambda>e. if B_View (P_Block p) < FinalizedView (eh_forks e) then (Inr (), e)
            else andThen (addToForks env p) wrapf (\<lambda>_.
                 andThen (processQC env now (B_QC (P_Block p))) wrapf (\<lambda>_.
                 andThen (processTC env now (P_LastViewTC p)) wrapf (\<lambda>_.
                 andThen (processBlockForCurrentView env p) wrapf (\<lambda>_ e.
                   if B_View (P_Block p) = CurView (paceMaker e) then (Inr (), e)
                   else proposeForNewViewIfPrimary env now e)))) e)) (\<lambda>_. ehInv getL getS) (ehOut getL getS)"
      by (rule triple_defer [OF triple_if])
        (auto intro: triple_return triple_weaken [OF proposal_step [OF assms(2,3) ok]])
    show ?thesis using h tripleD [OF t n] out by (auto simp: OnReceiveProposal_def Let_def split: if_splits)
  next
    case LocalTimeout
    then have "OnLocalTimeout env e = (a, e')" using assms(5) by (simp add: handle_def)
    from tripleD [OF triple_defer [OF broadcast_wrapped [OF assms(3)]] n this [unfolded OnLocalTimeout_def]]
    show ?thesis by simp
  next
    case (PartialTc ptc)
    then have h: "OnPartialTcCreated env now ptc e = (a, e')" and ok: "optTcOk (PTC_LastViewTC ptc)"
      using assms(4,5) by (simp_all add: handle_def inputOk_def)
    then show ?thesis
      using tripleD [OF triple_defer [OF partial_step [OF assms(2,3) ok]] n] out
      by (auto simp: OnPartialTcCreated_def split: if_splits)
  next
    case StartUp
    then show ?thesis using start_step [OF assms(1,2)] assms(4,5) by (simp add: handle_def)
  qed
qed

lemma eh_run_inv:
  assumes "eh_run getsL putsL getsS putsS db0 e" "diskOk getL getS db0"
  shows "ehInv getL getS e"
  using assms
proof (induction rule: eh_run.induct)
  case (booted e)
  then show ?case using boot_inv by blast
next
  case (handled e env i now e')
  then show ?case using handle_step [of e env i now "Inr ()" e'] by simp
next
  case (failed e env i now err e1 e')
  then have "ehOut getL getS e1" using handle_step [of e env i now "Inl err" e1] by simp
  then show ?case using boot_inv failed.hyps(6) by (simp add: ehOut_def)
next
  case (crashed e e')
  then have "ehOut getL getS e" using ehInv_ehOut by blast
  then show ?case using boot_inv crashed.hyps(2) by (simp add: ehOut_def)
qed

end

interpretation ehBadger: shared_store
  "storedSafety c" "range (\<lambda>bg. GetSafetyData bg c)" "range (\<lambda>bg. putSafety bg c)"
  "storedLiveness c" "range (\<lambda>bg. GetLivenessData bg c)" "range (\<lambda>bg. putLiveness bg c)" for c
proof
  have keys: "makePrefix codeLivenessData c \<noteq> makePrefix codeSafetyData c"
    by (simp add: makePrefix_def codeLivenessData_def codeSafetyData_def)
  show "storedLiveness c db' = storedLiveness c db"
    if "put \<in> range (\<lambda>bg. putSafety bg c)" "put d db = (r, db')" for put d db r db'
  proof -
    have "db' = db \<or> db' = AList.update (makePrefix codeSafetyData c) (SafetyEntity d) db"
      using that by (auto dest: put_stores(1))
    then show ?thesis using keys by (auto simp: storedLiveness_def GetLivenessData_def op_retrieve_other)
  qed
  show "storedSafety c db' = storedSafety c db"
    if "put \<in> range (\<lambda>bg. putLiveness bg c)" "put l db = (r, db')" for put l db r db'
  proof -
    have "db' = db \<or> db' = AList.update (makePrefix codeLivenessData c) (LivenessEntity l) db"
      using that by (auto dest: put_stores(2))
    then show ?thesis using keys by (auto simp: storedSafety_def GetSafetyData_def op_retrieve_other)
  qed
qed

definition eh_runs :: "bytes \<Rightarrow> badgerDB \<Rightarrow> badgerDB EventHandler \<Rightarrow> bool" where
  "eh_runs c = eh_run (range (\<lambda>bg. GetLivenessData bg c)) (range (\<lambda>bg. putLiveness bg c))
     (range (\<lambda>bg. GetSafetyData bg c)) (range (\<lambda>bg. putSafety bg c))"

lemma eh_runs_inv:
  "\<lbrakk>eh_runs c db0 e; diskOk (storedLiveness c) (storedSafety c) db0\<rbrakk>
   \<Longrightarrow> ehInv (storedLiveness c) (storedSafety c) e"
  unfolding eh_runs_def by (rule ehBadger.eh_run_inv)

section \<open>Timing out\<close>

lemma ehInv_evidence:
  assumes "ehInv getL getS e" "NewestQC (paceMaker e) = Some q"
  shows "evidence (CurView (paceMaker e)) (Some q)
    (if QC_View q + 1 = CurView (paceMaker e) then None else LastViewTC (paceMaker e))"
  using assms by (auto simp: ehInv_def ldOk_def evidence_def NewestQC_def CurView_def LastViewTC_def Let_def
      split: option.splits)

lemma safe_to_timeout:
  assumes "ehInv getL getS e" "NewestQC (paceMaker e) = Some q" "CurView (paceMaker e) + 1 \<noteq> 0"
  shows "IsSafeToTimeout (CurView (paceMaker e)) (Some q)
    (if QC_View q + 1 = CurView (paceMaker e) then None else LastViewTC (paceMaker e))
    (safetyData (safetyRules e)) = Inr ()"
proof -
  have "inStep (livenessData (paceMaker e)) (safetyData (safetyRules e))"
    using assms(1) by (simp add: ehInv_def Let_def)
  then have s: "LockedOneChainView (safetyData (safetyRules e)) \<le> QC_View q"
    "HighestAcknowledgedView (safetyData (safetyRules e)) \<le> CurView (paceMaker e)"
    using assms(2) by (auto simp: inStep_def NewestQC_def CurView_def qcView_def)
  have "\<not> CurView (paceMaker e) + 1 \<le> HighestAcknowledgedView (safetyData (safetyRules e))"
    using s(2) word_add_one_cases [of "CurView (paceMaker e)"] assms(3) by auto
  then show ?thesis
    using s(1) ehInv_evidence [OF assms(1,2)] unfolding validateEvidence_ok [symmetric]
    by (simp add: IsSafeToTimeout_def not_less [symmetric])
qed

definition storeWorks :: "('d \<Rightarrow> 'db \<Rightarrow> unit result \<times> 'db) \<Rightarrow> 'db \<Rightarrow> bool" where
  "storeWorks put db \<longleftrightarrow> (\<forall>d. \<exists>db'. put d db = (Inr (), db'))"

lemma persistData_works:
  assumes "storeWorks put (sr_db r)"
  shows "\<exists>r'. persistData put d x r = (Inr x, r')"
proof -
  obtain db' where "put d (sr_db r) = (Inr (), db')" using assms unfolding storeWorks_def by blast
  then show ?thesis by (simp add: persistData_def)
qed

lemma ProduceTimeout_works:
  assumes "IsSafeToTimeout v qc tc (safetyData r) = Inr ()" "IdentityByEpoch com v (Self com) = Inr x"
    and "CreateTimeout sg v qc tc = Inr t" "TO_View t = v" "storeWorks put (sr_db r)"
  shows "\<exists>t' r'. ProduceTimeout sg com put v qc tc r = (Inr t', r') \<and> TO_View t' = v"
proof (cases "\<exists>lt. LastTimeout (safetyData r) = Some lt \<and> TO_View lt = v")
  case True
  then obtain lt where lt: "LastTimeout (safetyData r) = Some lt" "TO_View lt = v" by blast
  obtain r' where "persistData put ((safetyData r)\<lparr>LastTimeout := Some (tickUp lt)\<rparr>) (tickUp lt) r = (Inr (tickUp lt), r')"
    using persistData_works [OF assms(5), of _ "tickUp lt"] by iprover
  with lt show ?thesis by (auto simp: ProduceTimeout_def Let_def tickUp_def)
next
  case False
  obtain r' where "persistData put ((safetyData r)\<lparr>HighestAcknowledgedView := v, LastTimeout := Some t\<rparr>) t r = (Inr t, r')"
    using persistData_works [OF assms(5), of _ t] by iprover
  with False assms(1-4) show ?thesis
    by (cases "LastTimeout (safetyData r)") (simp_all add: ProduceTimeout_def Let_def)
qed

lemma flowSigner_timeout:
  assumes "flowSigner me sg" "\<forall>msg h. \<exists>s. me_Sign me msg h = Inr s"
  shows "\<exists>t. CreateTimeout sg v (Some q) tc = Inr t \<and> TO_View t = v"
proof -
  have "\<exists>t. createTimeout me h v (Some q) tc = Inr t \<and> TO_View t = v" for h
  proof -
    obtain s where "me_Sign me (MakeTimeoutMessage v (QC_View q)) h = Inr s" using assms(2) by blast
    then show ?thesis by (simp add: createTimeout_def)
  qed
  then show ?thesis
    using assms(1) by (auto simp: flowSigner_def NewStakingSigner_def NewCombinedSigner_def NewCombinedSignerV3_def)
qed

text \<open>
  C7: a replica can always time out of its view. In every state that a replica reaches by handling
  validated inputs, with crashes, failed handlers and failed database writes before, a local timeout
  is answered with a timeout object for the current view, if the replica is a member of the
  committee, can sign and its database works now. So the safety rules never refuse the evidence that
  the pacemaker keeps: the newest QC is never older than the lock, and the current view never below
  the acknowledged one. The current view must not be the last 64-bit number.
\<close>

theorem replica_can_always_timeout:
  assumes "eh_runs c db0 e" "diskOk (storedLiveness c) (storedSafety c) db0"
    and "CurView (paceMaker e) + 1 \<noteq> 0"
    and "IdentityByEpoch (env_committee env) (CurView (paceMaker e)) (Self (env_committee env)) = Inr x"
    and "flowSigner me (env_signer env)" "\<forall>msg h. \<exists>s. me_Sign me msg h = Inr s"
    and "storeWorks (env_putSafety env) (sr_db (safetyRules e))"
  shows "\<exists>t e'. OnLocalTimeout env e = (Inr (), e') \<and> EvOnOwnTimeout t \<in> set (eh_events e')
    \<and> TO_View t = CurView (paceMaker e)"
proof -
  have i: "ehInv (storedLiveness c) (storedSafety c) e" using eh_runs_inv [OF assms(1,2)] .
  then obtain q where q: "NewestQC (paceMaker e) = Some q"
    by (auto simp: ehInv_def ldOk_def NewestQC_def Let_def)
  obtain t where t: "CreateTimeout (env_signer env) (CurView (paceMaker e)) (Some q)
      (if QC_View q + 1 = CurView (paceMaker e) then None else LastViewTC (paceMaker e)) = Inr t"
    "TO_View t = CurView (paceMaker e)" using flowSigner_timeout [OF assms(5,6)] by blast
  obtain t' r' where "ProduceTimeout (env_signer env) (env_committee env) (env_putSafety env)
      (CurView (paceMaker e)) (Some q)
      (if QC_View q + 1 = CurView (paceMaker e) then None else LastViewTC (paceMaker e)) (safetyRules e)
      = (Inr t', r')" "TO_View t' = CurView (paceMaker e)"
    using ProduceTimeout_works [OF safe_to_timeout [OF i q assms(3)] assms(4) t assms(7)] by blast
  then show ?thesis
    using q by (auto simp: OnLocalTimeout_def deferNotify_def andThen_def broadcastTimeoutObjectIfAuthorized_def
        callSafetyRules_def notify_def Let_def)
qed

section \<open>Proposing\<close>

text \<open>
  What HotStuff relies on from the block builder: the header it returns is one that it prepared
  for the given parent and then passed through the given function.
\<close>

definition builderOk :: "'db environment \<Rightarrow> bool" where
  "builderOk env \<longleftrightarrow>
     (\<forall>evs parent setter h. env_builder env evs parent setter = Inr h
        \<longrightarrow> (\<exists>h0. H_ParentID h0 = parent \<and> setter h0 = Inr h))"

lemma wrapf_not_Errorf [simp]: "wrapf err \<noteq> Errorf"
  by (simp add: wrapf_def)

lemma MakeBlockProposal_fields:
  assumes "builderOk env" "MakeBlockProposal env evs v q tc = Inr h"
  shows "H_View h = v \<and> H_ProposerID h = Self (env_committee env) \<and> Header_QuorumCertificate h = q
    \<and> H_LastViewTC h = tc"
proof -
  have "env_builder env evs (QC_BlockID q) (setHotstuffFields env v q tc) = Inr h"
    using assms(2) by (auto simp: MakeBlockProposal_def split: sum.splits)
  then obtain h0 where "H_ParentID h0 = QC_BlockID q" "setHotstuffFields env v q tc h0 = Inr h"
    using assms(1) unfolding builderOk_def by blast
  then show ?thesis
    by (auto simp: setHotstuffFields_def Header_QuorumCertificate_def Let_def split: sum.splits)
qed

lemma proposeWith_events:
  assumes "proposeWith env now q tc e = (a, e')"
  shows "a \<noteq> Inl Errorf \<and> (eh_events e' = eh_events e
    \<or> (\<exists>h tm. a = Inr () \<and> eh_events e' = eh_events e @ [EvOnOwnProposal h tm]
         \<and> MakeBlockProposal env (eh_events e) (CurView (paceMaker e)) q tc = Inr h))"
  using assms
  by (auto simp: proposeWith_def andThen_def addToForks_def notify_def split: sum.splits prod.splits)

text \<open>
  C8: a leader's own proposals are justified. In every state that a replica reaches, the checks for
  state corruption in \<open>proposeForNewViewIfPrimary\<close> pass: they are its only plain errors. If it
  announces a proposal, the replica is the leader of its current view, the proposal is for this view,
  extends the newest QC, and carries the evidence that the validators and safety rules of all
  replicas ask for.
\<close>

theorem own_proposals_justified:
  assumes "eh_runs c db0 e" "diskOk (storedLiveness c) (storedSafety c) db0" "builderOk env"
    and "proposeForNewViewIfPrimary env now e = (a, e')"
  shows "a \<noteq> Inl Errorf \<and>
    (\<forall>h tm. EvOnOwnProposal h tm \<in> set (drop (length (eh_events e)) (eh_events e')) \<longrightarrow>
       a = Inr () \<and> H_View h = CurView (paceMaker e) \<and> H_ProposerID h = Self (env_committee env)
       \<and> LeaderForView (env_committee env) (CurView (paceMaker e)) = Inr (Self (env_committee env))
       \<and> NewestQC (paceMaker e) = Some (Header_QuorumCertificate h)
       \<and> evidence (H_View h) (Some (Header_QuorumCertificate h)) (H_LastViewTC h))"
proof -
  have i: "ehInv (storedLiveness c) (storedSafety c) e" using eh_runs_inv [OF assms(1,2)] .
  then obtain q where q: "NewestQC (paceMaker e) = Some q"
    by (auto simp: ehInv_def ldOk_def NewestQC_def Let_def)
  define tc where "tc = (if QC_View q + 1 = CurView (paceMaker e) then None else LastViewTC (paceMaker e))"
  have ev: "evidence (CurView (paceMaker e)) (Some q) tc" using ehInv_evidence [OF i q] by (simp add: tc_def)
  show ?thesis
  proof (cases "\<exists>v. LeaderForView (env_committee env) (CurView (paceMaker e)) = Inr (Self (env_committee env))
      \<and> proposeWith env now q tc (notify v e) = (a, e') \<and> (\<forall>h tm. v \<noteq> EvOnOwnProposal h tm)")
    case True
    then obtain v where v: "LeaderForView (env_committee env) (CurView (paceMaker e)) = Inr (Self (env_committee env))"
      "proposeWith env now q tc (notify v e) = (a, e')" "\<forall>h tm. v \<noteq> EvOnOwnProposal h tm" by blast
    from proposeWith_events [OF v(2)] show ?thesis
      using MakeBlockProposal_fields [OF assms(3)] v(1,3) q ev by (auto simp: notify_def)
  next
    case False
    have "a \<noteq> Inl Errorf \<and> (\<exists>v. (eh_events e' = eh_events e \<or> eh_events e' = eh_events e @ [v])
        \<and> (\<forall>h tm. v \<noteq> EvOnOwnProposal h tm))"
      using assms(4) False q ev
      by (auto simp: proposeForNewViewIfPrimary_def Let_def tc_def evidence_def notify_def
          split: sum.splits option.splits if_splits)
    then show ?thesis by auto
  qed
qed

section \<open>Starting\<close>

lemma pendingLoop_returns:
  assumes "newest \<noteq> - 1"
  shows "\<exists>y. pendingLoop env now newest v e = Some y"
proof (induction "unat newest + 1 - unat v" arbitrary: v e rule: less_induct)
  case less
  define w where "w = (if v < CurView (paceMaker e) then CurView (paceMaker e) else v)"
  have "v \<le> w" by (auto simp: w_def)
  show ?case
  proof (cases "newest < w")
    case True
    then show ?thesis by (subst pendingLoop.simps) (simp add: w_def [symmetric] Let_def)
  next
    case False
    have "newest < - 1" using assms by (simp add: word_order.not_eq_extremum)
    then have "w + 1 \<noteq> 0" using False max_word_wrap [of w] by auto
    then have "unat (w + 1) = unat w + 1" using word_add_one_cases [of w] word_add_one_unat by blast
    then have "unat newest + 1 - unat (w + 1) < unat newest + 1 - unat v"
      using False \<open>v \<le> w\<close> by (auto simp: word_less_nat_alt word_le_nat_alt)
    note IH = less [OF this]
    obtain a e1 where pp: "processPending env now (GetProposalsForView (eh_forks e) w) e = (a, e1)"
      by (rule prod.exhaust)
    have "pendingLoop env now newest v e
        = (case a of Inl err \<Rightarrow> Some (Inl err, e1) | Inr _ \<Rightarrow> pendingLoop env now newest (w + 1) e1)"
      by (subst pendingLoop.simps) (simp only: Let_def w_def [symmetric] pp False if_False prod.case)
    with IH show ?thesis by (cases a) simp_all
  qed
qed


section \<open>Examples\<close>

text \<open>
  A replica in view 6, entered by a QC for block 55 of view 5, which is the root of its Forks. It is
  the leader of every view.
\<close>

definition exampleStore :: badgerDB where
  "exampleStore = exampleDB @ exampleLDB"

definition exampleRoot5 :: BlockQC where
  "exampleRoot5 = \<lparr>BQ_Block = exampleBlock 5 55 (Some (exampleQC 4 44)), BQ_QC = exampleQC 5 55\<rparr>"

definition exampleEH :: "badgerDB EventHandler" where
  "exampleEH =
     \<lparr>paceMaker = projr (New_PaceMaker (GetLivenessData noFaults [7]) exampleController exampleStore),
      eh_forks = projr (New_Forks exampleRoot5),
      safetyRules = projr (New_SafetyRules (GetSafetyData noFaults [7]) exampleStore), eh_events = []\<rparr>"

definition exampleHeader :: "Identifier \<Rightarrow> Header" where
  "exampleHeader parent =
     \<lparr>H_ChainID = [], H_ParentID = parent, H_Height = 1, H_PayloadHash = 0, H_Timestamp = 0, H_View = 0,
      H_ParentView = 0, H_ParentVoterIndices = [], H_ParentVoterSigData = [], H_ProposerID = 0,
      H_ProposerSigData = [], H_LastViewTC = None\<rparr>"

definition exampleEnv :: "badgerDB environment" where
  "exampleEnv =
     \<lparr>env_putLiveness = putLiveness noFaults [7], env_putSafety = putSafety noFaults [7],
      env_signer = NewStakingSigner exampleMe, env_committee = exampleCom\<lparr>LeaderForView := \<lambda>_. Inr 1\<rparr>,
      env_finalizer = acceptAll, env_builder = (\<lambda>_ parent setter. setter (exampleHeader parent)),
      env_headerID = (\<lambda>_. 66)\<rparr>"

lemma exampleStore_get:
  "GetLivenessData noFaults [7] exampleStore = Inr exampleLiveness"
  "GetSafetyData noFaults [7] exampleStore
     = Inr \<lparr>LockedOneChainView = 0, HighestAcknowledgedView = 0, LastTimeout = None\<rparr>"
  by code_simp+

lemma exampleStore_ok: "diskOk (storedLiveness [7]) (storedSafety [7]) exampleStore"
  unfolding diskOk_def storedLiveness_def storedSafety_def exampleStore_get
  using example_ldOk(1) by (simp add: inStep_def)

lemma exampleEH_boot:
  "New_PaceMaker (GetLivenessData noFaults [7]) exampleController exampleStore = Inr (paceMaker exampleEH)"
  "New_SafetyRules (GetSafetyData noFaults [7]) exampleStore = Inr (safetyRules exampleEH)"
  "livenessData (paceMaker exampleEH) = exampleLiveness" "sr_db (safetyRules exampleEH) = exampleStore"
proof -
  have "\<not> LD_CurrentView exampleLiveness < 1" by (simp add: exampleLiveness_def)
  then show "New_PaceMaker (GetLivenessData noFaults [7]) exampleController exampleStore = Inr (paceMaker exampleEH)"
    "New_SafetyRules (GetSafetyData noFaults [7]) exampleStore = Inr (safetyRules exampleEH)"
    "livenessData (paceMaker exampleEH) = exampleLiveness" "sr_db (safetyRules exampleEH) = exampleStore"
    by (simp_all add: exampleEH_def New_PaceMaker_def New_SafetyRules_def exampleStore_get)
qed

lemma exampleEH_run: "eh_runs [7] exampleStore exampleEH"
proof -
  have "NewEventHandler (paceMaker exampleEH) (eh_forks exampleEH) (safetyRules exampleEH) = Inr exampleEH"
    by (simp add: NewEventHandler_def exampleEH_def)
  with exampleEH_boot(1,2)
  have "boots (range (\<lambda>bg. GetLivenessData bg [7])) (range (\<lambda>bg. GetSafetyData bg [7])) exampleStore exampleEH"
    unfolding boots_def by blast
  then show ?thesis unfolding eh_runs_def by (rule eh_run.booted)
qed

lemma exampleStore_works: "storeWorks (putSafety noFaults [7]) exampleStore"
  unfolding storeWorks_def
proof
  fix d
  show "\<exists>db'. putSafety noFaults [7] d exampleStore = (Inr (), db')"
    by (simp add: putSafety_def PutSafetyData_def RetryOnConflict.simps db_Update_def op_update_def
        tx_Get_def tx_Set_def noFaults_def exampleStore_def exampleDB_def makePrefix_def codeSafetyData_def)
qed

theorem replica_can_always_timeout_witness:
  "\<exists>t e'. OnLocalTimeout exampleEnv exampleEH = (Inr (), e') \<and> EvOnOwnTimeout t \<in> set (eh_events e')
    \<and> TO_View t = 6"
proof -
  have v: "CurView (paceMaker exampleEH) = 6" by (simp add: exampleEH_boot CurView_def exampleLiveness_def)
  have "IdentityByEpoch (env_committee exampleEnv) (CurView (paceMaker exampleEH)) (Self (env_committee exampleEnv))
      = Inr (exampleIdentity 1 100)"
    unfolding v by code_simp
  moreover have "flowSigner exampleMe (env_signer exampleEnv)" by (simp add: flowSigner_def exampleEnv_def)
  moreover have "\<forall>msg h. \<exists>s. me_Sign exampleMe msg h = Inr s" by (simp add: exampleMe_def)
  moreover have "storeWorks (env_putSafety exampleEnv) (sr_db (safetyRules exampleEH))"
    using exampleStore_works by (simp add: exampleEH_boot exampleEnv_def)
  ultimately show ?thesis
    using replica_can_always_timeout [OF exampleEH_run exampleStore_ok, of exampleEnv] v by simp
qed

theorem own_proposals_justified_witness:
  "\<exists>h tm. EvOnOwnProposal h tm \<in> set (eh_events (snd (proposeForNewViewIfPrimary exampleEnv 0 exampleEH)))
     \<and> H_View h = 6 \<and> H_ProposerID h = 1 \<and> Header_QuorumCertificate h = exampleQC 5 55
     \<and> evidence 6 (Some (exampleQC 5 55)) (H_LastViewTC h)"
proof -
  have v: "CurView (paceMaker exampleEH) = 6" "NewestQC (paceMaker exampleEH) = Some (exampleQC 5 55)"
    by (simp_all add: exampleEH_boot CurView_def NewestQC_def exampleLiveness_def)
  have "list_ex (\<lambda>ev. case ev of EvOnOwnProposal _ _ \<Rightarrow> True | _ \<Rightarrow> False)
      (eh_events (snd (proposeForNewViewIfPrimary exampleEnv 0 exampleEH)))" by code_simp
  then obtain ev where ev: "ev \<in> set (eh_events (snd (proposeForNewViewIfPrimary exampleEnv 0 exampleEH)))"
    "case ev of EvOnOwnProposal _ _ \<Rightarrow> True | _ \<Rightarrow> False" unfolding list_ex_iff by blast
  from ev(2) have "\<exists>h tm. ev = EvOnOwnProposal h tm" by (simp split: eh_event.splits)
  then obtain h tm where "ev = EvOnOwnProposal h tm" by blast
  note h = ev(1) [unfolded this]
  have "H_ParentID (exampleHeader parent) = parent" for parent by (simp add: exampleHeader_def)
  then have "builderOk exampleEnv" unfolding builderOk_def exampleEnv_def by auto
  note j = own_proposals_justified [OF exampleEH_run exampleStore_ok this surjective_pairing, of 0]
  have "eh_events exampleEH = []" by (simp add: exampleEH_def)
  moreover have "Self (env_committee exampleEnv) = 1" by code_simp
  ultimately have "H_View h = 6 \<and> H_ProposerID h = 1 \<and> Header_QuorumCertificate h = exampleQC 5 55
      \<and> evidence (H_View h) (Some (Header_QuorumCertificate h)) (H_LastViewTC h)"
    using j h v by auto
  then show ?thesis using h by metis
qed


text \<open>
  The same replica with Forks that do not know block 55 yet: it times out of view 6 and only then
  receives the block.
\<close>

definition exampleRoot4 :: BlockQC where
  "exampleRoot4 = \<lparr>BQ_Block = exampleBlock 4 44 (Some (exampleQC 3 33)), BQ_QC = exampleQC 4 44\<rparr>"

definition exampleLateEH :: "badgerDB EventHandler" where
  "exampleLateEH = exampleEH\<lparr>eh_forks := projr (New_Forks exampleRoot4)\<rparr>"

definition exampleTimedOut :: "badgerDB EventHandler" where
  "exampleTimedOut = snd (OnLocalTimeout exampleEnv exampleLateEH)"

definition exampleLate55 :: Proposal where
  "exampleLate55 = exampleProposal 5 55 (Some (exampleQC 4 44))"

definition exampleProposed :: "badgerDB EventHandler" where
  "exampleProposed = snd (OnReceiveProposal exampleEnv 0 exampleLate55 exampleTimedOut)"

definition timedOutOf :: "uint64 \<Rightarrow> eh_event \<Rightarrow> bool" where
  "timedOutOf v ev = (case ev of EvOnOwnTimeout t \<Rightarrow> TO_View t = v | _ \<Rightarrow> False)"

definition proposedIn :: "uint64 \<Rightarrow> eh_event \<Rightarrow> bool" where
  "proposedIn v ev = (case ev of EvOnOwnProposal h _ \<Rightarrow> H_View h = v | _ \<Rightarrow> False)"

lemma exampleLateEH_run: "eh_runs [7] exampleStore exampleLateEH"
proof -
  have "NewEventHandler (paceMaker exampleEH) (eh_forks exampleLateEH) (safetyRules exampleEH) = Inr exampleLateEH"
    by (simp add: NewEventHandler_def exampleEH_def exampleLateEH_def)
  with exampleEH_boot(1,2)
  have "boots (range (\<lambda>bg. GetLivenessData bg [7])) (range (\<lambda>bg. GetSafetyData bg [7])) exampleStore exampleLateEH"
    unfolding boots_def by blast
  then show ?thesis unfolding eh_runs_def by (rule eh_run.booted)
qed


end
