(* ===== verification/Protocol_Safety.thy ===== *)
theory Protocol_Safety
  imports Forks Validator "HOL-Library.Sublist"
begin

text \<open>
  The safety of the protocol that the components implement together: Jolteon's argument, carried
  out over the safety rules of all honest replicas, the validator and its signature checks, the
  weight thresholds, and Forks.
\<close>

section \<open>The abstract voter\<close>

text \<open>
  What Jolteon asks of a replica, as a specification of the list of its signatures, newest first:
  a vote is for a higher view than everything before and for a block whose QC is older than the
  block; a timeout reports a QC that is not older than the QC of any block voted for up to its view.
\<close>

datatype ballot = Ballot uint64 Identifier uint64 | Abstain uint64 uint64

fun ballotView :: "ballot \<Rightarrow> uint64" where
  "ballotView (Ballot v i q) = v"
| "ballotView (Abstain v q) = v"

inductive voter :: "ballot list \<Rightarrow> bool" where
  voter_empty: "voter []"
| voter_vote: "\<lbrakk>voter bs; \<forall>x\<in>set bs. ballotView x < v; q < v\<rbrakk> \<Longrightarrow> voter (Ballot v i q # bs)"
| voter_timeout: "\<lbrakk>voter bs; \<forall>v' i' q'. Ballot v' i' q' \<in> set bs \<and> v' \<le> v \<longrightarrow> q' \<le> q\<rbrakk>
    \<Longrightarrow> voter (Abstain v q # bs)"

inductive_simps voter_Ballot: "voter (Ballot v i q # bs)"
inductive_simps voter_Abstain: "voter (Abstain v q # bs)"

lemma voter_votes_once:
  "\<lbrakk>voter bs; Ballot v i q \<in> set bs; Ballot v i' q' \<in> set bs\<rbrakk> \<Longrightarrow> i = i' \<and> q = q'"
  by (induction rule: voter.induct) fastforce+

lemma voter_qc_older: "\<lbrakk>voter bs; Ballot v i q \<in> set bs\<rbrakk> \<Longrightarrow> q < v"
  by (induction rule: voter.induct) auto

lemma voter_timeout_covers:
  "\<lbrakk>voter bs; Ballot v i q \<in> set bs; Abstain v' q' \<in> set bs; v \<le> v'\<rbrakk> \<Longrightarrow> q \<le> q'"
proof (induction rule: voter.induct)
  case (voter_vote bs w r j)
  then show ?case using leD by fastforce
qed auto

definition ballotOf :: "signed \<Rightarrow> ballot" where
  "ballotOf s =
     (case s of
        SignedVote p _ \<Rightarrow> Ballot (B_View (P_Block p)) (B_BlockID (P_Block p)) (qcView (B_QC (P_Block p)))
      | SignedTimeout t \<Rightarrow> Abstain (TO_View t) (qcView (TO_NewestQC t)))"

lemma ballotOf_view [simp]: "ballotView (ballotOf s) = signedView s"
  by (simp add: ballotOf_def signedView_def split: signed.splits)

lemma historyOk_evidence:
  "\<lbrakk>historyOk self os; SignedVote p vt \<in> set os\<rbrakk>
   \<Longrightarrow> evidence (B_View (P_Block p)) (B_QC (P_Block p)) (P_LastViewTC p)"
proof (induction os)
  case (Cons x os)
  then show ?case by (cases x) auto
qed simp

lemma historyOk_voter:
  assumes "historyOk self os" "\<forall>p vt. SignedVote p vt \<in> set os \<longrightarrow> 0 < B_View (P_Block p)"
  shows "voter (map ballotOf os)"
  using assms
proof (induction os)
  case (Cons s os)
  then have IH: "voter (map ballotOf os)" by (cases s) auto
  show ?case
  proof (cases s)
    case (SignedVote p vt)
    have ev: "evidence (B_View (P_Block p)) (B_QC (P_Block p)) (P_LastViewTC p)" "0 < B_View (P_Block p)"
      "\<forall>x\<in>set os. signedView x < B_View (P_Block p)"
      using Cons.prems by (auto simp: SignedVote)
    then have "qcView (B_QC (P_Block p)) < B_View (P_Block p)"
      using word_add_one_lessD [of "qcView (B_QC (P_Block p))" "B_View (P_Block p)"]
      by (auto simp: evidence_def qcView_def)
    then show ?thesis
      using IH ev(3) by (auto simp: SignedVote ballotOf_def [of "SignedVote p vt"] voter_Ballot)
  next
    case (SignedTimeout t)
    have "q' \<le> qcView (TO_NewestQC t)"
      if mem: "Ballot v' i' q' \<in> set (map ballotOf os)" and le: "v' \<le> TO_View t" for v' i' q'
    proof -
      obtain x where x: "x \<in> set os" "ballotOf x = Ballot v' i' q'" using mem by auto
      from x(2) obtain p vt where "x = SignedVote p vt" "v' = B_View (P_Block p)"
        "q' = qcView (B_QC (P_Block p))" by (cases x) (auto simp: ballotOf_def)
      with x(1) le Cons.prems(1) show ?thesis by (auto simp: SignedTimeout)
    qed
    then show ?thesis using IH by (auto simp: SignedTimeout ballotOf_def [of "SignedTimeout t"] voter_Abstain)
  qed
qed (simp add: voter_empty)

text \<open>
  C2: the safety rules refine the abstract voter. Whatever calls, failures, failed writes and
  restarts a replica goes through, the sequence of its votes and timeouts is one of the abstract
  voter, for each of the three signers and the Badger persister.
\<close>

theorem safety_rules_refine_voter:
  assumes "flowSigner me sg" "dbSound (storedSafety c) [] db0" "sr_runs sg com c db0 r os"
  shows "voter (map ballotOf os)"
proof -
  have "historyOk (me_NodeID me) os" using sr_runs_inv [OF assms(1,3,2)] by (simp add: runInv_def)
  moreover have "0 < B_View (P_Block p)" if "SignedVote p vt \<in> set os" for p vt
    using sr_runs_floor [OF assms(1,3) _ that, of 0] by simp
  ultimately show ?thesis by (intro historyOk_voter) blast+
qed
section \<open>Jolteon's safety argument\<close>

text \<open>
  The argument in the abstract, for references to blocks by identifier and view. \<open>cert N r\<close>: there is
  a valid QC for \<open>r\<close>; \<open>parent N r r'\<close>: \<open>r\<close> is a block whose QC points to \<open>r'\<close>. The laws are what
  votes, thresholds and validation provide: one certified block per view; certified blocks above the
  root have been voted for, with a certified older parent; and once a block that directly extends
  the previous view is certified, no later certified block goes back behind its parent.
\<close>

locale jolteon =
  fixes ok :: "'n \<Rightarrow> bool"
    and cert :: "'n \<Rightarrow> Identifier \<times> uint64 \<Rightarrow> bool"
    and parent :: "'n \<Rightarrow> Identifier \<times> uint64 \<Rightarrow> Identifier \<times> uint64 \<Rightarrow> bool"
    and floor :: "'n \<Rightarrow> uint64"
  assumes cert_unique: "\<lbrakk>ok N; cert N r; cert N r'; snd r = snd r'\<rbrakk> \<Longrightarrow> r = r'"
    and cert_parent: "\<lbrakk>ok N; cert N r; floor N < snd r\<rbrakk> \<Longrightarrow> \<exists>r'. parent N r r'"
    and parent_cert: "\<lbrakk>ok N; parent N r r'\<rbrakk> \<Longrightarrow> cert N r' \<and> snd r' < snd r"
    and parent_unique: "\<lbrakk>ok N; parent N r r'; parent N r r''\<rbrakk> \<Longrightarrow> r' = r''"
    and lock: "\<lbrakk>ok N; cert N r1; parent N r1 r0; snd r1 = snd r0 + 1; floor N \<le> snd r0;
      cert N r; snd r1 < snd r; parent N r r'\<rbrakk> \<Longrightarrow> snd r0 \<le> snd r'"
begin

lemma certified_extends:
  assumes "ok N" and c: "cert N r1" "parent N r1 r0" "snd r1 = snd r0 + 1" "floor N \<le> snd r0"
    and "cert N r" "snd r0 \<le> snd r"
  shows "(parent N)\<^sup>*\<^sup>* r r0"
  using assms(6,7)
proof (induction r rule: measure_induct_rule [of "\<lambda>r. unat (snd r)"])
  case (less r)
  have p: "cert N r0" "snd r0 < snd r1" using parent_cert [OF assms(1) c(2)] by blast+
  show ?case
  proof (cases "snd r = snd r0")
    case True
    with cert_unique [OF assms(1) less.prems(1) p(1)] show ?thesis by simp
  next
    case False
    then have lt: "snd r0 < snd r" using less.prems(2) by simp
    have "floor N < snd r" using c(4) lt by (rule le_less_trans)
    then obtain r' where r': "parent N r r'" using cert_parent [OF assms(1) less.prems(1)] by blast
    note pc = parent_cert [OF assms(1) r']
    have "snd r0 \<le> snd r'"
    proof (cases "snd r = snd r1")
      case True
      then have "r = r1" using cert_unique [OF assms(1) less.prems(1) c(1)] by blast
      then show ?thesis using parent_unique [OF assms(1) r'] c(2) by simp
    next
      case neq: False
      have "snd r1 < snd r" using inc_le [OF lt] c(3) neq by simp
      then show ?thesis by (rule lock [OF assms(1) c less.prems(1) _ r'])
    qed
    with less.IH [of r'] pc have "(parent N)\<^sup>*\<^sup>* r' r0" by (simp add: word_less_nat_alt)
    with r' show ?thesis by (rule converse_rtranclp_into_rtranclp)
  qed
qed

text \<open>A committed reference: certified by a certified block of the next view.\<close>

definition committed :: "'n \<Rightarrow> Identifier \<times> uint64 \<Rightarrow> bool" where
  "committed N r0 \<longleftrightarrow> floor N \<le> snd r0 \<and> (\<exists>r1. cert N r1 \<and> parent N r1 r0 \<and> snd r1 = snd r0 + 1)"

lemma committed_cert: "\<lbrakk>ok N; committed N r\<rbrakk> \<Longrightarrow> cert N r"
  using parent_cert unfolding committed_def by blast

lemma committed_extends:
  "\<lbrakk>ok N; committed N r0; cert N r; snd r0 \<le> snd r\<rbrakk> \<Longrightarrow> (parent N)\<^sup>*\<^sup>* r r0"
  unfolding committed_def using certified_extends by blast

lemma committed_comparable:
  assumes "ok N" "committed N r" "committed N r'"
  shows "(parent N)\<^sup>*\<^sup>* r r' \<or> (parent N)\<^sup>*\<^sup>* r' r"
  using committed_extends [OF assms(1,2) committed_cert [OF assms(1,3)]]
    committed_extends [OF assms(1,3) committed_cert [OF assms(1,2)]] by (metis linear)

text \<open>A list of references from \<open>b\<close> upwards, each the parent of the next.\<close>

fun chain :: "'n \<Rightarrow> Identifier \<times> uint64 \<Rightarrow> (Identifier \<times> uint64) list \<Rightarrow> bool" where
  "chain N b [] \<longleftrightarrow> True"
| "chain N b (r # rs) \<longleftrightarrow> parent N r b \<and> chain N r rs"

lemma chain_append: "chain N b (rs @ rs') \<longleftrightarrow> chain N b rs \<and> chain N (last (b # rs)) rs'"
  by (induction rs arbitrary: b) auto

lemma chain_above: "\<lbrakk>ok N; chain N b rs; r \<in> set rs\<rbrakk> \<Longrightarrow> snd b < snd r"
proof (induction rs arbitrary: b)
  case (Cons x rs)
  then have "snd b < snd x" using parent_cert [of N x b] by simp
  then show ?case using Cons.IH [of x] Cons.prems by (auto intro: less_trans)
qed simp

lemma chain_last_inj:
  assumes "ok N" "chain N b rs" "chain N b rs'" "last (b # rs) = last (b # rs')"
  shows "rs = rs'"
  using assms(2-4)
proof (induction rs arbitrary: rs' rule: rev_induct)
  case Nil
  then show ?case
    using chain_above [OF assms(1) Nil(2), of "last rs'"] by (cases "rs' = []") (auto split: if_splits)
next
  case (snoc r rs)
  obtain rs0 where rs': "rs' = rs0 @ [r]"
    using snoc.prems(3) chain_above [OF assms(1) snoc.prems(1), of r]
    by (cases rs' rule: rev_cases) auto
  have "parent N r (last (b # rs))" "parent N r (last (b # rs0))"
    using snoc.prems(1,2) rs' by (simp_all add: chain_append)
  then have "last (b # rs) = last (b # rs0)" by (rule parent_unique [OF assms(1)])
  with snoc.IH [of rs0] snoc.prems rs' show ?case by (simp add: chain_append)
qed

lemma chain_path:
  assumes "ok N" "chain N b rs" "(parent N)\<^sup>*\<^sup>* (last (b # rs)) r" "snd b < snd r"
  shows "\<exists>rs1 rs2. rs = rs1 @ r # rs2"
  using assms(2,3)
proof (induction rs rule: rev_induct)
  case Nil
  then have "(parent N)\<^sup>*\<^sup>* b r" by simp
  then have "snd r \<le> snd b"
  proof (induction rule: rtranclp_induct)
    case (step y z)
    from parent_cert [OF assms(1) step(2)] have "snd z \<le> snd y" by (simp add: less_imp_le)
    then show ?case using step.IH by (rule order.trans)
  qed simp
  with assms(4) show ?case by simp
next
  case (snoc x rs)
  show ?case
  proof (cases "r = x")
    case False
    have "(parent N)\<^sup>*\<^sup>* x r" using snoc.prems(2) by simp
    then obtain y where y: "parent N x y" "(parent N)\<^sup>*\<^sup>* y r"
      using False by (cases rule: converse_rtranclpE) blast+
    have "parent N x (last (b # rs))" using snoc.prems(1) by (simp add: chain_append)
    with y(1) have "y = last (b # rs)" by (rule parent_unique [OF assms(1)])
    then obtain rs1 rs2 where "rs = rs1 @ r # rs2"
      using snoc.IH snoc.prems(1) y(2) unfolding chain_append by blast
    then show ?thesis by (intro exI [of _ rs1] exI [of _ "rs2 @ [x]"]) simp
  next
    case True
    then show ?thesis by (intro exI [of _ rs] exI [of _ "[]"]) simp
  qed
qed

text \<open>Two chains from the root whose ends are committed do not diverge.\<close>

lemma chain_prefix:
  assumes "ok N" "chain N b rs" "chain N b rs'" "rs = [] \<or> committed N (last rs)"
    "rs' = [] \<or> committed N (last rs')"
    "(parent N)\<^sup>*\<^sup>* (last (b # rs')) (last (b # rs))" "rs \<noteq> []"
  shows "prefix rs rs'"
proof -
  have "snd b < snd (last (b # rs))" using chain_above [OF assms(1,2)] assms(7) by simp
  from chain_path [OF assms(1,3,6) this] obtain rs1 rs2 where rs': "rs' = rs1 @ last (b # rs) # rs2" by blast
  then have "chain N b (rs1 @ [last (b # rs)])" using assms(3) by (simp add: chain_append)
  from chain_last_inj [OF assms(1,2) this] have "rs = rs1 @ [last (b # rs)]" by simp
  then have "rs' = rs @ rs2" using rs' by (metis append.assoc append_Cons append_Nil)
  then show ?thesis by (simp add: prefix_def)
qed

lemma chains_agree:
  assumes "ok N" "chain N b rs" "chain N b rs'" "rs = [] \<or> committed N (last rs)"
    "rs' = [] \<or> committed N (last rs')"
  shows "prefix rs rs' \<or> prefix rs' rs"
proof (cases "rs = [] \<or> rs' = []")
  case False
  then have "(parent N)\<^sup>*\<^sup>* (last (b # rs)) (last (b # rs')) \<or> (parent N)\<^sup>*\<^sup>* (last (b # rs')) (last (b # rs))"
    using committed_comparable [OF assms(1)] assms(4,5) by simp
  then show ?thesis using chain_prefix [OF assms] chain_prefix [OF assms(1,3,2,5,4)] False by blast
qed auto

end
section \<open>The network\<close>

text \<open>
  One epoch of a network: the committee (of which each replica has a copy with its own identifier in
  \<open>Self\<close>) and the verifier that the replicas validate with, the Byzantine nodes, the signatures given
  by the owners of the keys, the votes and timeouts each honest replica produced with its safety
  rules, the blocks that honest replicas vote for or add to Forks, and the root block.
\<close>

record network =
  nw_committee :: committee
  nw_bls :: bls
  nw_codec :: codec
  nw_verifier :: verifier
  nw_keySigned :: "PublicKey \<Rightarrow> bytes \<Rightarrow> hasher \<Rightarrow> bool"
  nw_byzantine :: "Identifier set"
  nw_history :: "Identifier \<Rightarrow> signed list"
  nw_blocks :: "Block set"
  nw_root :: BlockQC

definition nw_validator :: "network \<Rightarrow> Validator" where
  "nw_validator N = New_Validator (nw_committee N) (nw_verifier N)"

definition rootRef :: "network \<Rightarrow> Identifier \<times> uint64" where
  "rootRef N = (B_BlockID (BQ_Block (nw_root N)), B_View (BQ_Block (nw_root N)))"

definition rootView :: "network \<Rightarrow> uint64" where
  "rootView N = B_View (BQ_Block (nw_root N))"

text \<open>One committee for all views, at most a third of its weight Byzantine.\<close>

definition epochCommittee :: "network \<Rightarrow> IdentityList \<Rightarrow> bool" where
  "epochCommittee N il \<longleftrightarrow>
     committee_ok il
     \<and> (\<forall>v il'. IdentitiesByEpoch (nw_committee N) v = Inr il' \<longrightarrow> il' = il)
     \<and> (\<forall>v t. QuorumThresholdForView (nw_committee N) v = Inr t
          \<longrightarrow> t = WeightThresholdToBuildQC (il_TotalWeight il))
     \<and> 3 * sum (memberWeight il) (nw_byzantine N \<inter> set (il_NodeIDs il)) \<le> unat (il_TotalWeight il)"

text \<open>
  An honest replica: its history is a run of the safety rules, with crashes and restarts, from a
  database bootstrapped with the view of the root block; it votes only for proposals that its
  validator accepts.
\<close>

definition honestReplica :: "network \<Rightarrow> Identifier \<Rightarrow> bool" where
  "honestReplica N n \<longleftrightarrow>
     (\<exists>me sg c db0 r. me_NodeID me = n \<and> flowSigner me sg \<and> dbSound (storedSafety c) [] db0
        \<and> (\<forall>d. storedSafety c db0 = Inr d \<longrightarrow> rootView N \<le> HighestAcknowledgedView d)
        \<and> sr_runs sg ((nw_committee N)\<lparr>Self := n\<rparr>) c db0 r (nw_history N n))
     \<and> (\<forall>p vt. SignedVote p vt \<in> set (nw_history N n)
          \<longrightarrow> ValidateProposal (nw_validator N) p = Inr () \<and> P_Block p \<in> nw_blocks N)"

text \<open>
  The keys of an honest member sign only what its safety rules produced, and the root block.
\<close>

definition keysSafe :: "network \<Rightarrow> Identity \<Rightarrow> bool" where
  "keysSafe N x \<longleftrightarrow>
     (\<forall>v i. nodeVoted (nw_keySigned N) (nw_committee N) x v i \<longrightarrow>
        (i, v) = rootRef N
        \<or> (\<exists>p vt. SignedVote p vt \<in> set (nw_history N (NodeID x))
             \<and> B_View (P_Block p) = v \<and> B_BlockID (P_Block p) = i))
     \<and> (\<forall>v w. nodeTimedOut (nw_keySigned N) x v w \<longrightarrow>
        (\<exists>t. SignedTimeout t \<in> set (nw_history N (NodeID x)) \<and> TO_View t = v \<and> qcView (TO_NewestQC t) = w))"

definition networkOk :: "network \<Rightarrow> bool" where
  "networkOk N \<longleftrightarrow>
     blsSound (nw_keySigned N) (nw_bls N)
     \<and> nw_verifier N \<in> flowVerifiers (nw_bls N) (nw_codec N) (nw_committee N)
     \<and> inj_on B_BlockID (nw_blocks N)
     \<and> (\<exists>il. epochCommittee N il \<and>
          (\<forall>x\<in>set il. NodeID x \<notin> nw_byzantine N \<longrightarrow> honestReplica N (NodeID x) \<and> keysSafe N x))"

definition certifiedRef :: "network \<Rightarrow> Identifier \<times> uint64 \<Rightarrow> bool" where
  "certifiedRef N r \<longleftrightarrow> (\<exists>qc. ValidateQC (nw_validator N) qc = Inr () \<and> qcRef qc = r)"

definition blockRef :: "Block \<Rightarrow> Identifier \<times> uint64" where
  "blockRef b = (B_BlockID b, B_View b)"

definition parentRef :: "network \<Rightarrow> Identifier \<times> uint64 \<Rightarrow> Identifier \<times> uint64 \<Rightarrow> bool" where
  "parentRef N r r' \<longleftrightarrow>
     (\<exists>b qc. b \<in> nw_blocks N \<and> blockRef b = r \<and> B_QC b = Some qc
        \<and> ValidateQC (nw_validator N) qc = Inr () \<and> qcRef qc = r' \<and> QC_View qc < B_View b)"

text \<open>What one knows about an honest member: its ballots, and the proposals behind its votes.\<close>

lemma honest_votes:
  assumes "honestReplica N n"
  shows "voter (map ballotOf (nw_history N n))"
    and "SignedVote p vt \<in> set (nw_history N n) \<Longrightarrow> rootView N < B_View (P_Block p)
      \<and> ValidateProposal (nw_validator N) p = Inr () \<and> P_Block p \<in> nw_blocks N
      \<and> evidence (B_View (P_Block p)) (B_QC (P_Block p)) (P_LastViewTC p)"
proof -
  obtain me sg c db0 r where r: "flowSigner me sg" "dbSound (storedSafety c) [] db0"
    "\<forall>d. storedSafety c db0 = Inr d \<longrightarrow> rootView N \<le> HighestAcknowledgedView d"
    "sr_runs sg ((nw_committee N)\<lparr>Self := n\<rparr>) c db0 r (nw_history N n)"
    using assms unfolding honestReplica_def by blast
  have h: "historyOk (me_NodeID me) (nw_history N n)"
    using sr_runs_inv [OF r(1,4,2)] by (simp add: runInv_def)
  have "0 < B_View (P_Block p)" if "SignedVote p vt \<in> set (nw_history N n)" for p vt
    using sr_runs_floor [OF r(1,4) _ that, of 0] by simp
  with h show "voter (map ballotOf (nw_history N n))" by (intro historyOk_voter) blast+
  assume v: "SignedVote p vt \<in> set (nw_history N n)"
  have "evidence (B_View (P_Block p)) (B_QC (P_Block p)) (P_LastViewTC p)"
    by (rule historyOk_evidence [OF h v])
  then show "rootView N < B_View (P_Block p) \<and> ValidateProposal (nw_validator N) p = Inr ()
      \<and> P_Block p \<in> nw_blocks N \<and> evidence (B_View (P_Block p)) (B_QC (P_Block p)) (P_LastViewTC p)"
    using sr_runs_floor [OF r(1,4,3) v] v assms unfolding honestReplica_def by blast
qed
lemma networkOk_committee:
  assumes "networkOk N"
  shows "committeeOk (nw_committee N)"
  using assms by (auto simp: networkOk_def epochCommittee_def committeeOk_def)

lemma quorums_share_honest:
  assumes "networkOk N" "quorumOf (nw_committee N) v P Q" "quorumOf (nw_committee N) v' P' Q'"
  shows "\<exists>x. honestReplica N (NodeID x) \<and> keysSafe N x \<and> P x \<and> P' x"
proof -
  obtain il where il: "epochCommittee N il"
    "\<forall>x\<in>set il. NodeID x \<notin> nw_byzantine N \<longrightarrow> honestReplica N (NodeID x) \<and> keysSafe N x"
    using assms(1) by (auto simp: networkOk_def)
  have ok: "committee_ok il" using il(1) by (simp add: epochCommittee_def)
  have q: "wc.isQuorum il Q0 \<and> (\<forall>n\<in>Q0. \<exists>x. il_ByNodeID il n = Some x \<and> P0 x)"
    if "quorumOf (nw_committee N) v0 P0 Q0" for v0 P0 Q0
    using that il(1) unfolding quorumOf_def epochCommittee_def wc.isQuorum_def by metis
  have "3 * sum (memberWeight il) (nw_byzantine N \<inter> set (il_NodeIDs il))
      \<le> sum (memberWeight il) (set (il_NodeIDs il))"
    using il(1) committee_total [OF ok] by (simp add: epochCommittee_def)
  then obtain n where n: "n \<in> Q" "n \<in> Q'" "n \<notin> nw_byzantine N"
    using wc.honest_intersection [OF ok] q [OF assms(2)] q [OF assms(3)] by blast
  then obtain x where x: "il_ByNodeID il n = Some x" "P x" "P' x"
    using q [OF assms(2)] q [OF assms(3)] by (metis option.inject)
  then have "x \<in> set il" "NodeID x = n" using il_ByNodeID_Some by blast+
  with il(2) n(3) x show ?thesis by blast
qed

lemma certified_quorum:
  assumes "networkOk N" "certifiedRef N r"
  shows "\<exists>Q. quorumOf (nw_committee N) (snd r)
    (\<lambda>s. nodeVoted (nw_keySigned N) (nw_committee N) s (snd r) (fst r)) Q"
proof -
  obtain qc where qc: "ValidateQC (New_Validator (nw_committee N) (nw_verifier N)) qc = Inr ()" "qcRef qc = r"
    using assms(2) by (auto simp: certifiedRef_def nw_validator_def)
  have "soundVerifier (nw_verifier N) (nodeVoted (nw_keySigned N) (nw_committee N)) (nodeTimedOut (nw_keySigned N))"
    using assms(1) flowVerifiers_sound by (auto simp: networkOk_def)
  from ValidateQC_quorum [OF this networkOk_committee [OF assms(1)] qc(1)] qc(2) show ?thesis by auto
qed

text \<open>An honest vote for a certified block above the root.\<close>

definition honestVote :: "network \<Rightarrow> Identifier \<Rightarrow> Proposal \<Rightarrow> Identifier \<times> uint64 \<Rightarrow> bool" where
  "honestVote N n p r \<longleftrightarrow> honestReplica N n \<and> blockRef (P_Block p) = r
     \<and> (\<exists>vt. SignedVote p vt \<in> set (nw_history N n))"

lemma keysSafe_vote:
  assumes "honestReplica N (NodeID x)" "keysSafe N x"
    "nodeVoted (nw_keySigned N) (nw_committee N) x (snd r) (fst r)" "rootView N < snd r"
  shows "\<exists>p. honestVote N (NodeID x) p r"
proof -
  have "r \<noteq> rootRef N" using assms(4) by (auto simp: rootRef_def rootView_def)
  then show ?thesis
    using assms(1-3) unfolding keysSafe_def honestVote_def blockRef_def by (metis prod.collapse)
qed

lemma honestVote_facts:
  assumes "honestVote N n p r"
  shows "Ballot (snd r) (fst r) (qcView (B_QC (P_Block p))) \<in> set (map ballotOf (nw_history N n))"
    and "voter (map ballotOf (nw_history N n))"
    and "ValidateProposal (nw_validator N) p = Inr ()" and "P_Block p \<in> nw_blocks N"
    and "evidence (snd r) (B_QC (P_Block p)) (P_LastViewTC p)"
    and "qcView (B_QC (P_Block p)) < snd r"
proof -
  obtain vt where v: "honestReplica N n" "blockRef (P_Block p) = r" "SignedVote p vt \<in> set (nw_history N n)"
    using assms by (auto simp: honestVote_def)
  have "ballotOf (SignedVote p vt) = Ballot (snd r) (fst r) (qcView (B_QC (P_Block p)))"
    using v(2) by (auto simp: ballotOf_def blockRef_def)
  with v(3) show b: "Ballot (snd r) (fst r) (qcView (B_QC (P_Block p))) \<in> set (map ballotOf (nw_history N n))"
    by force
  show w: "voter (map ballotOf (nw_history N n))" by (rule honest_votes(1) [OF v(1)])
  from voter_qc_older [OF w b] show "qcView (B_QC (P_Block p)) < snd r" .
  from honest_votes(2) [OF v(1,3)] v(2)
  show "ValidateProposal (nw_validator N) p = Inr ()" "P_Block p \<in> nw_blocks N"
    "evidence (snd r) (B_QC (P_Block p)) (P_LastViewTC p)" by (auto simp: blockRef_def)
qed

lemma certified_votes:
  assumes "networkOk N" "certifiedRef N r" "rootView N < snd r"
  shows "\<exists>n p. honestVote N n p r"
proof -
  obtain Q where "quorumOf (nw_committee N) (snd r)
      (\<lambda>s. nodeVoted (nw_keySigned N) (nw_committee N) s (snd r) (fst r)) Q"
    using certified_quorum [OF assms(1,2)] by blast
  with quorums_share_honest [OF assms(1)] keysSafe_vote [OF _ _ _ assms(3)] show ?thesis by blast
qed
lemma root_votes:
  assumes "honestReplica N (NodeID x)" "keysSafe N x"
    "nodeVoted (nw_keySigned N) (nw_committee N) x (snd r) (fst r)" "\<not> rootView N < snd r"
  shows "r = rootRef N"
proof (rule ccontr)
  assume "r \<noteq> rootRef N"
  then obtain p vt where "SignedVote p vt \<in> set (nw_history N (NodeID x))" "B_View (P_Block p) = snd r"
    using assms(2,3) unfolding keysSafe_def by (metis prod.collapse)
  with honest_votes(2) [OF assms(1), of p vt] assms(4) show False by simp
qed

lemma honestVotes_once:
  assumes "honestVote N n p r" "honestVote N n p' r'" "snd r = snd r'"
  shows "r = r'"
proof -
  have "fst r = fst r'"
    using voter_votes_once [OF honestVote_facts(2,1) [OF assms(1)]] honestVote_facts(1) [OF assms(2)] assms(3)
    by simp
  then show ?thesis using assms(3) by (simp add: prod_eq_iff)
qed

lemma nw_cert_unique:
  assumes "networkOk N" "certifiedRef N r" "certifiedRef N r'" "snd r = snd r'"
  shows "r = r'"
proof -
  obtain Q where Q: "quorumOf (nw_committee N) (snd r)
      (\<lambda>s. nodeVoted (nw_keySigned N) (nw_committee N) s (snd r) (fst r)) Q"
    using certified_quorum [OF assms(1,2)] by blast
  obtain Q' where "quorumOf (nw_committee N) (snd r')
      (\<lambda>s. nodeVoted (nw_keySigned N) (nw_committee N) s (snd r') (fst r')) Q'"
    using certified_quorum [OF assms(1,3)] by blast
  from quorums_share_honest [OF assms(1) Q this] obtain x where x: "honestReplica N (NodeID x)" "keysSafe N x"
    "nodeVoted (nw_keySigned N) (nw_committee N) x (snd r) (fst r)"
    "nodeVoted (nw_keySigned N) (nw_committee N) x (snd r') (fst r')" by blast
  show ?thesis
  proof (cases "rootView N < snd r")
    case True
    then have "rootView N < snd r'" using assms(4) by simp
    with True keysSafe_vote [OF x(1-3)] keysSafe_vote [OF x(1,2,4)]
    obtain p p' where "honestVote N (NodeID x) p r" "honestVote N (NodeID x) p' r'" by blast
    then show ?thesis using assms(4) by (rule honestVotes_once)
  next
    case False
    then have "\<not> rootView N < snd r'" using assms(4) by simp
    with False root_votes [OF x(1-3)] root_votes [OF x(1,2,4)] show ?thesis by simp
  qed
qed

lemma honestVote_parent:
  assumes "honestVote N n p r"
  shows "\<exists>qc. B_QC (P_Block p) = Some qc \<and> parentRef N r (qcRef qc)"
proof -
  note F = honestVote_facts [OF assms]
  obtain qc where qc: "B_QC (P_Block p) = Some qc" "ValidateQC (nw_validator N) qc = Inr ()"
    using F(3) unfolding ValidateProposal_ok by blast
  moreover have "blockRef (P_Block p) = r" using assms by (simp add: honestVote_def)
  moreover from this have "QC_View qc < B_View (P_Block p)" using F(6) qc(1) by (auto simp: qcView_def blockRef_def)
  ultimately show ?thesis using F(4) unfolding parentRef_def by blast
qed

lemma nw_blocks_inj:
  assumes "networkOk N" "b \<in> nw_blocks N" "b' \<in> nw_blocks N" "blockRef b = blockRef b'"
  shows "b = b'"
proof -
  have "inj_on B_BlockID (nw_blocks N)" using assms(1) by (simp add: networkOk_def)
  then show ?thesis using assms(2-4) by (simp add: blockRef_def inj_on_def)
qed

lemma nw_parent_unique:
  assumes "networkOk N" "parentRef N r r'" "parentRef N r r''"
  shows "r' = r''"
proof -
  obtain b qc b' qc' where b: "b \<in> nw_blocks N" "blockRef b = r" "B_QC b = Some qc" "qcRef qc = r'"
    "b' \<in> nw_blocks N" "blockRef b' = r" "B_QC b' = Some qc'" "qcRef qc' = r''"
    using assms(2,3) unfolding parentRef_def by metis
  then have "b = b'" using nw_blocks_inj [OF assms(1)] by simp
  then show ?thesis using b by simp
qed

text \<open>The TC of a proposal that goes back behind its predecessor carries a quorum of timeouts.\<close>

lemma skipping_proposal:
  assumes "networkOk N" "ValidateProposal (nw_validator N) p = Inr ()" "B_QC (P_Block p) = Some qc"
    "evidence v (B_QC (P_Block p)) (P_LastViewTC p)" "B_View (P_Block p) = v" "QC_View qc + 1 \<noteq> v"
  shows "\<exists>w Q. w + 1 = v \<and> quorumOf (nw_committee N) w
    (\<lambda>s. \<exists>u \<le> QC_View qc. nodeTimedOut (nw_keySigned N) s w u) Q"
proof -
  obtain t tq where t: "P_LastViewTC p = Some t" "TC_NewestQC t = Some tq" "TC_View t + 1 = v"
    "QC_View tq \<le> QC_View qc" using assms(3,4,6) by (auto simp: evidence_def)
  obtain l where l: "checkEvidence p qc = Inr l" "l \<or> (\<exists>tc. P_LastViewTC p = Some tc \<and> ValidateTC (nw_validator N) tc = Inr ())"
    using assms(2,3) unfolding ValidateProposal_ok by (metis option.inject)
  have "\<not> l" using l(1) assms(5,6) by (simp add: checkEvidence_ok)
  then have tc: "ValidateTC (New_Validator (nw_committee N) (nw_verifier N)) t = Inr ()"
    using l(2) t(1) by (simp add: nw_validator_def)
  have "soundVerifier (nw_verifier N) (nodeVoted (nw_keySigned N) (nw_committee N)) (nodeTimedOut (nw_keySigned N))"
    using assms(1) flowVerifiers_sound by (auto simp: networkOk_def)
  from ValidateTC_quorum [OF this networkOk_committee [OF assms(1)] tc] t(2)
  obtain Q where "quorumOf (nw_committee N) (TC_View t)
      (\<lambda>s. \<exists>u \<le> QC_View tq. nodeTimedOut (nw_keySigned N) s (TC_View t) u) Q" by auto
  then have "quorumOf (nw_committee N) (TC_View t)
      (\<lambda>s. \<exists>u \<le> QC_View qc. nodeTimedOut (nw_keySigned N) s (TC_View t) u) Q"
    unfolding quorumOf_def using t(4) by (meson order.trans)
  with t(3) show ?thesis by blast
qed

lemma nw_lock:
  assumes "networkOk N" "certifiedRef N r1" "parentRef N r1 r0" "rootView N < snd r1"
    "certifiedRef N r" "snd r1 < snd r" "parentRef N r r'" "snd r0 < snd r1"
  shows "snd r0 \<le> snd r'"
proof -
  obtain n p where p: "honestVote N n p r"
    using certified_votes [OF assms(1,5)] assms(4,6) by (meson less_trans)
  then obtain qc where qc: "B_QC (P_Block p) = Some qc" "r' = qcRef qc"
    using honestVote_parent nw_parent_unique [OF assms(1,7)] by blast
  have v: "B_View (P_Block p) = snd r" using p by (auto simp: honestVote_def blockRef_def)
  note F = honestVote_facts [OF p]
  show ?thesis
  proof (cases "QC_View qc + 1 = snd r")
    case True
    then have "\<not> snd r' < snd r1" using assms(6) inc_le [of "QC_View qc" "snd r1"] qc(2) by auto
    then show ?thesis using assms(8) by (meson less_imp_le less_le_trans not_less)
  next
    case False
    from skipping_proposal [OF assms(1) F(3) qc(1) F(5) v False] obtain w Q where w: "w + 1 = snd r"
      "quorumOf (nw_committee N) w (\<lambda>s. \<exists>u \<le> QC_View qc. nodeTimedOut (nw_keySigned N) s w u) Q" by blast
    obtain Q1 where Q1: "quorumOf (nw_committee N) (snd r1)
      (\<lambda>s. nodeVoted (nw_keySigned N) (nw_committee N) s (snd r1) (fst r1)) Q1"
      using certified_quorum [OF assms(1,2)] by blast
    from quorums_share_honest [OF assms(1) w(2) Q1] obtain x u where x: "honestReplica N (NodeID x)" "keysSafe N x"
      "nodeVoted (nw_keySigned N) (nw_committee N) x (snd r1) (fst r1)" "u \<le> QC_View qc"
      "nodeTimedOut (nw_keySigned N) x w u" by blast
    obtain p1 where p1: "honestVote N (NodeID x) p1 r1" using keysSafe_vote [OF x(1-3) assms(4)] by blast
    obtain q1 where "B_QC (P_Block p1) = Some q1" "r0 = qcRef q1"
      using honestVote_parent [OF p1] nw_parent_unique [OF assms(1,3)] by blast
    then have q0: "qcView (B_QC (P_Block p1)) = snd r0" by (simp add: qcView_def)
    obtain t where "SignedTimeout t \<in> set (nw_history N (NodeID x))" "TO_View t = w" "qcView (TO_NewestQC t) = u"
      using x(2,5) unfolding keysSafe_def by blast
    then have "Abstain w u \<in> set (map ballotOf (nw_history N (NodeID x)))" by (force simp: ballotOf_def)
    moreover have "snd r1 \<le> w" using w(1) assms(6) inc_le [of w "snd r1"] by (metis not_le leD)
    ultimately have "snd r0 \<le> u"
      using voter_timeout_covers [OF honestVote_facts(2,1) [OF p1]] q0 by simp
    with x(4) qc(2) show ?thesis by simp
  qed
qed

interpretation jn: jolteon networkOk certifiedRef parentRef rootView
proof (unfold_locales, goal_cases)
  case (2 N r)
  then show ?case using certified_votes honestVote_parent by metis
next
  case (3 N r r')
  then show ?case by (auto simp: parentRef_def certifiedRef_def blockRef_def)
next
  case (5 N r1 r0 r r')
  have "snd r0 < snd r1" using 5(3) by (auto simp: parentRef_def blockRef_def)
  with 5 nw_lock [OF 5(1-3) _ 5(6-8)] show ?case by simp
qed (fact nw_cert_unique nw_parent_unique)+
section \<open>Finalization at every replica\<close>

text \<open>
  Forks at a replica that adds only proposals its validator accepts, as the compliance layer in
  front of the event handler does, with any callback.
\<close>

inductive replicaForks :: "network \<Rightarrow> finalizer \<Rightarrow> Forks \<Rightarrow> bool"
  for N :: network and mf :: finalizer where
  rf_init: "New_Forks (nw_root N) = Inr f \<Longrightarrow> replicaForks N mf f"
| rf_add: "\<lbrakk>replicaForks N mf f; ValidateProposal (nw_validator N) p = Inr (); P_Block p \<in> nw_blocks N;
    AddProposal mf p f = (Inr (), f')\<rbrakk> \<Longrightarrow> replicaForks N mf f'"

lemma replicaForks_reachable: "replicaForks N mf f \<Longrightarrow> forks_reachable mf (nw_root N) f"
  by (induction rule: replicaForks.induct) (auto intro: forks_reachable.intros)

definition checkedBlock :: "network \<Rightarrow> Block \<Rightarrow> bool" where
  "checkedBlock N b \<longleftrightarrow> b \<in> nw_blocks N
     \<and> (\<exists>qc. B_QC b = Some qc \<and> ValidateQC (nw_validator N) qc = Inr ())"

lemma checked_proposal:
  "\<lbrakk>ValidateProposal (nw_validator N) p = Inr (); P_Block p \<in> nw_blocks N\<rbrakk> \<Longrightarrow> checkedBlock N (P_Block p)"
  unfolding checkedBlock_def ValidateProposal_ok by blast

lemma checked_parentRef:
  assumes "checkedBlock N b" "B_QC b = Some qc" "qcRef qc = r" "QC_View qc < B_View b"
  shows "parentRef N (blockRef b) r"
  using assms unfolding checkedBlock_def parentRef_def by auto

lemma checked_chain:
  "\<lbrakk>certifiedChain b bs; \<forall>c\<in>set bs. checkedBlock N c\<rbrakk> \<Longrightarrow> jn.chain N (blockRef b) (map blockRef bs)"
proof (induction b bs rule: certifiedChain.induct)
  case (2 b c cs)
  then obtain qc where "B_QC c = Some qc" "qcRef qc = blockRef b" "QC_View qc < B_View c"
    by (auto simp: blockRef_def split: option.splits)
  with 2 show ?case using checked_parentRef by simp
qed simp

lemma certifiedChain_above: "\<lbrakk>certifiedChain b bs; c \<in> set bs\<rbrakk> \<Longrightarrow> B_View b < B_View c"
  by (induction b bs rule: certifiedChain.induct) (auto intro: less_trans)

lemma parentBlock_facts:
  assumes "forks_inv f" "parentBlock f b = Some (b', qc)"
  shows "FinalizedView f < B_View b" "B_QC b = Some qc" "qcRef qc = blockRef b'"
    "FinalizedView f \<le> B_View b'" "\<exists>i q. GetProposal f i = Some q \<and> P_Block q = b'"
proof -
  have "\<exists>q. FinalizedView f < B_View b \<and> B_QC b = Some qc \<and> GetProposal f (QC_BlockID qc) = Some q
      \<and> B_View b' = QC_View qc \<and> b' = P_Block q"
    using assms(2) by (simp add: parentBlock_def not_le split: if_splits option.splits)
  then obtain q where q: "FinalizedView f < B_View b" "B_QC b = Some qc"
    "GetProposal f (QC_BlockID qc) = Some q" "B_View b' = QC_View qc" "b' = P_Block q" by blast
  obtain v where v: "GetVertex (forest f) (QC_BlockID qc) = Some v" "Payload v = q"
    using q(3) by (auto simp: GetProposal_def)
  note c = BlockContainer_fields [OF forks_invD(3) [OF assms(1) v(1)]]
  show "FinalizedView f < B_View b" by (rule q(1))
  show "B_QC b = Some qc" by (rule q(2))
  show "\<exists>i q. GetProposal f i = Some q \<and> P_Block q = b'" using q(3,5) by metis
  show "qcRef qc = blockRef b'"
    using q(4,5) c(1) v forks_invD(6) [OF assms(1) v(1)] by (simp add: blockRef_def)
  show "FinalizedView f \<le> B_View b'" using forks_invD(5) [OF assms(1) v(1)] c(2) v(2) q(5) by simp
qed

text \<open>What Forks stores and finalizes at a replica.\<close>

definition forksSafe :: "network \<Rightarrow> Forks \<Rightarrow> bool" where
  "forksSafe N f \<longleftrightarrow>
     rootView N \<le> FinalizedView f
     \<and> (\<forall>i q. GetProposal f i = Some q \<longrightarrow> P_Block q = BQ_Block (nw_root N) \<or> checkedBlock N (P_Block q))
     \<and> (\<forall>b\<in>set (finalizedBlocks (events f)). checkedBlock N b)
     \<and> (FinalizedBlock f = BQ_Block (nw_root N) \<or> jn.committed N (blockRef (FinalizedBlock f)))"

lemma commitRule_committed:
  assumes inv: "forks_inv f" and safe: "forksSafe N f"
    and p: "ValidateProposal (nw_validator N) p = Inr ()" and c: "commitRule f (P_Block p) = Some (b, qc)"
  shows "jn.committed N (blockRef b)"
proof -
  obtain b' q1 where b': "parentBlock f (P_Block p) = Some (b', q1)" "parentBlock f b' = Some (b, qc)"
    "B_View b' = B_View b + 1"
    using c by (auto simp: commitRule_def split: option.splits if_splits)
  note F1 = parentBlock_facts [OF inv b'(1)] and F2 = parentBlock_facts [OF inv b'(2)]
  have "ValidateQC (nw_validator N) q1 = Inr ()"
    using p F1(2) unfolding ValidateProposal_ok by (metis option.inject)
  then have cert: "certifiedRef N (blockRef b')" using F1(3) by (auto simp: certifiedRef_def)
  have R: "rootView N \<le> FinalizedView f" using safe by (simp add: forksSafe_def)
  have "b' \<noteq> BQ_Block (nw_root N)" using F2(1) R by (auto simp: rootView_def)
  then have "checkedBlock N b'" using safe F1(5) unfolding forksSafe_def by blast
  moreover have "B_View b < B_View b'"
    using word_add_one_lessD [OF b'(3) [symmetric]] F2(1) le_less_trans [OF word_zero_le] by blast
  then have "QC_View qc < B_View b'" using F2(3) by (simp add: blockRef_def)
  ultimately have "parentRef N (blockRef b') (blockRef b)" using checked_parentRef F2(2,3) by blast
  then show ?thesis
    unfolding jn.committed_def using cert b'(3) R F2(4) by (metis blockRef_def order.trans snd_conv)
qed
lemma forksSafe_add:
  assumes inv: "forks_inv f" and safe: "forksSafe N f"
    and p: "ValidateProposal (nw_validator N) p = Inr ()" "P_Block p \<in> nw_blocks N"
    and add: "AddProposal mf p f = (Inr (), f')"
  shows "forksSafe N f'"
proof (cases "IsProcessingNeeded f (P_Block p)")
  case False
  then have "f' = f" using add by (cases rule: AddProposal_cases [OF inv, of p mf]) simp_all
  with safe show ?thesis by simp
next
  case True
  note E = AddProposal_effect [OF inv add True]
  obtain bs where bs: "finalizedBlocks (events f') = finalizedBlocks (events f) @ bs"
    "certifiedChain (FinalizedBlock f) bs" "last (FinalizedBlock f # bs) = FinalizedBlock f'"
    "\<forall>b\<in>set bs. \<exists>q. P_Block q = b \<and> (q = p \<or> (\<exists>i. GetProposal f i = Some q))"
    using AddProposal_finalizes [OF inv add] by blast
  have R: "rootView N \<le> FinalizedView f" using safe by (simp add: forksSafe_def)
  have st: "P_Block q = BQ_Block (nw_root N) \<or> checkedBlock N (P_Block q)"
    if "q = p \<or> (\<exists>i. GetProposal f i = Some q)" for q
    using that safe checked_proposal [OF p] unfolding forksSafe_def by blast
  have above: "rootView N < B_View b" if "b \<in> set bs" for b
    using certifiedChain_above [OF bs(2) that] R by (auto simp: FinalizedBlock_def FinalizedView_def)
  have "checkedBlock N b" if "b \<in> set bs" for b
    using bs(4) that st above [OF that] unfolding rootView_def by (metis less_irrefl)
  then have "\<forall>b\<in>set (finalizedBlocks (events f')). checkedBlock N b"
    using safe bs(1) by (auto simp: forksSafe_def)
  moreover have "rootView N \<le> FinalizedView f'"
  proof (cases "bs = []")
    case True
    then have "FinalizedBlock f' = FinalizedBlock f" using bs(3) by simp
    with R show ?thesis by (simp add: FinalizedView_def FinalizedBlock_def)
  next
    case False
    then have "FinalizedBlock f' \<in> set bs" using bs(3) last_in_set by fastforce
    from above [OF this] show ?thesis by (simp add: FinalizedView_def FinalizedBlock_def)
  qed
  moreover have "FinalizedBlock f' = BQ_Block (nw_root N) \<or> jn.committed N (blockRef (FinalizedBlock f'))"
  proof (cases "commitRule f (P_Block p)")
    case None
    with E safe show ?thesis by (simp add: forksSafe_def)
  next
    case (Some bq)
    with E commitRule_committed [OF inv safe p(1), of "fst bq" "snd bq"] show ?thesis by (simp add: case_prod_beta)
  qed
  moreover have "P_Block q = BQ_Block (nw_root N) \<or> checkedBlock N (P_Block q)" if "GetProposal f' i = Some q" for i q
    using E that st [of q] by (metis (full_types))
  ultimately show ?thesis unfolding forksSafe_def by blast
qed

lemma replicaForks_safe:
  "replicaForks N mf f \<Longrightarrow> forksSafe N f"
proof (induction rule: replicaForks.induct)
  case (rf_init f)
  from New_Forks_inv [OF this] show ?case
    by (simp add: forksSafe_def rootView_def FinalizedView_def FinalizedBlock_def)
next
  case (rf_add f p f')
  have "forks_inv f" using reachable_forks_inv [OF replicaForks_reachable [OF rf_add(1)]] by blast
  from forksSafe_add [OF this rf_add.IH rf_add.hyps(2-4)] show ?case .
qed

lemma replicaForks_chain:
  assumes "replicaForks N mf f"
  shows "jn.chain N (rootRef N) (map blockRef (finalizedBlocks (events f)))"
    "finalizedBlocks (events f) = [] \<or> jn.committed N (last (map blockRef (finalizedBlocks (events f))))"
    "set (finalizedBlocks (events f)) \<subseteq> nw_blocks N"
proof -
  note safe = replicaForks_safe [OF assms, unfolded forksSafe_def]
  have c: "certifiedChain (BQ_Block (nw_root N)) (finalizedBlocks (events f))"
    "last (BQ_Block (nw_root N) # finalizedBlocks (events f)) = FinalizedBlock f"
    using reachable_forks_inv [OF replicaForks_reachable [OF assms]] by blast+
  show "jn.chain N (rootRef N) (map blockRef (finalizedBlocks (events f)))"
    using checked_chain [OF c(1)] safe by (simp add: rootRef_def blockRef_def [of "BQ_Block (nw_root N)"])
  show "set (finalizedBlocks (events f)) \<subseteq> nw_blocks N" using safe by (auto simp: checkedBlock_def)
  show "finalizedBlocks (events f) = [] \<or> jn.committed N (last (map blockRef (finalizedBlocks (events f))))"
  proof (cases "finalizedBlocks (events f) = []")
    case False
    then have l: "FinalizedBlock f \<in> set (finalizedBlocks (events f))"
      "last (map blockRef (finalizedBlocks (events f))) = blockRef (FinalizedBlock f)"
      using c(2) last_in_set by (fastforce simp: last_map)+
    have "FinalizedBlock f \<noteq> BQ_Block (nw_root N)" using certifiedChain_above [OF c(1) l(1)] by auto
    with safe l(2) show ?thesis by simp
  qed simp
qed

lemma prefix_map_inj:
  assumes "inj_on g A" "set xs \<subseteq> A" "set ys \<subseteq> A" "prefix (map g xs) (map g ys)"
  shows "prefix xs ys"
proof -
  obtain zs where "map g ys = map g xs @ zs" using assms(4) by (auto simp: prefix_def)
  then obtain us vs where ys: "ys = us @ vs" "map g us = map g xs" by (metis append_eq_map_conv)
  have "us = xs" using ys assms(1-3) by (intro map_inj_on [OF ys(2)]) (auto intro: inj_on_subset)
  then show ?thesis using ys(1) by simp
qed


section \<open>An example network\<close>

theorem safety_rules_refine_voter_witness:
  "voter (map ballotOf [exampleVote3, exampleTimeout2, exampleVote1])
   \<and> ballotOf exampleTimeout2 = Abstain 7 5"
proof -
  have "ballotOf exampleTimeout2 = Abstain 7 5" by code_simp
  then show ?thesis
    using safety_rules_refine_voter [OF _ example_db_sound example_run, of exampleMe] by (simp add: flowSigner_def)
qed

text \<open>
  Four nodes of equal weight, of which node 4 is Byzantine and silent. The other three vote for the
  chain of the blocks 102 to 105 of the views 2 to 5, above the root 101 of view 1; node 2 leads.
  The signer indices of the QCs are a parameter until the validator looks at them.
\<close>

definition chainQC :: "bytes \<Rightarrow> uint64 \<Rightarrow> Identifier \<Rightarrow> QuorumCertificate" where
  "chainQC si v i = \<lparr>QC_View = v, QC_BlockID = i, QC_SignerIndices = si, QC_SigData = []\<rparr>"

definition chainProposals :: "bytes \<Rightarrow> Proposal list" where
  "chainProposals si =
     [exampleProposal 2 102 (Some (chainQC si 1 101)), exampleProposal 3 103 (Some (chainQC si 2 102)),
      exampleProposal 4 104 (Some (chainQC si 3 103)), exampleProposal 5 105 (Some (chainQC si 4 104))]"

definition chainRoot :: "bytes \<Rightarrow> BlockQC" where
  "chainRoot si = \<lparr>BQ_Block = exampleBlock 1 101 None, BQ_QC = chainQC si 1 101\<rparr>"

definition chainDB :: badgerDB where
  "chainDB = [([10, 7], SafetyEntity \<lparr>LockedOneChainView = 1, HighestAcknowledgedView = 1, LastTimeout = None\<rparr>)]"

definition chainMe :: "Identifier \<Rightarrow> local_node" where
  "chainMe n = exampleMe\<lparr>me_NodeID := n\<rparr>"

definition chainVote ::
  "Identifier \<Rightarrow> Proposal \<Rightarrow> badgerDB SafetyRules \<times> signed list \<Rightarrow> badgerDB SafetyRules \<times> signed list" where
  "chainVote n p s =
     (case ProduceVote (NewStakingSigner (chainMe n)) (exampleLeaderCom\<lparr>Self := n\<rparr>)
        (putSafety exampleBadger [7]) p (B_View (P_Block p)) (fst s) of
        (Inl _, r) \<Rightarrow> (r, snd s)
      | (Inr vt, r) \<Rightarrow> (r, SignedVote p vt # snd s))"

definition chainVoter :: "bytes \<Rightarrow> Identifier \<Rightarrow> badgerDB SafetyRules \<times> signed list" where
  "chainVoter si n = fold (chainVote n) (chainProposals si)
     (projr (New_SafetyRules (GetSafetyData exampleBadger [7]) chainDB), [])"

definition chainForks :: "bytes \<Rightarrow> nat \<Rightarrow> Forks" where
  "chainForks si k = fold (\<lambda>p f. snd (AddProposal acceptAll p f)) (take k (chainProposals si))
     (projr (New_Forks (chainRoot si)))"

lemma chainVotes_run:
  assumes "sr_runs (NewStakingSigner (chainMe n)) (exampleLeaderCom\<lparr>Self := n\<rparr>) [7] db0 (fst s) (snd s)"
  shows "sr_runs (NewStakingSigner (chainMe n)) (exampleLeaderCom\<lparr>Self := n\<rparr>) [7] db0
     (fst (fold (chainVote n) ps s)) (snd (fold (chainVote n) ps s))"
  using assms
proof (induction ps arbitrary: s)
  case (Cons p ps)
  have put: "putSafety exampleBadger [7] \<in> range (\<lambda>bg. putSafety bg [7])" by blast
  obtain a r' where r: "ProduceVote (NewStakingSigner (chainMe n)) (exampleLeaderCom\<lparr>Self := n\<rparr>)
      (putSafety exampleBadger [7]) p (B_View (P_Block p)) (fst s) = (a, r')" by fastforce
  have "sr_runs (NewStakingSigner (chainMe n)) (exampleLeaderCom\<lparr>Self := n\<rparr>) [7] db0
      (fst (chainVote n p s)) (snd (chainVote n p s))"
    using sr_run.vote_error [OF Cons.prems [unfolded sr_runs_def] put]
      sr_run.vote [OF Cons.prems [unfolded sr_runs_def] put] r
    unfolding sr_runs_def by (cases a) (auto simp: chainVote_def)
  then show ?case using Cons.IH by simp
qed simp

lemma chainVotes_proposals:
  "SignedVote p vt \<in> set (snd (fold (chainVote n) ps s)) \<Longrightarrow> p \<in> set ps \<or> SignedVote p vt \<in> set (snd s)"
proof (induction ps arbitrary: s)
  case (Cons q ps)
  then have "p \<in> set ps \<or> SignedVote p vt \<in> set (snd (chainVote n q s))" by simp
  then show ?case by (auto simp: chainVote_def split: prod.splits sum.splits)
qed simp

lemma chainVoter_ballots:
  "map ballotOf (snd (chainVoter si n)) = [Ballot 5 105 4, Ballot 4 104 3, Ballot 3 103 2, Ballot 2 102 1]"
  if "n \<in> {1, 2, 3}"
proof -
  have "map ballotOf (snd (chainVoter si 1)) = [Ballot 5 105 4, Ballot 4 104 3, Ballot 3 103 2, Ballot 2 102 1]"
    by code_simp
  moreover have "map ballotOf (snd (chainVoter si 2)) = [Ballot 5 105 4, Ballot 4 104 3, Ballot 3 103 2, Ballot 2 102 1]"
    by code_simp
  moreover have "map ballotOf (snd (chainVoter si 3)) = [Ballot 5 105 4, Ballot 4 104 3, Ballot 3 103 2, Ballot 2 102 1]"
    by code_simp
  ultimately show ?thesis using that by auto
qed

lemma chainForks_steps:
  "New_Forks (chainRoot si) = Inr (chainForks si 0)"
  "AddProposal acceptAll (exampleProposal 2 102 (Some (chainQC si 1 101))) (chainForks si 0) = (Inr (), chainForks si 1)"
  "AddProposal acceptAll (exampleProposal 3 103 (Some (chainQC si 2 102))) (chainForks si 1) = (Inr (), chainForks si 2)"
  "AddProposal acceptAll (exampleProposal 4 104 (Some (chainQC si 3 103))) (chainForks si 2) = (Inr (), chainForks si 3)"
  "AddProposal acceptAll (exampleProposal 5 105 (Some (chainQC si 4 104))) (chainForks si 3) = (Inr (), chainForks si 4)"
  by code_simp+

lemma chainForks_finalized:
  "map B_BlockID (finalizedBlocks (events (chainForks si 3))) = [102]"
  "map B_BlockID (finalizedBlocks (events (chainForks si 4))) = [102, 103]"
  by code_simp+
text \<open>Signatures of the nodes 1, 2 and 3 for the chain, and the network.\<close>

definition chainRefs :: "(Identifier \<times> uint64) set" where
  "chainRefs = {(101, 1), (102, 2), (103, 3), (104, 4), (105, 5)}"

definition chainWho :: "byte \<Rightarrow> bytes \<Rightarrow> hasher \<Rightarrow> bool" where
  "chainWho b msg h \<longleftrightarrow> b \<in> {1, 2, 3} \<and> h = CollectorVoteTag
     \<and> msg \<in> (\<lambda>(i, v). MakeVoteMessage v i) ` chainRefs"

definition chainNetwork :: network where
  "chainNetwork =
     \<lparr>nw_committee = exampleLeaderCom, nw_bls = exampleBLS chainWho, nw_codec = exampleCodec,
      nw_verifier = NewStakingVerifier (exampleBLS chainWho), nw_keySigned = exampleSigned chainWho,
      nw_byzantine = {4}, nw_history = (\<lambda>n. snd (chainVoter exampleSignerIndices n)),
      nw_blocks = P_Block ` set (chainProposals exampleSignerIndices),
      nw_root = chainRoot exampleSignerIndices\<rparr>"

lemma chainWho_vote:
  "chainWho b (MakeVoteMessage v i) CollectorVoteTag \<longleftrightarrow> b \<in> {1, 2, 3} \<and> (i, v) \<in> chainRefs"
  by (auto simp: chainWho_def MakeVoteMessage_inj)

lemma chainQC_valid:
  assumes "(i, v) \<in> chainRefs"
  shows "ValidateQC (nw_validator chainNetwork) (chainQC exampleSignerIndices v i) = Inr ()"
  using assms
  by (simp add: ValidateQC_ok nw_validator_def chainNetwork_def exampleLeaderCom_sel chainQC_def exampleDecode
      exampleKeys NewStakingVerifier_def StakingVerifier_VerifyQC_def
      verifyAggregatedSignatureOneMessage_def exampleBLS_def exampleSigned_def chainWho_vote
      il_PublicStakingKeys_map)

lemma chainProposal_valid:
  assumes "(i, v) \<in> chainRefs" "(j, w) \<in> chainRefs" "v = w + 1"
  shows "ValidateProposal (nw_validator chainNetwork)
    (exampleProposal v i (Some (chainQC exampleSignerIndices w j))) = Inr ()"
proof -
  have "ValidateVote (nw_validator chainNetwork)
      (ProposerVote (exampleProposal v i (Some (chainQC exampleSignerIndices w j)))) = Inr (exampleIdentity 2 100)"
    using assms(1) by (simp add: ValidateVote_ok nw_validator_def chainNetwork_def exampleLeaderCom_sel
        ProposerVote_def exampleProposal_def exampleBlock_def exampleCommittee_def exampleIdentity_def
        NewStakingVerifier_def StakingVerifier_VerifyVote_def keyVerify_def exampleBLS_def exampleSigned_def
        chainWho_vote)
  then show ?thesis
    using chainQC_valid [OF assms(2)] assms(3) unfolding ValidateProposal_ok checkEvidence_ok
    by (intro exI [of _ "chainQC exampleSignerIndices w j"] exI [of _ True])
      (simp add: exampleProposal_def exampleBlock_def nw_validator_def chainNetwork_def exampleLeaderCom_sel
        chainQC_def)
qed

lemma chainProposals_valid:
  "p \<in> set (chainProposals exampleSignerIndices) \<Longrightarrow> ValidateProposal (nw_validator chainNetwork) p = Inr ()"
  by (auto simp: chainProposals_def chainRefs_def intro!: chainProposal_valid)

lemma chain_honest:
  assumes "n \<in> {1, 2, 3}"
  shows "honestReplica chainNetwork n"
proof -
  have new: "New_SafetyRules (GetSafetyData exampleBadger [7]) chainDB
      = Inr (projr (New_SafetyRules (GetSafetyData exampleBadger [7]) chainDB))" by code_simp
  have "GetSafetyData exampleBadger [7] \<in> range (\<lambda>bg. GetSafetyData bg [7])" by blast
  from chainVotes_run [of n chainDB "(projr (New_SafetyRules (GetSafetyData exampleBadger [7]) chainDB), [])"]
    sr_run.start [OF this new]
  have run: "sr_runs (NewStakingSigner (chainMe n)) (exampleLeaderCom\<lparr>Self := n\<rparr>) [7] chainDB
      (fst (chainVoter exampleSignerIndices n)) (snd (chainVoter exampleSignerIndices n))"
    by (simp add: sr_runs_def chainVoter_def)
  have "storedSafety [7] chainDB = Inr \<lparr>LockedOneChainView = 1, HighestAcknowledgedView = 1, LastTimeout = None\<rparr>"
    by code_simp
  then have "dbSound (storedSafety [7]) [] chainDB"
    "\<forall>d. storedSafety [7] chainDB = Inr d \<longrightarrow> rootView chainNetwork \<le> HighestAcknowledgedView d"
    by (simp_all add: dbSound_def soundFor_def rootView_def chainNetwork_def chainRoot_def exampleBlock_def)
  moreover have "me_NodeID (chainMe n) = n" "flowSigner (chainMe n) (NewStakingSigner (chainMe n))"
    by (simp_all add: chainMe_def flowSigner_def)
  moreover have "p \<in> set (chainProposals exampleSignerIndices)"
    if "SignedVote p vt \<in> set (nw_history chainNetwork n)" for p vt
    using chainVotes_proposals [of p vt n "chainProposals exampleSignerIndices" "(_, [])"] that
    by (simp add: chainNetwork_def chainVoter_def)
  then have "ValidateProposal (nw_validator chainNetwork) p = Inr () \<and> P_Block p \<in> nw_blocks chainNetwork"
    if "SignedVote p vt \<in> set (nw_history chainNetwork n)" for p vt
    using chainProposals_valid that by (fastforce simp: chainNetwork_def)
  moreover have "nw_committee chainNetwork = exampleLeaderCom"
    "nw_history chainNetwork n = snd (chainVoter exampleSignerIndices n)" by (simp_all add: chainNetwork_def)
  ultimately show ?thesis using run unfolding honestReplica_def by metis
qed

lemma chain_keys:
  assumes "x \<in> set exampleCommittee" "NodeID x \<noteq> 4"
  shows "keysSafe chainNetwork x"
proof -
  have x: "NodeID x \<in> {1, 2, 3}" "StakingPubKey x = Some [ucast (NodeID x)]"
    using assms by (auto simp: exampleCommittee_def exampleIdentity_def)
  have tags: "CollectorTimeoutTag \<noteq> CollectorVoteTag" "ConsensusTimeoutTag \<noteq> CollectorVoteTag" by code_simp+
  have signed: "(i, v) = (101, 1) \<or> (\<exists>q. Ballot v i q \<in> set (map ballotOf (nw_history chainNetwork (NodeID x))))"
    if "nodeVoted (exampleSigned chainWho) exampleLeaderCom x v i" for v i
  proof -
    have "exampleSigned chainWho pk (MakeVoteMessage v i) h \<Longrightarrow> (i, v) \<in> chainRefs" for pk h
      by (cases pk) (auto simp: exampleSigned_def chainWho_def MakeVoteMessage_inj)
    with that have "(i, v) \<in> chainRefs"
      unfolding nodeVoted_def stakingVoted_def beaconVoted_def ownerSigned_def by blast
    then show ?thesis
      using chainVoter_ballots [OF x(1), of exampleSignerIndices]
      by (auto simp: chainRefs_def chainNetwork_def simp del: set_map)
  qed
  have eqs: "rootRef chainNetwork = (101, 1)" "nw_keySigned chainNetwork = exampleSigned chainWho"
    "nw_committee chainNetwork = exampleLeaderCom"
    by (simp_all add: chainNetwork_def rootRef_def chainRoot_def exampleBlock_def)
  have timeouts: "\<not> nodeTimedOut (nw_keySigned chainNetwork) x v w" for v w
    using x(2) tags by (simp add: eqs nodeTimedOut_def stakingTimedOut_def ownerSigned_def exampleSigned_def chainWho_def)
  have ballot: "\<exists>p vt. SignedVote p vt \<in> set os \<and> B_View (P_Block p) = v \<and> B_BlockID (P_Block p) = i"
    if "Ballot v i q \<in> set (map ballotOf os)" for v i q os
    using that by (auto simp: ballotOf_def split: signed.splits) blast
  have "(i, v) = rootRef chainNetwork
      \<or> (\<exists>p vt. SignedVote p vt \<in> set (nw_history chainNetwork (NodeID x))
           \<and> B_View (P_Block p) = v \<and> B_BlockID (P_Block p) = i)"
    if "nodeVoted (nw_keySigned chainNetwork) (nw_committee chainNetwork) x v i" for v i
    using signed [OF that [unfolded eqs(2,3)]] ballot [of v i] unfolding eqs(1) by blast
  then show ?thesis using timeouts unfolding keysSafe_def by blast
qed

lemma chainNetwork_ok: "networkOk chainNetwork"
proof -
  have ids: "set (il_NodeIDs exampleCommittee) = {1, 2, 3, 4}"
    by (simp add: il_NodeIDs_def exampleCommittee_def exampleIdentity_def)
  have "memberWeight exampleCommittee 4 = 100" "il_TotalWeight exampleCommittee = 400"
    "WeightThresholdToBuildQC (il_TotalWeight exampleCommittee) = 267" by code_simp+
  then have "epochCommittee chainNetwork exampleCommittee"
    by (simp add: epochCommittee_def chainNetwork_def exampleLeaderCom_sel exampleCommittee_ok ids)
  moreover have "NodeID x \<in> {1, 2, 3}" if "x \<in> set exampleCommittee" "NodeID x \<noteq> 4" for x
    using that by (auto simp: exampleCommittee_def exampleIdentity_def)
  moreover have "inj_on B_BlockID (nw_blocks chainNetwork)"
    by (auto simp: inj_on_def chainNetwork_def chainProposals_def exampleProposal_def exampleBlock_def)
  moreover have "nw_byzantine chainNetwork = {4}" "blsSound (nw_keySigned chainNetwork) (nw_bls chainNetwork)"
    "nw_verifier chainNetwork \<in> flowVerifiers (nw_bls chainNetwork) (nw_codec chainNetwork) (nw_committee chainNetwork)"
    by (simp_all add: chainNetwork_def exampleBLS_sound flowVerifiers_def)
  ultimately show ?thesis using chain_honest chain_keys unfolding networkOk_def by blast
qed

lemma chainForks_replica:
  "replicaForks chainNetwork acceptAll (chainForks exampleSignerIndices 3)"
  "replicaForks chainNetwork acceptAll (chainForks exampleSignerIndices 4)"
proof -
  have root: "nw_root chainNetwork = chainRoot exampleSignerIndices" by (simp add: chainNetwork_def)
  note add = rf_add [OF _ chainProposals_valid]
  have blocks: "P_Block p \<in> nw_blocks chainNetwork" if "p \<in> set (chainProposals exampleSignerIndices)" for p
    using that by (simp add: chainNetwork_def)
  note add = rf_add [OF _ chainProposals_valid blocks]
  have "replicaForks chainNetwork acceptAll (chainForks exampleSignerIndices 0)"
    by (rule rf_init) (simp add: root chainForks_steps(1))
  from add [OF this _ _ chainForks_steps(2)]
  have "replicaForks chainNetwork acceptAll (chainForks exampleSignerIndices 1)" by (simp add: chainProposals_def)
  from add [OF this _ _ chainForks_steps(3)]
  have "replicaForks chainNetwork acceptAll (chainForks exampleSignerIndices 2)" by (simp add: chainProposals_def)
  from add [OF this _ _ chainForks_steps(4)]
  show 3: "replicaForks chainNetwork acceptAll (chainForks exampleSignerIndices 3)" by (simp add: chainProposals_def)
  from add [OF this _ _ chainForks_steps(5)]
  show "replicaForks chainNetwork acceptAll (chainForks exampleSignerIndices 4)" by (simp add: chainProposals_def)
qed



end
