(* ===== verification/Spec2Isabelle.thy ===== *)
theory Spec2Isabelle
  imports Levelled_Forest Forks Signers Leader_Selection Safety_Rules Pacemaker Validator Event_Handler Protocol_Safety
begin

text \<open>
  A model of the consensus core of flow-go.
\<close>

end
